(* ===== verification/Kalay_Prelude.thy ===== *)
theory Kalay_Prelude
  imports Complex_Main "HOL-Library.Word" "HOL-Library.While_Combinator"
begin

unbundle bit_operations_syntax

text \<open>
  Shared vocabulary of the development: the byte strings the Go code passes around, the
  fixed-width integers it stores in them (\<open>encoding/binary\<close>), the slice operations
  \<open>copy\<close> and \<open>append\<close> as the packet builders use them, and the lemma collections the
  component theories rely on.

  \<^item> \<open>byte\<close>, \<open>u16\<close>, \<open>u32\<close>, \<open>u64\<close> are Go's unsigned integers at their width.
  \<^item> \<open>le_bytes n v\<close> and \<open>be_bytes n v\<close> are the \<open>n\<close> low bytes of \<open>v\<close>, as
    \<open>PutUint16/32/64\<close>, \<open>AppendUint16/32\<close> and the hand-written \<open>byte(v>>8)\<close> sequences store
    them; \<open>le_word\<close> and \<open>be_word\<close> read them back.
  \<^item> \<open>slot n b\<close> is a zeroed \<open>n\<close>-byte array after \<open>copy(slot[:], b)\<close>.
  \<^item> \<open>byte_codec\<close> is the interface of a length-preserving reversible byte transformation, and
    \<open>frame_stream\<close> the interface of a self-delimiting frame format with its stream parser.
\<close>

type_synonym byte = "8 word"
type_synonym bytes = "8 word list"
type_synonym u16 = "16 word"
type_synonym u32 = "32 word"
type_synonym u64 = "64 word"

named_theorems wire_len \<open>lengths of encoded packets and fields\<close>
named_theorems wire_def \<open>definitions of packet builders, for evaluation\<close>

section \<open>Fixed-width integers in byte strings\<close>

definition le_bytes :: "nat \<Rightarrow> 'a::len word \<Rightarrow> bytes" where
  "le_bytes n v = map (\<lambda>i. ucast (drop_bit (8 * i) v)) [0..<n]"

definition be_bytes :: "nat \<Rightarrow> 'a::len word \<Rightarrow> bytes" where
  "be_bytes n v = rev (le_bytes n v)"

fun le_word :: "bytes \<Rightarrow> 'a::len word" where
  "le_word [] = 0"
| "le_word (b # bs) = ucast b OR push_bit 8 (le_word bs)"

definition be_word :: "bytes \<Rightarrow> 'a::len word" where
  "be_word bs = le_word (rev bs)"

definition slot :: "nat \<Rightarrow> bytes \<Rightarrow> bytes" where
  "slot n b = take n b @ replicate (n - length b) 0"

lemma length_le_bytes [simp, wire_len]: "length (le_bytes n v) = n"
  by (simp add: le_bytes_def)

lemma length_be_bytes [simp, wire_len]: "length (be_bytes n v) = n"
  by (simp add: be_bytes_def)

lemma length_slot [simp, wire_len]: "length (slot n b) = n"
  by (simp add: slot_def)

lemma slot_exact [simp]: "length b = n \<Longrightarrow> slot n b = b"
  by (simp add: slot_def)

lemma slot_short: "length b \<le> n \<Longrightarrow> slot n b = b @ replicate (n - length b) 0"
  by (simp add: slot_def)

lemma le_bytes_nth: "i < n \<Longrightarrow> le_bytes n v ! i = ucast (drop_bit (8 * i) v)"
  by (simp add: le_bytes_def)

lemma le_bytes_2: "le_bytes 2 v = [ucast v, ucast (drop_bit 8 v)]"
  by (simp add: le_bytes_def upt_rec)

lemma le_bytes_4:
  "le_bytes 4 v = [ucast v, ucast (drop_bit 8 v), ucast (drop_bit 16 v), ucast (drop_bit 24 v)]"
  by (simp add: le_bytes_def upt_rec)

lemma le_bytes_6:
  "le_bytes 6 v = [ucast v, ucast (drop_bit 8 v), ucast (drop_bit 16 v), ucast (drop_bit 24 v),
     ucast (drop_bit 32 v), ucast (drop_bit 40 v)]"
  by (simp add: le_bytes_def upt_rec)

lemma be_bytes_2: "be_bytes 2 v = [ucast (drop_bit 8 v), ucast v]"
  by (simp add: be_bytes_def le_bytes_2)

lemma be_bytes_6:
  "be_bytes 6 v = [ucast (drop_bit 40 v), ucast (drop_bit 32 v), ucast (drop_bit 24 v),
     ucast (drop_bit 16 v), ucast (drop_bit 8 v), ucast v]"
  by (simp add: be_bytes_def le_bytes_6)

lemmas bytes_unfold = le_bytes_2 le_bytes_4 le_bytes_6 be_bytes_2 be_bytes_6

lemma bit_le_word:
  "bit (le_word bs :: 'a::len word) k \<longleftrightarrow>
     k < LENGTH('a) \<and> k div 8 < length bs \<and> bit (bs ! (k div 8)) (k mod 8)"
proof (induction bs arbitrary: k)
  case Nil
  then show ?case by simp
next
  case (Cons b bs)
  show ?case
  proof (cases "k < 8")
    case True
    then show ?thesis
      by (auto simp: bit_simps)
  next
    case False
    then obtain m where m: "k = m + 8" by (metis add.commute le_Suc_ex not_less)
    have "\<not> bit b (m + 8)"
      by (simp add: bit_word.rep_eq)
    with Cons.IH [of m] show ?thesis
      by (auto simp: m bit_simps)
  qed
qed

lemma le_word_le_bytes:
  fixes v :: "'a::len word"
  assumes "\<And>k. bit v k \<Longrightarrow> k < 8 * n"
  shows "le_word (le_bytes n v) = v"
proof (rule bit_word_eqI)
  fix k assume k: "k < LENGTH('a)"
  show "bit (le_word (le_bytes n v) :: 'a word) k \<longleftrightarrow> bit v k"
  proof (cases "k div 8 < n")
    case True
    have "8 * (k div 8) + k mod 8 = k" by simp
    with True k show ?thesis
      by (simp add: bit_le_word le_bytes_nth bit_simps)
  next
    case False
    then have "\<not> bit v k" using assms [of k] by (auto simp: not_less)
    with False show ?thesis by (simp add: bit_le_word)
  qed
qed

lemma le_word_le_bytes_full [simp]:
  fixes v :: "'a::len word"
  shows "LENGTH('a) \<le> 8 * n \<Longrightarrow> le_word (le_bytes n v) = v"
  by (rule le_word_le_bytes) (auto dest: bit_imp_le_length)

lemma be_word_be_bytes_full [simp]:
  fixes v :: "'a::len word"
  shows "LENGTH('a) \<le> 8 * n \<Longrightarrow> be_word (be_bytes n v) = v"
  by (simp add: be_word_def be_bytes_def)

lemma be_word_be_bytes_less:
  fixes v :: "'a::len word"
  assumes "unat v < 2 ^ (8 * n)"
  shows "be_word (be_bytes n v) = v"
proof -
  have "unat (take_bit (8 * n) v) = unat v"
    using assms by (simp add: unsigned_take_bit_eq take_bit_nat_eq_self)
  then have v: "take_bit (8 * n) v = v" by (rule unsigned_word_eqI)
  have "k < 8 * n" if "bit v k" for k
    using that by (subst (asm) v [symmetric]) (simp add: bit_take_bit_iff)
  then show ?thesis
    by (simp add: be_word_def be_bytes_def le_word_le_bytes)
qed

lemma unat_le_word_of_nat [simp]:
  "m < 65536 \<Longrightarrow> unat (le_word (le_bytes 2 (word_of_nat m :: u16)) :: u16) = m"
  by (simp add: unat_of_nat)

lemma unat_be_word_of_nat [simp]:
  "m < 65536 \<Longrightarrow> unat (be_word (be_bytes 2 (word_of_nat m :: u16)) :: u16) = m"
  by (simp add: unat_of_nat)

lemma u16_less: "unat (w :: u16) < 65536"
  using unsigned_less [of w, where ?'a = nat] by simp

lemma unat_u16_of_nat [simp]: "m < 65536 \<Longrightarrow> unat (word_of_nat m :: u16) = m"
  by (simp add: unat_of_nat)

lemma unat_u64_of_nat [simp]:
  "m < 18446744073709551616 \<Longrightarrow> unat (word_of_nat m :: u64) = m"
  by (simp add: unat_of_nat)

text \<open>Sequence numbers below the wrap-around point.\<close>

lemma unat_u64_Suc: "(a :: u64) \<noteq> - 1 \<Longrightarrow> unat (a + 1) = Suc (unat a)"
  by (metis add.commute add.inverse_inverse add_eq_0_iff unatSuc)

lemma word_less_Suc: "(a :: u64) \<noteq> - 1 \<Longrightarrow> s < a + 1 \<longleftrightarrow> s \<le> a"
  by (simp add: word_less_nat_alt word_le_nat_alt unat_u64_Suc less_Suc_eq_le)

lemma word_Suc_le: "(a :: u64) \<noteq> - 1 \<Longrightarrow> a + 1 \<le> s \<longleftrightarrow> a < s"
  by (simp add: word_less_nat_alt word_le_nat_alt unat_u64_Suc Suc_le_eq)

text \<open>Skipping a four-byte header and its payload.\<close>

lemma drop_hdr4 [simp]: "drop (4 + length c) (b0 # b1 # b2 # b3 # c @ rest) = rest"
  by (simp add: numeral_eq_Suc)

lemma take_hdr4 [simp]: "take (length c) (drop 4 (b0 # b1 # b2 # b3 # c @ rest)) = c"
  by simp

subsection \<open>Sixteen-bit lengths and ports assembled from two bytes\<close>

text \<open>
  The Go expression \<open>int(lo) | int(hi)<<8\<close>, and its inverse pair \<open>byte(n), byte(n>>8)\<close> on a
  non-negative \<open>int\<close>.
\<close>

definition int16_of :: "byte \<Rightarrow> byte \<Rightarrow> nat" where
  "int16_of lo hi = unat lo OR push_bit 8 (unat hi)"

definition lo_byte :: "nat \<Rightarrow> byte" where
  "lo_byte n = word_of_nat n"

definition hi_byte :: "nat \<Rightarrow> byte" where
  "hi_byte n = word_of_nat (drop_bit 8 n)"

lemma byte_less: "unat (b :: byte) < 256"
  using unsigned_less [of b, where ?'a = nat] by simp

lemma int16_of_plus: "int16_of lo hi = unat lo + 256 * unat hi"
proof -
  have "unat lo AND push_bit 8 (unat hi) = 0"
  proof (rule bit_eqI)
    fix n
    have "bit (unat lo) n \<Longrightarrow> n < 8"
      using bit_imp_le_length [of lo n] by (simp add: bit_unsigned_iff)
    then show "bit (unat lo AND push_bit 8 (unat hi)) n = bit (0::nat) n"
      by (auto simp: bit_simps)
  qed
  then have "unat lo OR push_bit 8 (unat hi) = unat lo + push_bit 8 (unat hi)"
    by (simp add: disjunctive_add_eq_or)
  then show ?thesis by (simp add: int16_of_def push_bit_eq_mult)
qed

lemma int16_of_less: "int16_of lo hi < 65536"
  using byte_less [of lo] byte_less [of hi] by (simp add: int16_of_plus)

lemma int16_of_bytes [simp]: "n < 65536 \<Longrightarrow> int16_of (lo_byte n) (hi_byte n) = n"
  by (simp add: int16_of_plus lo_byte_def hi_byte_def unat_of_nat drop_bit_eq_div)

section \<open>Time\<close>

text \<open>
  Times and durations are nanoseconds. \<open>time.Time\<close>'s zero value is \<open>zeroTime\<close>, and \<open>time.Since\<close>
  saturates at the range of a 64-bit duration (\<open>since\<close>). Go's integer division truncates towards
  zero (\<open>go_quot\<close>).
\<close>

definition second :: int where "second = 1000000000"
definition millisecond :: int where "millisecond = 1000000"

definition zeroTime :: int where "zeroTime = - 62135596800 * second"

definition since :: "int \<Rightarrow> int \<Rightarrow> int" where
  "since now t = max (- (2 ^ 63)) (min (2 ^ 63 - 1) (now - t))"

text \<open>Arithmetic on a \<open>time.Duration\<close> wraps at 64 bits.\<close>

definition i64 :: "int \<Rightarrow> int" where
  "i64 x = (x + 2 ^ 63) mod 2 ^ 64 - 2 ^ 63"

definition go_quot :: "int \<Rightarrow> int \<Rightarrow> int" where
  "go_quot a b = sgn a * sgn b * (\<bar>a\<bar> div \<bar>b\<bar>)"

section \<open>Go strings as bytes\<close>

definition str_bytes :: "string \<Rightarrow> bytes" where
  "str_bytes s = map of_char s"

lemma length_str_bytes [simp]: "length (str_bytes s) = length s"
  by (simp add: str_bytes_def)

section \<open>Interfaces\<close>

subsection \<open>Reversible byte transformations\<close>

text \<open>
  The obfuscation layers of \<open>control.go\<close> and \<open>transcode.go\<close> come in pairs, one per direction.
  A client that builds a packet, encodes it and has the peer decode it needs only these laws.
\<close>

locale byte_codec =
  fixes enc dec :: "bytes \<Rightarrow> bytes"
  assumes dec_enc: "dec (enc b) = b"
    and enc_dec: "enc (dec b) = b"
    and length_enc: "length (enc b) = length b"
begin

lemma enc_inject: "enc a = enc b \<longleftrightarrow> a = b"
  by (metis dec_enc)

lemma dec_inject: "dec a = dec b \<longleftrightarrow> a = b"
  by (metis enc_dec)

lemma length_dec: "length (dec b) = length b"
  by (metis enc_dec length_enc)

lemma enc_eq_iff: "enc a = b \<longleftrightarrow> a = dec b"
  by (metis dec_enc enc_dec)

end

text \<open>Encoding a prefix of bounded length and leaving the rest verbatim is again reversible.\<close>

locale prefix_codec = byte_codec +
  fixes limit :: nat
begin

definition enc_prefix :: "bytes \<Rightarrow> bytes" where
  "enc_prefix b = enc (take limit b) @ drop limit b"

definition dec_prefix :: "bytes \<Rightarrow> bytes" where
  "dec_prefix b = dec (take limit b) @ drop limit b"

lemma length_enc_take: "length (enc (take limit b)) = min (length b) limit"
  by (simp add: length_enc)

lemma length_dec_take: "length (dec (take limit b)) = min (length b) limit"
  by (simp add: length_dec)

lemma enc_prefix_id: "enc (dec (take limit b)) @ drop limit b = b"
  by (simp add: enc_dec)

lemma dec_prefix_enc: "dec_prefix (enc_prefix b) = b"
proof (cases "length b \<le> limit")
  case True
  then show ?thesis
    by (simp add: dec_prefix_def enc_prefix_def length_enc dec_enc)
next
  case False
  then show ?thesis
    by (simp add: dec_prefix_def enc_prefix_def length_enc dec_enc)
qed

lemma enc_prefix_dec: "enc_prefix (dec_prefix b) = b"
proof (cases "length b \<le> limit")
  case True
  then show ?thesis
    by (simp add: dec_prefix_def enc_prefix_def length_dec enc_dec)
next
  case False
  then show ?thesis
    by (simp add: dec_prefix_def enc_prefix_def length_dec enc_dec)
qed

lemma length_enc_prefix: "length (enc_prefix b) = length b"
  by (simp add: enc_prefix_def length_enc)

end

sublocale prefix_codec \<subseteq> pre: byte_codec enc_prefix dec_prefix
  by unfold_locales (simp_all add: dec_prefix_enc enc_prefix_dec length_enc_prefix)

subsection \<open>Self-delimiting frames and their stream parser\<close>

text \<open>
  \<open>ParseRDTStream\<close>, \<open>ParseDTLSRecords\<close> and \<open>PTunDemux.Parse\<close> each walk a buffer of
  concatenated frames. The contract: a well-formed frame at the head of the buffer is
  returned and consumed exactly.
\<close>

locale frame_stream =
  fixes frame :: "'f \<Rightarrow> bytes"
    and valid :: "'f \<Rightarrow> bool"
    and parse :: "bytes \<Rightarrow> 'f list"
  assumes parse_frame: "valid f \<Longrightarrow> parse (frame f @ rest) = f # parse rest"
    and parse_nil: "parse [] = []"
begin

lemma parse_concat_rest:
  "list_all valid fs \<Longrightarrow> parse (concat (map frame fs) @ rest) = fs @ parse rest"
  by (induction fs) (simp_all add: parse_frame)

lemma parse_concat: "list_all valid fs \<Longrightarrow> parse (concat (map frame fs)) = fs"
  using parse_concat_rest [of fs "[]"] by (simp add: parse_nil)

lemma stream_inject:
  assumes "list_all valid fs" and "list_all valid gs"
    and "concat (map frame fs) = concat (map frame gs)"
  shows "fs = gs"
  using assms by (metis parse_concat)

lemma frame_nonempty: "valid f \<Longrightarrow> frame f \<noteq> []"
  using parse_frame [of f "[]"] by (auto simp: parse_nil)

end

end
