(* ===== verification/Transcode.thy ===== *)
theory Transcode
  imports Kalay_Prelude
begin

unbundle bit_operations_syntax

text \<open>
  The keyless IOTC obfuscation: \<open>kalay/transcode.go\<close> over the generated tables of
  \<open>kalay/perm_tables.go\<close>. A buffer is cut into 16-byte blocks, each permuted bitwise by a
  128-entry table, and a trailing partial block of \<open>r\<close> bytes is permuted by a table of its own.
  The main result is that the two directions are mutually inverse on buffers of every length,
  which needs each of the sixteen table pairs to be a pair of inverse permutations.

  Table entries are \<open>uint8\<close> indices and are kept as natural numbers. A map lookup with a missing
  key gives Go's nil slice, here the empty list; indexing it would panic, and the lemmas
  \<open>rem_tables_perm\<close> and \<open>block_tables_perm\<close> show that no access is out of range.
\<close>

section \<open>Tables (perm_tables.go)\<close>

definition fwdPermBits :: "nat list" where
  "fwdPermBits =
   [112, 77, 78, 79, 80, 81, 82, 83, 84, 93, 94, 95, 64, 65, 66, 67, 68, 85, 86, 87, 88, 89,
    90, 91, 92, 105, 106, 107, 108, 109, 110, 111, 100, 101, 102, 103, 104, 121, 122, 123, 124,
    125, 126, 127, 96, 69, 70, 71, 72, 73, 74, 75, 76, 113, 114, 115, 116, 117, 118, 119, 120,
    97, 98, 99, 40, 29, 30, 31, 0, 1, 2, 3, 4, 13, 14, 15, 16, 17, 18, 19, 20, 5, 6, 7, 8, 9,
    10, 11, 12, 33, 34, 35, 36, 37, 38, 39, 52, 53, 54, 55, 56, 21, 22, 23, 24, 25, 26, 27, 28,
    41, 42, 43, 44, 45, 46, 47, 48, 57, 58, 59, 60, 61, 62, 63, 32, 49, 50, 51]"

definition revPermBits :: "nat list" where
  "revPermBits =
   [68, 69, 70, 71, 72, 81, 82, 83, 84, 85, 86, 87, 88, 73, 74, 75, 76, 77, 78, 79, 80, 101,
    102, 103, 104, 105, 106, 107, 108, 65, 66, 67, 124, 89, 90, 91, 92, 93, 94, 95, 64, 109,
    110, 111, 112, 113, 114, 115, 116, 125, 126, 127, 96, 97, 98, 99, 100, 117, 118, 119, 120,
    121, 122, 123, 12, 13, 14, 15, 16, 45, 46, 47, 48, 49, 50, 51, 52, 1, 2, 3, 4, 5, 6, 7, 8,
    17, 18, 19, 20, 21, 22, 23, 24, 9, 10, 11, 44, 61, 62, 63, 32, 33, 34, 35, 36, 25, 26, 27,
    28, 29, 30, 31, 0, 53, 54, 55, 56, 57, 58, 59, 60, 37, 38, 39, 40, 41, 42, 43]"

definition fwdRemBits :: "nat \<Rightarrow> nat list" where
  "fwdRemBits r =
  (if r = 1 then
   [0, 1, 2, 3, 4, 5, 6, 7]
   else if r = 2 then
   [8, 9, 10, 11, 12, 13, 14, 15, 0, 1, 2, 3, 4, 5, 6, 7]
   else if r = 3 then
   [0, 1, 2, 3, 4, 5, 6, 7, 8, 9, 10, 11, 12, 13, 14, 15, 16, 17, 18, 19, 20, 21, 22, 23]
   else if r = 4 then
   [16, 17, 18, 19, 20, 21, 22, 23, 24, 25, 26, 27, 28, 29, 30, 31, 0, 1, 2, 3, 4, 5, 6, 7, 8,
    9, 10, 11, 12, 13, 14, 15]
   else if r = 5 then
   [0, 1, 2, 3, 4, 5, 6, 7, 8, 9, 10, 11, 12, 13, 14, 15, 16, 17, 18, 19, 20, 21, 22, 23, 24,
    25, 26, 27, 28, 29, 30, 31, 32, 33, 34, 35, 36, 37, 38, 39]
   else if r = 6 then
   [0, 1, 2, 3, 4, 5, 6, 7, 8, 9, 10, 11, 12, 13, 14, 15, 16, 17, 18, 19, 20, 21, 22, 23, 24,
    25, 26, 27, 28, 29, 30, 31, 32, 33, 34, 35, 36, 37, 38, 39, 40, 41, 42, 43, 44, 45, 46, 47]
   else if r = 7 then
   [0, 1, 2, 3, 4, 5, 6, 7, 8, 9, 10, 11, 12, 13, 14, 15, 16, 17, 18, 19, 20, 21, 22, 23, 24,
    25, 26, 27, 28, 29, 30, 31, 32, 33, 34, 35, 36, 37, 38, 39, 40, 41, 42, 43, 44, 45, 46, 47,
    48, 49, 50, 51, 52, 53, 54, 55]
   else if r = 8 then
   [56, 57, 58, 59, 60, 61, 62, 63, 32, 33, 34, 35, 36, 37, 38, 39, 24, 25, 26, 27, 28, 29, 30,
    31, 16, 17, 18, 19, 20, 21, 22, 23, 8, 9, 10, 11, 12, 13, 14, 15, 48, 49, 50, 51, 52, 53,
    54, 55, 40, 41, 42, 43, 44, 45, 46, 47, 0, 1, 2, 3, 4, 5, 6, 7]
   else if r = 9 then
   [0, 1, 2, 3, 4, 5, 6, 7, 8, 9, 10, 11, 12, 13, 14, 15, 16, 17, 18, 19, 20, 21, 22, 23, 24,
    25, 26, 27, 28, 29, 30, 31, 32, 33, 34, 35, 36, 37, 38, 39, 40, 41, 42, 43, 44, 45, 46, 47,
    48, 49, 50, 51, 52, 53, 54, 55, 56, 57, 58, 59, 60, 61, 62, 63, 64, 65, 66, 67, 68, 69, 70,
    71]
   else if r = 10 then
   [0, 1, 2, 3, 4, 5, 6, 7, 8, 9, 10, 11, 12, 13, 14, 15, 16, 17, 18, 19, 20, 21, 22, 23, 24,
    25, 26, 27, 28, 29, 30, 31, 32, 33, 34, 35, 36, 37, 38, 39, 40, 41, 42, 43, 44, 45, 46, 47,
    48, 49, 50, 51, 52, 53, 54, 55, 56, 57, 58, 59, 60, 61, 62, 63, 64, 65, 66, 67, 68, 69, 70,
    71, 72, 73, 74, 75, 76, 77, 78, 79]
   else if r = 11 then
   [0, 1, 2, 3, 4, 5, 6, 7, 8, 9, 10, 11, 12, 13, 14, 15, 16, 17, 18, 19, 20, 21, 22, 23, 24,
    25, 26, 27, 28, 29, 30, 31, 32, 33, 34, 35, 36, 37, 38, 39, 40, 41, 42, 43, 44, 45, 46, 47,
    48, 49, 50, 51, 52, 53, 54, 55, 56, 57, 58, 59, 60, 61, 62, 63, 64, 65, 66, 67, 68, 69, 70,
    71, 72, 73, 74, 75, 76, 77, 78, 79, 80, 81, 82, 83, 84, 85, 86, 87]
   else if r = 12 then
   [0, 1, 2, 3, 4, 5, 6, 7, 8, 9, 10, 11, 12, 13, 14, 15, 16, 17, 18, 19, 20, 21, 22, 23, 24,
    25, 26, 27, 28, 29, 30, 31, 32, 33, 34, 35, 36, 37, 38, 39, 40, 41, 42, 43, 44, 45, 46, 47,
    48, 49, 50, 51, 52, 53, 54, 55, 56, 57, 58, 59, 60, 61, 62, 63, 64, 65, 66, 67, 68, 69, 70,
    71, 72, 73, 74, 75, 76, 77, 78, 79, 80, 81, 82, 83, 84, 85, 86, 87, 88, 89, 90, 91, 92, 93,
    94, 95]
   else if r = 13 then
   [0, 1, 2, 3, 4, 5, 6, 7, 8, 9, 10, 11, 12, 13, 14, 15, 16, 17, 18, 19, 20, 21, 22, 23, 24,
    25, 26, 27, 28, 29, 30, 31, 32, 33, 34, 35, 36, 37, 38, 39, 40, 41, 42, 43, 44, 45, 46, 47,
    48, 49, 50, 51, 52, 53, 54, 55, 56, 57, 58, 59, 60, 61, 62, 63, 64, 65, 66, 67, 68, 69, 70,
    71, 72, 73, 74, 75, 76, 77, 78, 79, 80, 81, 82, 83, 84, 85, 86, 87, 88, 89, 90, 91, 92, 93,
    94, 95, 96, 97, 98, 99, 100, 101, 102, 103]
   else if r = 14 then
   [0, 1, 2, 3, 4, 5, 6, 7, 8, 9, 10, 11, 12, 13, 14, 15, 16, 17, 18, 19, 20, 21, 22, 23, 24,
    25, 26, 27, 28, 29, 30, 31, 32, 33, 34, 35, 36, 37, 38, 39, 40, 41, 42, 43, 44, 45, 46, 47,
    48, 49, 50, 51, 52, 53, 54, 55, 56, 57, 58, 59, 60, 61, 62, 63, 64, 65, 66, 67, 68, 69, 70,
    71, 72, 73, 74, 75, 76, 77, 78, 79, 80, 81, 82, 83, 84, 85, 86, 87, 88, 89, 90, 91, 92, 93,
    94, 95, 96, 97, 98, 99, 100, 101, 102, 103, 104, 105, 106, 107, 108, 109, 110, 111]
   else if r = 15 then
   [0, 1, 2, 3, 4, 5, 6, 7, 8, 9, 10, 11, 12, 13, 14, 15, 16, 17, 18, 19, 20, 21, 22, 23, 24,
    25, 26, 27, 28, 29, 30, 31, 32, 33, 34, 35, 36, 37, 38, 39, 40, 41, 42, 43, 44, 45, 46, 47,
    48, 49, 50, 51, 52, 53, 54, 55, 56, 57, 58, 59, 60, 61, 62, 63, 64, 65, 66, 67, 68, 69, 70,
    71, 72, 73, 74, 75, 76, 77, 78, 79, 80, 81, 82, 83, 84, 85, 86, 87, 88, 89, 90, 91, 92, 93,
    94, 95, 96, 97, 98, 99, 100, 101, 102, 103, 104, 105, 106, 107, 108, 109, 110, 111, 112,
    113, 114, 115, 116, 117, 118, 119]
   else [])"

definition revRemBits :: "nat \<Rightarrow> nat list" where
  "revRemBits r =
  (if r = 1 then
   [0, 1, 2, 3, 4, 5, 6, 7]
   else if r = 2 then
   [8, 9, 10, 11, 12, 13, 14, 15, 0, 1, 2, 3, 4, 5, 6, 7]
   else if r = 3 then
   [0, 1, 2, 3, 4, 5, 6, 7, 8, 9, 10, 11, 12, 13, 14, 15, 16, 17, 18, 19, 20, 21, 22, 23]
   else if r = 4 then
   [16, 17, 18, 19, 20, 21, 22, 23, 24, 25, 26, 27, 28, 29, 30, 31, 0, 1, 2, 3, 4, 5, 6, 7, 8,
    9, 10, 11, 12, 13, 14, 15]
   else if r = 5 then
   [0, 1, 2, 3, 4, 5, 6, 7, 8, 9, 10, 11, 12, 13, 14, 15, 16, 17, 18, 19, 20, 21, 22, 23, 24,
    25, 26, 27, 28, 29, 30, 31, 32, 33, 34, 35, 36, 37, 38, 39]
   else if r = 6 then
   [0, 1, 2, 3, 4, 5, 6, 7, 8, 9, 10, 11, 12, 13, 14, 15, 16, 17, 18, 19, 20, 21, 22, 23, 24,
    25, 26, 27, 28, 29, 30, 31, 32, 33, 34, 35, 36, 37, 38, 39, 40, 41, 42, 43, 44, 45, 46, 47]
   else if r = 7 then
   [0, 1, 2, 3, 4, 5, 6, 7, 8, 9, 10, 11, 12, 13, 14, 15, 16, 17, 18, 19, 20, 21, 22, 23, 24,
    25, 26, 27, 28, 29, 30, 31, 32, 33, 34, 35, 36, 37, 38, 39, 40, 41, 42, 43, 44, 45, 46, 47,
    48, 49, 50, 51, 52, 53, 54, 55]
   else if r = 8 then
   [56, 57, 58, 59, 60, 61, 62, 63, 32, 33, 34, 35, 36, 37, 38, 39, 24, 25, 26, 27, 28, 29, 30,
    31, 16, 17, 18, 19, 20, 21, 22, 23, 8, 9, 10, 11, 12, 13, 14, 15, 48, 49, 50, 51, 52, 53,
    54, 55, 40, 41, 42, 43, 44, 45, 46, 47, 0, 1, 2, 3, 4, 5, 6, 7]
   else if r = 9 then
   [0, 1, 2, 3, 4, 5, 6, 7, 8, 9, 10, 11, 12, 13, 14, 15, 16, 17, 18, 19, 20, 21, 22, 23, 24,
    25, 26, 27, 28, 29, 30, 31, 32, 33, 34, 35, 36, 37, 38, 39, 40, 41, 42, 43, 44, 45, 46, 47,
    48, 49, 50, 51, 52, 53, 54, 55, 56, 57, 58, 59, 60, 61, 62, 63, 64, 65, 66, 67, 68, 69, 70,
    71]
   else if r = 10 then
   [0, 1, 2, 3, 4, 5, 6, 7, 8, 9, 10, 11, 12, 13, 14, 15, 16, 17, 18, 19, 20, 21, 22, 23, 24,
    25, 26, 27, 28, 29, 30, 31, 32, 33, 34, 35, 36, 37, 38, 39, 40, 41, 42, 43, 44, 45, 46, 47,
    48, 49, 50, 51, 52, 53, 54, 55, 56, 57, 58, 59, 60, 61, 62, 63, 64, 65, 66, 67, 68, 69, 70,
    71, 72, 73, 74, 75, 76, 77, 78, 79]
   else if r = 11 then
   [0, 1, 2, 3, 4, 5, 6, 7, 8, 9, 10, 11, 12, 13, 14, 15, 16, 17, 18, 19, 20, 21, 22, 23, 24,
    25, 26, 27, 28, 29, 30, 31, 32, 33, 34, 35, 36, 37, 38, 39, 40, 41, 42, 43, 44, 45, 46, 47,
    48, 49, 50, 51, 52, 53, 54, 55, 56, 57, 58, 59, 60, 61, 62, 63, 64, 65, 66, 67, 68, 69, 70,
    71, 72, 73, 74, 75, 76, 77, 78, 79, 80, 81, 82, 83, 84, 85, 86, 87]
   else if r = 12 then
   [0, 1, 2, 3, 4, 5, 6, 7, 8, 9, 10, 11, 12, 13, 14, 15, 16, 17, 18, 19, 20, 21, 22, 23, 24,
    25, 26, 27, 28, 29, 30, 31, 32, 33, 34, 35, 36, 37, 38, 39, 40, 41, 42, 43, 44, 45, 46, 47,
    48, 49, 50, 51, 52, 53, 54, 55, 56, 57, 58, 59, 60, 61, 62, 63, 64, 65, 66, 67, 68, 69, 70,
    71, 72, 73, 74, 75, 76, 77, 78, 79, 80, 81, 82, 83, 84, 85, 86, 87, 88, 89, 90, 91, 92, 93,
    94, 95]
   else if r = 13 then
   [0, 1, 2, 3, 4, 5, 6, 7, 8, 9, 10, 11, 12, 13, 14, 15, 16, 17, 18, 19, 20, 21, 22, 23, 24,
    25, 26, 27, 28, 29, 30, 31, 32, 33, 34, 35, 36, 37, 38, 39, 40, 41, 42, 43, 44, 45, 46, 47,
    48, 49, 50, 51, 52, 53, 54, 55, 56, 57, 58, 59, 60, 61, 62, 63, 64, 65, 66, 67, 68, 69, 70,
    71, 72, 73, 74, 75, 76, 77, 78, 79, 80, 81, 82, 83, 84, 85, 86, 87, 88, 89, 90, 91, 92, 93,
    94, 95, 96, 97, 98, 99, 100, 101, 102, 103]
   else if r = 14 then
   [0, 1, 2, 3, 4, 5, 6, 7, 8, 9, 10, 11, 12, 13, 14, 15, 16, 17, 18, 19, 20, 21, 22, 23, 24,
    25, 26, 27, 28, 29, 30, 31, 32, 33, 34, 35, 36, 37, 38, 39, 40, 41, 42, 43, 44, 45, 46, 47,
    48, 49, 50, 51, 52, 53, 54, 55, 56, 57, 58, 59, 60, 61, 62, 63, 64, 65, 66, 67, 68, 69, 70,
    71, 72, 73, 74, 75, 76, 77, 78, 79, 80, 81, 82, 83, 84, 85, 86, 87, 88, 89, 90, 91, 92, 93,
    94, 95, 96, 97, 98, 99, 100, 101, 102, 103, 104, 105, 106, 107, 108, 109, 110, 111]
   else if r = 15 then
   [0, 1, 2, 3, 4, 5, 6, 7, 8, 9, 10, 11, 12, 13, 14, 15, 16, 17, 18, 19, 20, 21, 22, 23, 24,
    25, 26, 27, 28, 29, 30, 31, 32, 33, 34, 35, 36, 37, 38, 39, 40, 41, 42, 43, 44, 45, 46, 47,
    48, 49, 50, 51, 52, 53, 54, 55, 56, 57, 58, 59, 60, 61, 62, 63, 64, 65, 66, 67, 68, 69, 70,
    71, 72, 73, 74, 75, 76, 77, 78, 79, 80, 81, 82, 83, 84, 85, 86, 87, 88, 89, 90, 91, 92, 93,
    94, 95, 96, 97, 98, 99, 100, 101, 102, 103, 104, 105, 106, 107, 108, 109, 110, 111, 112,
    113, 114, 115, 116, 117, 118, 119]
   else [])"

section \<open>Operations (transcode.go)\<close>

text \<open>
  \<open>applyBits\<close>: the destination starts as zeros and the loop sets one destination bit for each
  source bit that is 1. \<open>i >> 3\<close> and \<open>i & 7\<close> are \<open>i div 8\<close> and \<open>i mod 8\<close>.
\<close>

definition applyBits :: "bytes \<Rightarrow> nat list \<Rightarrow> bytes" where
  "applyBits src perm =
     fold (\<lambda>i dst.
         if drop_bit (i mod 8) (src ! (i div 8)) AND 1 = 1
         then (let j = perm ! i
               in dst[j div 8 := dst ! (j div 8) OR push_bit (j mod 8) 1])
         else dst)
       [0..<length src * 8] (replicate (length src) 0)"

text \<open>
  \<open>transcode\<close>: the loop over \<open>k = 0, 16, \<dots>\<close> permutes \<open>data[k:k+16]\<close> into \<open>out[k:k+16]\<close>; the
  recursion takes the blocks off the front of the buffer. What is left is shorter than a block.
\<close>

function transcode :: "bytes \<Rightarrow> nat list \<Rightarrow> (nat \<Rightarrow> nat list) \<Rightarrow> bytes" where
  "transcode data blockPerm remPerm =
     (if 16 \<le> length data
      then applyBits (take 16 data) blockPerm @ transcode (drop 16 data) blockPerm remPerm
      else if 0 < length data then applyBits data (remPerm (length data)) else [])"
  by pat_completeness auto
termination
  by (relation "measure (\<lambda>(data, _, _). length data)") auto

declare transcode.simps [simp del]

definition TransCode :: "bytes \<Rightarrow> bytes" where
  "TransCode data = transcode data fwdPermBits fwdRemBits"

definition ReverseTransCode :: "bytes \<Rightarrow> bytes" where
  "ReverseTransCode data = transcode data revPermBits revRemBits"

section \<open>Bits of a byte string\<close>

definition getbit :: "bytes \<Rightarrow> nat \<Rightarrow> bool" where
  "getbit bs k = bit (bs ! (k div 8)) (k mod 8)"

lemma bytes_eq_getbitI:
  assumes len: "length a = length b"
    and bits: "\<And>k. k < length a * 8 \<Longrightarrow> getbit a k = getbit b k"
  shows "a = b"
proof (rule nth_equalityI [OF len])
  fix i assume i: "i < length a"
  show "a ! i = b ! i"
  proof (rule bit_word_eqI)
    fix n assume n: "n < LENGTH(8)"
    then have "8 * i + n < length a * 8" "(8 * i + n) div 8 = i" "(8 * i + n) mod 8 = n"
      using i by auto
    with bits [of "8 * i + n"] show "bit (a ! i) n = bit (b ! i) n"
      by (simp add: getbit_def)
  qed
qed

lemma and_one_eq_bit: "(drop_bit n (w :: byte) AND 1 = 1) = bit w n"
  by (simp add: and_one_eq odd_iff_mod_2_eq_one [symmetric] bit_iff_odd_drop_bit)

lemma getbit_set:
  assumes "j < length dst * 8" "k < length dst * 8"
  shows "getbit (dst[j div 8 := dst ! (j div 8) OR push_bit (j mod 8) 1]) k
     \<longleftrightarrow> k = j \<or> getbit dst k"
proof (cases "k div 8 = j div 8")
  case True
  have kj: "k mod 8 = j mod 8 \<longleftrightarrow> k = j" using True by (metis div_mult_mod_eq)
  have l: "j div 8 < length dst" using assms by auto
  have "bit (push_bit (j mod 8) 1 :: byte) (k mod 8) \<longleftrightarrow> k mod 8 = j mod 8"
    by (auto simp: bit_simps)
  with True l kj show ?thesis by (auto simp: getbit_def bit_simps)
next
  case False
  then show ?thesis by (auto simp: getbit_def)
qed

lemma length_fold_keep:
  "(\<And>i d. length (f i d) = length d) \<Longrightarrow> length (fold f xs dst) = length dst"
  by (induction xs arbitrary: dst) auto

lemma length_applyBits [simp]: "length (applyBits src perm) = length src"
  by (simp add: applyBits_def Let_def length_fold_keep)

lemma getbit_applyBits_fold:
  assumes "\<And>i. i \<in> set xs \<Longrightarrow> perm ! i < length dst * 8" and "k < length dst * 8"
  shows "getbit (fold (\<lambda>i dst. if getbit src i
            then dst[perm ! i div 8 := dst ! (perm ! i div 8) OR push_bit (perm ! i mod 8) 1]
            else dst) xs dst) k
       \<longleftrightarrow> getbit dst k \<or> (\<exists>i \<in> set xs. getbit src i \<and> perm ! i = k)"
  using assms
proof (induction xs arbitrary: dst)
  case Nil
  then show ?case by simp
next
  case (Cons x xs)
  let ?d = "if getbit src x
            then dst[perm ! x div 8 := dst ! (perm ! x div 8) OR push_bit (perm ! x mod 8) 1]
            else dst"
  have "length ?d = length dst" by simp
  moreover have "getbit ?d k \<longleftrightarrow> getbit dst k \<or> getbit src x \<and> perm ! x = k"
    using Cons.prems getbit_set [of "perm ! x" dst k] by auto
  ultimately show ?case
    using Cons.IH [of ?d] Cons.prems by auto
qed

lemma getbit_applyBits:
  assumes "\<And>i. i < length src * 8 \<Longrightarrow> perm ! i < length src * 8" and "k < length src * 8"
  shows "getbit (applyBits src perm) k
     \<longleftrightarrow> (\<exists>i < length src * 8. getbit src i \<and> perm ! i = k)"
proof -
  have z: "\<not> getbit (replicate (length src) 0) k"
    using assms(2) by (simp add: getbit_def)
  have "getbit (applyBits src perm) k
     \<longleftrightarrow> getbit (replicate (length src) 0) k
        \<or> (\<exists>i \<in> set [0..<length src * 8]. getbit src i \<and> perm ! i = k)"
    unfolding applyBits_def and_one_eq_bit getbit_def [symmetric] Let_def
    by (rule getbit_applyBits_fold) (use assms in auto)
  with z show ?thesis by auto
qed

section \<open>The table pairs are inverse permutations\<close>

definition perm_pair :: "nat \<Rightarrow> nat list \<Rightarrow> nat list \<Rightarrow> bool" where
  "perm_pair n p q \<longleftrightarrow> length p = n \<and> length q = n \<and>
     list_all (\<lambda>i. p ! i < n \<and> q ! (p ! i) = i) [0..<n] \<and>
     list_all (\<lambda>i. q ! i < n \<and> p ! (q ! i) = i) [0..<n]"

lemma perm_pairD:
  assumes "perm_pair n p q" and "i < n"
  shows "p ! i < n" "q ! (p ! i) = i" "q ! i < n" "p ! (q ! i) = i"
  using assms by (auto simp: perm_pair_def list_all_iff)

lemma applyBits_inverse:
  assumes "perm_pair (length src * 8) p q"
  shows "applyBits (applyBits src p) q = src"
proof (rule bytes_eq_getbitI)
  let ?n = "length src * 8"
  note P = perm_pairD [OF assms]
  fix k assume "k < length (applyBits (applyBits src p) q) * 8"
  then have k: "k < ?n" by simp
  have "getbit (applyBits (applyBits src p) q) k
      \<longleftrightarrow> (\<exists>i < ?n. getbit (applyBits src p) i \<and> q ! i = k)"
    using getbit_applyBits [of "applyBits src p" q k] P(3) k by simp
  also have "\<dots> \<longleftrightarrow> getbit (applyBits src p) (p ! k)"
    using P k by metis
  also have "\<dots> \<longleftrightarrow> (\<exists>i < ?n. getbit src i \<and> p ! i = p ! k)"
    using getbit_applyBits [of src p "p ! k"] P(1) k by simp
  also have "\<dots> \<longleftrightarrow> getbit src k"
    using P k by metis
  finally show "getbit (applyBits (applyBits src p) q) k = getbit src k" .
qed simp

lemma perm_pair_sym: "perm_pair n p q \<Longrightarrow> perm_pair n q p"
  by (auto simp: perm_pair_def)

lemma block_tables_perm: "perm_pair 128 fwdPermBits revPermBits"
  by code_simp

lemma perm_pair_upt: "perm_pair n [0..<n] [0..<n]"
  by (simp add: perm_pair_def list_all_iff)

lemma rem_tables_identity:
  assumes "r \<in> {1, 3, 5, 6, 7, 9, 10, 11, 12, 13, 14, 15}"
  shows "fwdRemBits r = [0..<r * 8] \<and> revRemBits r = [0..<r * 8]"
proof -
  have "list_all (\<lambda>r. fwdRemBits r = [0..<r * 8] \<and> revRemBits r = [0..<r * 8])
          [1, 3, 5, 6, 7, 9, 10, 11, 12, 13, 14, 15]"
    by code_simp
  with assms show ?thesis unfolding list_all_iff by auto
qed

lemma rem_tables_swap:
  assumes "r \<in> {2, 4, 8}"
  shows "perm_pair (r * 8) (fwdRemBits r) (revRemBits r)"
proof -
  have "perm_pair 16 (fwdRemBits 2) (revRemBits 2)"
    by code_simp
  moreover have "perm_pair 32 (fwdRemBits 4) (revRemBits 4)"
    by code_simp
  moreover have "perm_pair 64 (fwdRemBits 8) (revRemBits 8)"
    by code_simp
  ultimately show ?thesis using assms by auto
qed

lemma rem_tables_perm:
  assumes "0 < r" "r < 16"
  shows "perm_pair (r * 8) (fwdRemBits r) (revRemBits r)"
proof -
  have "r \<in> {1, 3, 5, 6, 7, 9, 10, 11, 12, 13, 14, 15} \<or> r \<in> {2, 4, 8}"
    using assms by auto presburger
  then show ?thesis
    using rem_tables_identity [of r] rem_tables_swap [of r] perm_pair_upt [of "r * 8"] by auto
qed

section \<open>Correctness\<close>

lemma length_transcode [simp]: "length (transcode data bp rp) = length data"
proof (induction data bp rp rule: transcode.induct)
  case (1 data bp rp)
  then show ?case by (subst transcode.simps) auto
qed

lemma transcode_append_block:
  "length b = 16 \<Longrightarrow> transcode (b @ rest) bp rp = applyBits b bp @ transcode rest bp rp"
  by (subst transcode.simps) simp

lemma transcode_inverse:
  assumes "perm_pair 128 p q"
    and "\<And>r. 0 < r \<Longrightarrow> r < 16 \<Longrightarrow> perm_pair (r * 8) (pr r) (qr r)"
  shows "transcode (transcode data p pr) q qr = data"
proof (induction data rule: length_induct)
  case (1 data)
  consider (block) "16 \<le> length data" | (rem) "0 < length data" "length data < 16" | (nil) "data = []"
    by (cases "data = []") (auto simp: not_le [symmetric])
  then show ?case
  proof cases
    case block
    then have "transcode (transcode (drop 16 data) p pr) q qr = drop 16 data"
      using 1 by simp
    moreover have "applyBits (applyBits (take 16 data) p) q = take 16 data"
      using block assms(1) by (intro applyBits_inverse) simp
    ultimately show ?thesis
      using block by (simp add: transcode.simps [of data p pr] transcode_append_block)
  next
    case rem
    then have "applyBits (applyBits data (pr (length data))) (qr (length data)) = data"
      by (intro applyBits_inverse assms(2)) auto
    with rem show ?thesis
      by (simp add: transcode.simps [of data p pr] transcode.simps [of "applyBits _ _"])
  next
    case nil
    then show ?thesis by (simp add: transcode.simps)
  qed
qed

interpretation tc: byte_codec TransCode ReverseTransCode
proof unfold_locales
  show "ReverseTransCode (TransCode b) = b" for b
    unfolding ReverseTransCode_def TransCode_def
    by (rule transcode_inverse [OF block_tables_perm]) (rule rem_tables_perm)
  show "TransCode (ReverseTransCode b) = b" for b
    unfolding ReverseTransCode_def TransCode_def
    by (rule transcode_inverse [OF block_tables_perm [THEN perm_pair_sym]])
      (rule rem_tables_perm [THEN perm_pair_sym])
  show "length (TransCode b) = length b" for b
    by (simp add: TransCode_def)
qed

end
