(* ===== verification/Control.thy ===== *)
theory Control
  imports Transcode
begin

unbundle bit_operations_syntax

text \<open>
  The payload obfuscation of \<open>kalay/control.go\<close>: a repeating 16-byte XOR mask under the TransCode
  bit permutation. Control packets obfuscate the whole payload; data packets only their first
  \<open>dataTransLimit\<close> bytes.
\<close>

definition IOTCHeaderLen :: nat where
  "IOTCHeaderLen = 16"

definition controlMask :: bytes where
  "controlMask =
     [0x86, 0xd0, 0xc2, 0xe4, 0x84, 0x2d, 0xad, 0x0c,
      0xe8, 0xd2, 0xe6, 0x40, 0x84, 0x0c, 0xad, 0x0c]"

definition xorMask :: "bytes \<Rightarrow> bytes" where
  "xorMask b = map (\<lambda>i. b ! i XOR controlMask ! (i mod 16)) [0..<length b]"

definition DecodePayload :: "bytes \<Rightarrow> bytes" where
  "DecodePayload wire = xorMask (ReverseTransCode wire)"

definition EncodePayload :: "bytes \<Rightarrow> bytes" where
  "EncodePayload clear = TransCode (xorMask clear)"

definition dataTransLimit :: nat where
  "dataTransLimit = 64"

definition DecodePayloadData :: "bytes \<Rightarrow> bytes" where
  "DecodePayloadData wire =
     (if length wire \<le> dataTransLimit then DecodePayload wire
      else xorMask (ReverseTransCode (take dataTransLimit wire)) @ drop dataTransLimit wire)"

definition EncodePayloadData :: "bytes \<Rightarrow> bytes" where
  "EncodePayloadData clear =
     (if length clear \<le> dataTransLimit then EncodePayload clear
      else TransCode (xorMask (take dataTransLimit clear)) @ drop dataTransLimit clear)"

section \<open>The codecs are reversible\<close>

lemma length_xorMask [simp]: "length (xorMask b) = length b"
  by (simp add: xorMask_def)

lemma xorMask_nth: "i < length b \<Longrightarrow> xorMask b ! i = b ! i XOR controlMask ! (i mod 16)"
  by (simp add: xorMask_def)

lemma xorMask_involutive [simp]: "xorMask (xorMask b) = b"
  by (rule nth_equalityI) (simp_all add: xorMask_nth xor.assoc)

interpretation xm: byte_codec xorMask xorMask
  by unfold_locales simp_all

interpretation cp: byte_codec EncodePayload DecodePayload
  by unfold_locales
    (simp_all add: EncodePayload_def DecodePayload_def tc.dec_enc tc.enc_dec tc.length_enc)

interpretation cpl: prefix_codec EncodePayload DecodePayload dataTransLimit ..

lemma EncodePayloadData_prefix: "EncodePayloadData = cpl.enc_prefix"
  by (rule ext) (simp add: EncodePayloadData_def cpl.enc_prefix_def EncodePayload_def)

lemma DecodePayloadData_prefix: "DecodePayloadData = cpl.dec_prefix"
  by (rule ext) (simp add: DecodePayloadData_def cpl.dec_prefix_def DecodePayload_def)

interpretation dp: byte_codec EncodePayloadData DecodePayloadData
  unfolding EncodePayloadData_prefix DecodePayloadData_prefix by (rule cpl.pre.byte_codec_axioms)

lemmas payload_length [wire_len] =
  cp.length_enc cp.length_dec dp.length_enc dp.length_dec

text \<open>Beyond the limit a data packet travels verbatim, in both directions.\<close>

lemma EncodePayloadData_tail:
  "drop dataTransLimit (EncodePayloadData b) = drop dataTransLimit b"
  by (cases "length b \<le> dataTransLimit")
    (simp_all add: EncodePayloadData_def cp.length_enc tc.length_enc)

lemma EncodePayloadData_head:
  "take dataTransLimit (EncodePayloadData b) = EncodePayload (take dataTransLimit b)"
  by (cases "length b \<le> dataTransLimit")
    (simp_all add: EncodePayloadData_def EncodePayload_def tc.length_enc)

section \<open>Properties\<close>

text \<open>
  C18. The IOTC obfuscation loses nothing: decoding undoes encoding and encoding undoes decoding, for
  control packets (the whole payload) and for data packets (the first 64 bytes), for payloads of
  every length; the length never changes, and a data packet is verbatim beyond byte 64.
\<close>

theorem obfuscation_reversible:
  "DecodePayload (EncodePayload b) = b \<and> EncodePayload (DecodePayload b) = b \<and>
   DecodePayloadData (EncodePayloadData b) = b \<and> EncodePayloadData (DecodePayloadData b) = b \<and>
   length (EncodePayload b) = length b \<and> length (EncodePayloadData b) = length b \<and>
   drop 64 (EncodePayloadData b) = drop 64 b"
  using EncodePayloadData_tail [of b]
  by (simp add: cp.dec_enc cp.enc_dec dp.dec_enc dp.enc_dec wire_len dataTransLimit_def)

end
