(* ===== verification/Packets.thy ===== *)
theory Packets
  imports Control
begin

text \<open>
  The IOTC session control packets of \<open>kalay/packets.go\<close>: the 16-byte session header, the direct
  (4e6d) session packet and the rendezvous knock. A fixed-size Go array is a byte list of that
  length; \<open>wf_addrRecord\<close> and the \<open>wf_\<close> predicates below state the lengths the Go types guarantee.
\<close>

definition sessionHeaderLen :: nat where "sessionHeaderLen = 16"
definition uidLen :: nat where "uidLen = 20"
definition tokenLen :: nat where "tokenLen = 8"
definition addrRecordLen :: nat where "addrRecordLen = 16"
definition knockAddrSlots :: nat where "knockAddrSlots = 4"

lemmas packet_lens [simp] =
  sessionHeaderLen_def uidLen_def tokenLen_def addrRecordLen_def knockAddrSlots_def

definition sessionMagic :: bytes where
  "sessionMagic = [0x04, 0x02, 0x1d, 0x02]"

record sessionHeader =
  sh_BodyLen :: u32
  sh_State :: byte
  sh_Kind :: byte
  sh_unknown :: u16

definition sessionHeader_appendTo :: "sessionHeader \<Rightarrow> bytes \<Rightarrow> bytes" where
  "sessionHeader_appendTo h b =
     b @ sessionMagic @ le_bytes 4 (sh_BodyLen h) @ [sh_State h, sh_Kind h]
       @ le_bytes 2 (sh_unknown h) @ [0, 0, 0, 0]"

record addrRecord =
  ar_prefix :: bytes
  ar_ip :: bytes

definition zero_addrRecord :: addrRecord where
  "zero_addrRecord = \<lparr>ar_prefix = replicate 4 0, ar_ip = replicate 4 0\<rparr>"

definition wf_addrRecord :: "addrRecord \<Rightarrow> bool" where
  "wf_addrRecord a \<longleftrightarrow> length (ar_prefix a) = 4 \<and> length (ar_ip a) = 4"

definition addrRecord_appendTo :: "addrRecord \<Rightarrow> bytes \<Rightarrow> bytes" where
  "addrRecord_appendTo a b =
     (if a = zero_addrRecord then b @ replicate addrRecordLen 0
      else b @ ar_prefix a @ ar_ip a @ replicate (addrRecordLen - 8) 0)"

text \<open>\<open>appendUID\<close>: a 20-byte slot, zero-padding a short UID and cutting a long one.\<close>

definition appendUID :: "bytes \<Rightarrow> bytes \<Rightarrow> bytes" where
  "appendUID b uid = b @ slot uidLen uid"

record directPacket =
  dp_State :: byte
  dp_UID :: bytes
  dp_Token :: bytes

definition unknownDirectTrailer :: bytes where
  "unknownDirectTrailer = [0xc6, 0xbe, 0xa0, 0x92]"

definition directPacket_bytes :: "directPacket \<Rightarrow> bytes" where
  "directPacket_bytes p =
     (let body = sessionHeaderLen + uidLen + tokenLen + 4 + 4;
          out = sessionHeader_appendTo
                  \<lparr>sh_BodyLen = word_of_nat (body - sessionHeaderLen), sh_State = dp_State p,
                   sh_Kind = 0x04, sh_unknown = 0x0033\<rparr> [];
          out = appendUID out (dp_UID p);
          out = out @ dp_Token p;
          out = out @ [0, 0, 0, 0]
      in out @ unknownDirectTrailer)"

record knockPacket =
  kp_UID :: bytes
  kp_Addrs :: "addrRecord list"
  kp_Token :: bytes

definition unknownKnockTrailer :: bytes where
  "unknownKnockTrailer = [0x02, 0x00, 0x00, 0x00]"

definition knockPacket_bytes :: "knockPacket \<Rightarrow> bytes" where
  "knockPacket_bytes p =
     (let body = sessionHeaderLen + uidLen + knockAddrSlots * addrRecordLen + tokenLen + 4;
          out = sessionHeader_appendTo
                  \<lparr>sh_BodyLen = word_of_nat (body - sessionHeaderLen), sh_State = 0x03,
                   sh_Kind = 0x02, sh_unknown = 0x0034\<rparr> [];
          out = appendUID out (kp_UID p);
          out = fold addrRecord_appendTo (kp_Addrs p) out;
          out = out @ kp_Token p
      in out @ unknownKnockTrailer)"

definition knockAddrPrefix :: bytes where
  "knockAddrPrefix = [0x00, 0x00, 0xed, 0xe0]"

section \<open>Layout\<close>

lemma length_sessionHeader [wire_len]:
  "length (sessionHeader_appendTo h b) = length b + 16"
  by (simp add: sessionHeader_appendTo_def sessionMagic_def)

lemma length_addrRecord [wire_len]:
  "wf_addrRecord a \<Longrightarrow> length (addrRecord_appendTo a b) = length b + 16"
  by (auto simp: addrRecord_appendTo_def wf_addrRecord_def zero_addrRecord_def)

lemma length_appendUID [wire_len]: "length (appendUID b uid) = length b + 20"
  by (simp add: appendUID_def)

lemma length_fold_addrRecords [wire_len]:
  "list_all wf_addrRecord as \<Longrightarrow>
     length (fold addrRecord_appendTo as b) = length b + 16 * length as"
  by (induction as arbitrary: b) (simp_all add: length_addrRecord)

definition wf_directPacket :: "directPacket \<Rightarrow> bool" where
  "wf_directPacket p \<longleftrightarrow> length (dp_Token p) = 8"

definition wf_knockPacket :: "knockPacket \<Rightarrow> bool" where
  "wf_knockPacket p \<longleftrightarrow>
     length (kp_Addrs p) = 4 \<and> list_all wf_addrRecord (kp_Addrs p) \<and> length (kp_Token p) = 8"

lemma length_directPacket [wire_len]:
  "wf_directPacket p \<Longrightarrow> length (directPacket_bytes p) = 52"
  by (simp add: directPacket_bytes_def Let_def wf_directPacket_def wire_len
      unknownDirectTrailer_def)

lemma length_knockPacket [wire_len]:
  "wf_knockPacket p \<Longrightarrow> length (knockPacket_bytes p) = 112"
  by (simp add: knockPacket_bytes_def Let_def wf_knockPacket_def wire_len
      unknownKnockTrailer_def)

text \<open>
  The header's length field counts the bytes after the header, in both packets: bytes 4 to 7
  read back as the packet length less 16.
\<close>

definition body_len_field :: "bytes \<Rightarrow> nat" where
  "body_len_field pkt = unat (le_word (take 4 (drop 4 pkt)) :: u32)"

lemma body_len_header:
  "body_len_field (sessionHeader_appendTo h [] @ rest) = unat (sh_BodyLen h)"
  by (simp add: body_len_field_def sessionHeader_appendTo_def sessionMagic_def)

lemma fold_addrRecord_append:
  "fold addrRecord_appendTo as (a @ b) = a @ fold addrRecord_appendTo as b"
  by (induction as arbitrary: b) (simp_all add: addrRecord_appendTo_def)

lemma fold_addrRecord_Nil:
  "fold addrRecord_appendTo as a = a @ fold addrRecord_appendTo as []"
  using fold_addrRecord_append [of as a "[]"] by simp

lemma body_len_direct: "body_len_field (directPacket_bytes p) = 36"
  by (simp add: directPacket_bytes_def Let_def appendUID_def body_len_header)

lemma body_len_knock: "body_len_field (knockPacket_bytes p) = 96"
  by (subst knockPacket_bytes_def, subst fold_addrRecord_Nil)
    (simp add: Let_def appendUID_def body_len_header)

text \<open>Field positions a receiver relies on: the state byte, the UID slot and the token.\<close>

lemma directPacket_layout:
  assumes "wf_directPacket p"
  shows "directPacket_bytes p =
     [0x04, 0x02, 0x1d, 0x02, 36, 0, 0, 0, dp_State p, 0x04, 0x33, 0, 0, 0, 0, 0]
       @ slot 20 (dp_UID p) @ dp_Token p @ [0, 0, 0, 0] @ unknownDirectTrailer"
  by (simp add: directPacket_bytes_def Let_def sessionHeader_appendTo_def sessionMagic_def
      appendUID_def bytes_unfold)

section \<open>Properties\<close>

text \<open>
  The session packets have the sizes and fields the header promises, whatever the UID: a
  direct packet is 52 bytes and a knock 112, the length field counts exactly the bytes after the
  16-byte header, the state byte sits at offset 8, and the UID slot is always 20 bytes wide.
\<close>

theorem session_packet_layout:
  assumes "wf_directPacket p" "wf_knockPacket k"
  shows "length (directPacket_bytes p) = 52 \<and> length (knockPacket_bytes k) = 112 \<and>
     body_len_field (directPacket_bytes p) = length (directPacket_bytes p) - 16 \<and>
     body_len_field (knockPacket_bytes k) = length (knockPacket_bytes k) - 16 \<and>
     directPacket_bytes p ! 8 = dp_State p \<and> take 20 (drop 16 (directPacket_bytes p)) = slot 20 (dp_UID p) \<and>
     take 8 (drop 36 (directPacket_bytes p)) = dp_Token p"
proof -
  have "length (dp_Token p) = 8" using assms(1) by (simp add: wf_directPacket_def)
  then show ?thesis
    using assms by (simp add: wire_len body_len_direct body_len_knock) (simp add: directPacket_layout)
qed

theorem session_packet_layout_witness:
  "length (directPacket_bytes \<lparr>dp_State = 1, dp_UID = str_bytes ''ABC'', dp_Token = [1, 2, 3, 4, 5, 6, 7, 8]\<rparr>) = 52"
  using session_packet_layout [of "\<lparr>dp_State = 1, dp_UID = str_bytes ''ABC'', dp_Token = [1, 2, 3, 4, 5, 6, 7, 8]\<rparr>"
      "\<lparr>kp_UID = [], kp_Addrs = replicate 4 zero_addrRecord, kp_Token = replicate 8 0\<rparr>"]
  by (simp add: wf_directPacket_def wf_knockPacket_def wf_addrRecord_def zero_addrRecord_def list_all_iff)

end
