(* ===== verification/Address.thy ===== *)
theory Address
  imports Kalay_Prelude
begin

unbundle bit_operations_syntax

text \<open>
  Device address candidates: \<open>ParseAddrRecords\<close> of \<open>kalay/address.go\<close>, which scans a decoded
  rendezvous payload at every offset. The Go map is keyed by the printed address
  \<open>fmt.Sprintf("%s:%d", ip, port)\<close>, which determines the four IP bytes and the port; the model
  keys the set of seen candidates by the record itself. \<open>net.IPv4(\<dots>).To4()\<close> is the four bytes.
\<close>

record AddrRecord =
  IP :: bytes
  Port :: nat

text \<open>One loop iteration: \<open>None\<close> is the first or the second \<open>continue\<close>.\<close>

definition addr_at :: "bytes \<Rightarrow> nat \<Rightarrow> AddrRecord option" where
  "addr_at clear i =
     (if clear ! i \<noteq> 0x02 \<or> clear ! (i + 1) \<noteq> 0x00 then None
      else let port = push_bit 8 (unat (clear ! (i + 2))) OR unat (clear ! (i + 3));
               ip = [clear ! (i + 4), clear ! (i + 5), clear ! (i + 6), clear ! (i + 7)]
           in if port = 0 \<or> ip ! 0 = 0 \<or> ip ! 0 = 255 then None
              else Some \<lparr>IP = ip, Port = port\<rparr>)"

definition addr_step ::
  "bytes \<Rightarrow> nat \<Rightarrow> AddrRecord set \<times> AddrRecord list \<Rightarrow> AddrRecord set \<times> AddrRecord list" where
  "addr_step clear i st =
     (case st of (seen, out) \<Rightarrow>
        (case addr_at clear i of
           None \<Rightarrow> (seen, out)
         | Some a \<Rightarrow> if a \<in> seen then (seen, out) else (insert a seen, out @ [a])))"

text \<open>The loop condition \<open>i+8 <= len(clear)\<close> is \<open>i < length clear - 7\<close>.\<close>

definition ParseAddrRecords :: "bytes \<Rightarrow> AddrRecord list" where
  "ParseAddrRecords clear =
     snd (fold (addr_step clear) [0..<length clear - 7] ({}, []))"

section \<open>First occurrences in wire order\<close>

definition candidates :: "bytes \<Rightarrow> AddrRecord list" where
  "candidates clear = List.map_filter (addr_at clear) [0..<length clear - 7]"

definition firsts :: "'a list \<Rightarrow> 'a list" where
  "firsts xs = rev (remdups (rev xs))"

lemma firsts_snoc: "firsts (xs @ [x]) = (if x \<in> set xs then firsts xs else firsts xs @ [x])"
  by (simp add: firsts_def)

lemma set_firsts [simp]: "set (firsts xs) = set xs"
  by (simp add: firsts_def)

lemma distinct_firsts [simp]: "distinct (firsts xs)"
  by (simp add: firsts_def)

lemma map_filter_snoc:
  "List.map_filter f (xs @ [x]) =
     List.map_filter f xs @ (case f x of None \<Rightarrow> [] | Some y \<Rightarrow> [y])"
  by (simp add: List.map_filter_def split: option.splits)

lemma addr_fold:
  "fold (addr_step clear) [0..<n] ({}, []) =
     (set (List.map_filter (addr_at clear) [0..<n]),
      firsts (List.map_filter (addr_at clear) [0..<n]))"
proof (induction n)
  case 0
  then show ?case by (simp add: List.map_filter_def firsts_def)
next
  case (Suc n)
  then show ?case
    by (auto simp: map_filter_snoc addr_step_def firsts_snoc split: option.splits)
qed

lemma ParseAddrRecords_firsts: "ParseAddrRecords clear = firsts (candidates clear)"
  by (simp add: ParseAddrRecords_def candidates_def addr_fold)

lemma set_candidates:
  "a \<in> set (candidates clear) \<longleftrightarrow>
     (\<exists>i. i + 8 \<le> length clear \<and> addr_at clear i = Some a)"
  by (force simp: candidates_def List.map_filter_def image_iff)

lemma port_of_bytes: "push_bit 8 (unat hi) OR unat lo = int16_of lo hi"
  by (simp add: int16_of_def or.commute)

text \<open>The wire form of a record the scan accepts.\<close>

definition addr_wire :: "AddrRecord \<Rightarrow> bytes" where
  "addr_wire a = [0x02, 0x00, hi_byte (Port a), lo_byte (Port a)] @ IP a @ replicate 8 0"

definition usable_addr :: "AddrRecord \<Rightarrow> bool" where
  "usable_addr a \<longleftrightarrow>
     length (IP a) = 4 \<and> 0 < Port a \<and> Port a < 65536 \<and> IP a ! 0 \<noteq> 0 \<and> IP a ! 0 \<noteq> 255"

lemma length4: "length xs = 4 \<longleftrightarrow> (\<exists>w x y z. xs = [w, x, y, z])"
  by (auto simp: numeral_eq_Suc length_Suc_conv)

lemma addr_at_wire:
  assumes "usable_addr a"
  shows "addr_at (pre @ addr_wire a @ post) (length pre) = Some a"
proof -
  obtain w x y z where ip: "IP a = [w, x, y, z]"
    using assms by (auto simp: usable_addr_def length4)
  have "int16_of (lo_byte (Port a)) (hi_byte (Port a)) = Port a"
    using assms by (simp add: usable_addr_def)
  then show ?thesis
    using assms ip
    by (simp add: addr_at_def addr_wire_def nth_append_length_plus nth_append port_of_bytes usable_addr_def)
qed

lemma addr_at_usable:
  assumes "addr_at clear i = Some a"
  shows "usable_addr a"
proof -
  have "push_bit 8 (unat (clear ! (i + 2))) OR unat (clear ! (i + 3)) < 65536"
    by (simp add: port_of_bytes int16_of_less)
  with assms show ?thesis
    by (auto simp: addr_at_def Let_def usable_addr_def split: if_splits)
qed

section \<open>Properties\<close>

text \<open>
  \<open>ParseAddrRecords\<close> returns each usable address record of the payload once, in order of first
  occurrence, and nothing else: the result has no duplicates, consists of the records found at some
  offset, every one of them has a non-zero port and a usable first octet, and a record in wire form
  is found wherever it stands in the payload.
\<close>

theorem addr_records_exact:
  "distinct (ParseAddrRecords clear) \<and>
   set (ParseAddrRecords clear) = {a. \<exists>i. i + 8 \<le> length clear \<and> addr_at clear i = Some a} \<and>
   ParseAddrRecords clear = firsts (List.map_filter (addr_at clear) [0..<length clear - 7]) \<and>
   (\<forall>a\<in>set (ParseAddrRecords clear). usable_addr a) \<and>
   (usable_addr a \<longrightarrow> a \<in> set (ParseAddrRecords (pre @ addr_wire a @ post)))"
proof -
  have "a \<in> set (ParseAddrRecords (pre @ addr_wire a @ post))" if "usable_addr a"
  proof -
    have "length pre + 8 \<le> length (pre @ addr_wire a @ post)" by (simp add: addr_wire_def)
    then show ?thesis
      using addr_at_wire [OF that, of pre post] unfolding ParseAddrRecords_firsts set_firsts set_candidates by blast
  qed
  then show ?thesis
    using addr_at_usable
    by (auto simp: ParseAddrRecords_firsts set_candidates) (simp add: candidates_def)
qed

theorem addr_records_exact_witness:
  "\<lparr>IP = [1, 2, 3, 4], Port = 8080\<rparr> \<in>
     set (ParseAddrRecords ([9, 9] @ addr_wire \<lparr>IP = [1, 2, 3, 4], Port = 8080\<rparr> @ [7]))"
  using addr_records_exact [of "[]" "\<lparr>IP = [1, 2, 3, 4], Port = 8080\<rparr>" "[9, 9]" "[7]"]
  by (simp add: usable_addr_def)

end
