(* ===== verification/Rdt_Frames.thy ===== *)
theory Rdt_Frames
  imports Kalay_Prelude
begin

unbundle bit_operations_syntax

text \<open>
  RDT framing: \<open>BuildRDT\<close> (\<open>kalay/rdt.go\<close>), which prefixes DTLS bytes with the session word and
  token, and the reliable-transport frames of \<open>kalay/tunnel.go\<close> (\<open>AppendRDT\<close>,
  \<open>ParseRDTStream\<close>). The parser walks the buffer by an offset; the model recurses on the unread
  suffix \<open>pt[off:]\<close>.
\<close>

section \<open>The RDT envelope (rdt.go)\<close>

definition RDTHeaderLen :: nat where "RDTHeaderLen = 12"

text \<open>\<open>copy(out[4:12], token)\<close> fills an eight-byte field, whatever the length of the token.\<close>

definition BuildRDT :: "u32 \<Rightarrow> bytes \<Rightarrow> bytes \<Rightarrow> bytes" where
  "BuildRDT word token dtls = le_bytes 4 word @ slot 8 token @ dtls"

lemma length_BuildRDT [wire_len]: "length (BuildRDT w t d) = RDTHeaderLen + length d"
  by (simp add: BuildRDT_def RDTHeaderLen_def)

lemma drop_BuildRDT [simp]: "drop RDTHeaderLen (BuildRDT w t d) = d"
  by (simp add: BuildRDT_def RDTHeaderLen_def)

section \<open>RDT frames (tunnel.go)\<close>

definition RDTHdrLen :: nat where "RDTHdrLen = 20"

definition rdtMagic :: bytes where
  "rdtMagic = [0x5a, 0x97, 0xc2, 0xf1]"

definition RDTKeepalive :: byte where "RDTKeepalive = 0x01"
definition RDTSyn :: byte where "RDTSyn = 0x41"
definition RDTAck :: byte where "RDTAck = 0x46"
definition RDTData :: byte where "RDTData = 0x02"

record RDTPacket =
  rp_Type :: byte
  rp_Seq :: u64
  rp_B16 :: byte
  rp_ConnID :: byte
  rp_Payload :: bytes

definition AppendRDT :: "bytes \<Rightarrow> RDTPacket \<Rightarrow> bytes" where
  "AppendRDT dst p =
     dst @ rdtMagic @ [rp_Type p, 0x05]
       @ le_bytes 2 (word_of_nat (length (rp_Payload p)) :: u16)
       @ le_bytes 8 (rp_Seq p) @ [rp_B16 p, rp_ConnID p, 0, 0] @ rp_Payload p"

function ParseRDTStream :: "bytes \<Rightarrow> RDTPacket list" where
  "ParseRDTStream pt =
     (if RDTHdrLen \<le> length pt then
        (if take 4 pt \<noteq> rdtMagic then []
         else let paylen = unat (le_word (take 2 (drop 6 pt)) :: u16)
              in if RDTHdrLen + paylen > length pt then []
                 else \<lparr>rp_Type = pt ! 4, rp_Seq = le_word (take 8 (drop 8 pt)),
                       rp_B16 = pt ! 16, rp_ConnID = pt ! 17,
                       rp_Payload = take paylen (drop RDTHdrLen pt)\<rparr>
                      # ParseRDTStream (drop (RDTHdrLen + paylen) pt))
      else [])"
  by pat_completeness auto
termination
  by (relation "measure length") (auto simp: RDTHdrLen_def)

declare ParseRDTStream.simps [simp del]

text \<open>The length field has 16 bits, so a frame is well formed when its payload fits.\<close>

definition valid_rdt :: "RDTPacket \<Rightarrow> bool" where
  "valid_rdt p \<longleftrightarrow> length (rp_Payload p) < 65536"

lemma length_AppendRDT [wire_len]:
  "length (AppendRDT dst p) = length dst + RDTHdrLen + length (rp_Payload p)"
  by (simp add: AppendRDT_def rdtMagic_def RDTHdrLen_def)

lemma AppendRDT_append: "AppendRDT dst p = dst @ AppendRDT [] p"
  by (simp add: AppendRDT_def)

lemma parse_rdt_step:
  assumes "RDTHdrLen + n \<le> length pt" "take 4 pt = rdtMagic"
    and "unat (le_word (take 2 (drop 6 pt)) :: u16) = n"
  shows "ParseRDTStream pt =
     \<lparr>rp_Type = pt ! 4, rp_Seq = le_word (take 8 (drop 8 pt)), rp_B16 = pt ! 16,
      rp_ConnID = pt ! 17, rp_Payload = take n (drop RDTHdrLen pt)\<rparr>
       # ParseRDTStream (drop (RDTHdrLen + n) pt)"
  using assms by (subst ParseRDTStream.simps) (simp add: Let_def)

lemma parse_rdt_frame:
  assumes "valid_rdt p"
  shows "ParseRDTStream (AppendRDT [] p @ rest) = p # ParseRDTStream rest"
proof -
  define n where "n = length (rp_Payload p)"
  define pt where "pt = AppendRDT [] p @ rest"
  have hdr: "pt = rdtMagic @ [rp_Type p, 0x05] @ le_bytes 2 (word_of_nat n :: u16)
      @ le_bytes 8 (rp_Seq p) @ [rp_B16 p, rp_ConnID p, 0, 0] @ rp_Payload p @ rest"
    by (simp add: pt_def AppendRDT_def n_def)
  have len: "RDTHdrLen + n \<le> length pt"
    by (simp add: pt_def n_def wire_len)
  have magic: "take 4 pt = rdtMagic" by (simp add: hdr rdtMagic_def)
  have pl: "unat (le_word (take 2 (drop 6 pt)) :: u16) = n"
    using assms by (simp add: hdr rdtMagic_def valid_rdt_def n_def)
  have seq: "le_word (take 8 (drop 8 pt)) = rp_Seq p"
    by (simp add: hdr rdtMagic_def)
  have b4: "pt ! 4 = rp_Type p" by (simp add: hdr rdtMagic_def)
  have "drop 16 pt = [rp_B16 p, rp_ConnID p, 0, 0] @ rp_Payload p @ rest"
    by (simp add: hdr rdtMagic_def)
  then have b16: "pt ! 16 = rp_B16 p" "pt ! 17 = rp_ConnID p"
    using nth_drop [of 16 pt 0] nth_drop [of 16 pt 1] len by (simp_all add: RDTHdrLen_def)
  have pay: "take n (drop RDTHdrLen pt) = rp_Payload p"
    by (simp add: hdr rdtMagic_def RDTHdrLen_def n_def)
  have "RDTHdrLen + n = length (AppendRDT [] p)" by (simp add: wire_len n_def)
  then have rest: "drop (RDTHdrLen + n) pt = rest" by (simp add: pt_def)
  show ?thesis
    using parse_rdt_step [OF len magic pl] by (simp add: seq b4 b16 pay rest flip: pt_def)
qed

interpretation rdt: frame_stream "AppendRDT []" valid_rdt ParseRDTStream
  by unfold_locales (rule parse_rdt_frame, assumption, subst ParseRDTStream.simps,
      simp add: RDTHdrLen_def)

text \<open>Whatever the input, every frame the parser returns is well formed and fits the buffer.\<close>

lemma parse_rdt_valid: "list_all valid_rdt (ParseRDTStream pt)"
proof (induction pt rule: ParseRDTStream.induct)
  case (1 pt)
  let ?n = "unat (le_word (take 2 (drop 6 pt)) :: u16)"
  have "valid_rdt \<lparr>rp_Type = t, rp_Seq = s, rp_B16 = b, rp_ConnID = c,
      rp_Payload = take ?n (drop RDTHdrLen pt)\<rparr>" for t s b c
    using u16_less [of "le_word (take 2 (drop 6 pt))"] by (simp add: valid_rdt_def min_less_iff_disj)
  with 1 show ?case
    by (subst ParseRDTStream.simps) (simp add: Let_def)
qed

lemma parse_rdt_bytes:
  "sum_list (map (\<lambda>p. RDTHdrLen + length (rp_Payload p)) (ParseRDTStream pt)) \<le> length pt"
proof (induction pt rule: ParseRDTStream.induct)
  case (1 pt)
  then show ?case
    by (subst ParseRDTStream.simps) (auto simp: Let_def)
qed

section \<open>Properties\<close>

text \<open>
  RDT framing round-trips: appending any number of frames with \<open>AppendRDT\<close> and parsing the
  result gives the frames back, whatever follows them in the buffer.
\<close>

theorem rdt_stream_roundtrip:
  assumes "list_all valid_rdt ps"
  shows "ParseRDTStream (fold (\<lambda>p b. AppendRDT b p) ps [] @ rest) = ps @ ParseRDTStream rest"
proof -
  have "fold (\<lambda>p b. AppendRDT b p) ps b = b @ concat (map (AppendRDT []) ps)" for b
  proof (induction ps arbitrary: b)
    case (Cons p ps)
    then show ?case using AppendRDT_append [of b p] by simp
  qed simp
  with assms show ?thesis by (simp add: rdt.parse_concat_rest)
qed

theorem rdt_stream_roundtrip_witness:
  "let p = \<lparr>rp_Type = 2, rp_Seq = 7, rp_B16 = 1, rp_ConnID = 9, rp_Payload = [1, 2, 3]\<rparr>
   in list_all valid_rdt [p, p] \<and> ParseRDTStream (AppendRDT (AppendRDT [] p) p) = [p, p]"
proof -
  have "list_all valid_rdt [\<lparr>rp_Type = 2, rp_Seq = 7, rp_B16 = 1, rp_ConnID = 9, rp_Payload = [1, 2, 3]\<rparr>,
      \<lparr>rp_Type = 2, rp_Seq = 7, rp_B16 = 1, rp_ConnID = 9, rp_Payload = [1, 2, 3]\<rparr>]"
    by (simp add: valid_rdt_def)
  from rdt_stream_roundtrip [OF this, of "[]"] this show ?thesis
    by (simp add: Let_def rdt.parse_nil)
qed

end
