(* ===== verification/Ptunnel.thy ===== *)
theory Ptunnel
  imports Kalay_Prelude
begin

unbundle bit_operations_syntax

text \<open>
  P2PTunnel framing of \<open>kalay/tunnel.go\<close>: the chunk framing of one socket stream
  (\<open>FrameTunnel\<close>, \<open>DeframeTunnel\<close>) and the demultiplexer \<open>PTunDemux\<close> that the pump runs over the
  reassembled byte stream, with the messages \<open>tunnelconn.go\<close> writes into it.

  \<open>PTunDemux\<close> holds only the offset \<open>off\<close>; \<open>PTunDemux_Parse\<close> takes it and returns the new offset
  with the messages.
\<close>

definition TunnelChunkMax :: nat where "TunnelChunkMax = 0x2000"

section \<open>Chunk framing of one stream\<close>

function DeframeTunnel :: "bytes \<Rightarrow> bytes" where
  "DeframeTunnel raw =
     (if 4 \<le> length raw then
        (let clen = int16_of (raw ! 2) (raw ! 3)
         in if raw ! 0 = 0x02 \<and> raw ! 1 = 0x01 \<and> clen > 0 \<and> clen \<le> TunnelChunkMax
            then (let clen = (if 4 + clen > length raw then length raw - 4 else clen)
                  in take clen (drop 4 raw) @ DeframeTunnel (drop (4 + clen) raw))
            else raw ! 0 # DeframeTunnel (drop 1 raw))
      else [])"
  by pat_completeness auto
termination
  by (relation "measure length") auto

declare DeframeTunnel.simps [simp del]

text \<open>
  \<open>FrameTunnel\<close>: \<open>chunk\<close> is a Go \<open>int\<close>, replaced when it is not in range; the loop then emits
  the chunks from the front.
\<close>

function frame_chunks :: "nat \<Rightarrow> bytes \<Rightarrow> bytes" where
  "frame_chunks n sock =
     (if sock = [] \<or> n = 0 then []
      else (let c = take n sock
            in [0x02, 0x01, lo_byte (length c), hi_byte (length c)] @ c
                 @ frame_chunks n (drop n sock)))"
  by pat_completeness auto
termination
  by (relation "measure (\<lambda>(n, sock). length sock)") auto

declare frame_chunks.simps [simp del]

definition FrameTunnel :: "bytes \<Rightarrow> int \<Rightarrow> bytes" where
  "FrameTunnel sock chunk =
     (let chunk = (if chunk \<le> 0 \<or> chunk > int TunnelChunkMax then int TunnelChunkMax else chunk)
      in frame_chunks (nat chunk) sock)"

lemma deframe_chunk:
  assumes "0 < length c" "length c \<le> TunnelChunkMax"
  shows "DeframeTunnel ([0x02, 0x01, lo_byte (length c), hi_byte (length c)] @ c @ rest)
       = c @ DeframeTunnel rest"
  using assms by (subst DeframeTunnel.simps) (simp add: Let_def TunnelChunkMax_def)

lemma deframe_nil: "DeframeTunnel [] = []"
  by (simp add: DeframeTunnel.simps)

lemma deframe_frame_chunks:
  assumes "0 < n" "n \<le> TunnelChunkMax"
  shows "DeframeTunnel (frame_chunks n sock) = sock"
  using assms
proof (induction n sock rule: frame_chunks.induct)
  case (1 n sock)
  show ?case
  proof (cases "sock = []")
    case True
    then show ?thesis by (simp add: frame_chunks.simps deframe_nil)
  next
    case False
    let ?c = "take n sock"
    have c: "0 < length ?c" "length ?c \<le> TunnelChunkMax"
      using False "1.prems" by auto
    have "frame_chunks n sock = [0x02, 0x01, lo_byte (length ?c), hi_byte (length ?c)] @ ?c
        @ frame_chunks n (drop n sock)"
      using False "1.prems" by (subst frame_chunks.simps) (simp add: Let_def)
    moreover have "DeframeTunnel (frame_chunks n (drop n sock)) = drop n sock"
      using False 1 by simp
    ultimately show ?thesis
      by (simp only: deframe_chunk [OF c] append_take_drop_id)
  qed
qed

section \<open>Messages and the demultiplexer\<close>

record PTunMsg =
  pm_Type :: byte
  pm_Chan :: byte
  pm_Data :: bytes

definition isPTunCtrl :: "byte \<Rightarrow> bool" where
  "isPTunCtrl t \<longleftrightarrow> t \<in> {0x07, 0x08, 0x09, 0x0a, 0x0b, 0x0c, 0x0d, 0x0e}"

function PTunDemux_Parse :: "bytes \<Rightarrow> nat \<Rightarrow> PTunMsg list \<times> nat" where
  "PTunDemux_Parse raw off =
     (if off + 4 \<le> length raw then
        (let b0 = raw ! off; b1 = raw ! (off + 1);
             ln = int16_of (raw ! (off + 2)) (raw ! (off + 3))
         in if b0 = 0x02 \<and> b1 \<noteq> 0x00 \<and> ln > 0 \<and> ln \<le> TunnelChunkMax then
              (if off + 4 + ln > length raw then ([], off)
               else (let (out, off') = PTunDemux_Parse raw (off + 4 + ln)
                     in (\<lparr>pm_Type = 0x02, pm_Chan = b1, pm_Data = take ln (drop (off + 4) raw)\<rparr>
                           # out, off')))
            else if b1 = 0x00 \<and> isPTunCtrl b0 \<and> ln \<le> 0x1000 then
              (if off + 4 + ln > length raw then ([], off)
               else (let (out, off') = PTunDemux_Parse raw (off + 4 + ln)
                     in (\<lparr>pm_Type = b0, pm_Chan = 0, pm_Data = take ln (drop (off + 4) raw)\<rparr>
                           # out, off')))
            else PTunDemux_Parse raw (off + 1))
      else ([], off))"
  by pat_completeness auto
termination
  by (relation "measure (\<lambda>(raw, off). length raw - off)") auto

declare PTunDemux_Parse.simps [simp del]

text \<open>What the pump does with a fresh \<open>PTunDemux\<close> and \<open>pbuf\<close>: the messages and the remainder.\<close>

definition demux :: "bytes \<Rightarrow> PTunMsg list \<times> bytes" where
  "demux pbuf = (let (ms, off) = PTunDemux_Parse pbuf 0 in (ms, drop off pbuf))"


section \<open>The demultiplexer does not depend on how the stream is cut\<close>

text \<open>
  One iteration of the loop, as a function: \<open>None\<close> when it stops (fewer than four bytes, or an
  incomplete message), otherwise the message it emits, if any, and the next offset.
\<close>

definition ptun_next :: "bytes \<Rightarrow> nat \<Rightarrow> (PTunMsg list \<times> nat) option" where
  "ptun_next raw off =
     (if off + 4 \<le> length raw then
        (let b0 = raw ! off; b1 = raw ! (off + 1);
             ln = int16_of (raw ! (off + 2)) (raw ! (off + 3));
             body = take ln (drop (off + 4) raw)
         in if b0 = 0x02 \<and> b1 \<noteq> 0x00 \<and> ln > 0 \<and> ln \<le> TunnelChunkMax then
              (if off + 4 + ln > length raw then None
               else Some ([\<lparr>pm_Type = 0x02, pm_Chan = b1, pm_Data = body\<rparr>], off + 4 + ln))
            else if b1 = 0x00 \<and> isPTunCtrl b0 \<and> ln \<le> 0x1000 then
              (if off + 4 + ln > length raw then None
               else Some ([\<lparr>pm_Type = b0, pm_Chan = 0, pm_Data = body\<rparr>], off + 4 + ln))
            else Some ([], off + 1))
      else None)"

lemma parse_next:
  "PTunDemux_Parse raw off =
     (case ptun_next raw off of None \<Rightarrow> ([], off)
      | Some (ms, o1) \<Rightarrow> apfst ((@) ms) (PTunDemux_Parse raw o1))"
  by (subst PTunDemux_Parse.simps)
    (auto simp: ptun_next_def Let_def apfst_def map_prod_def split: prod.splits)

lemma next_bounds: "ptun_next raw off = Some (ms, o1) \<Longrightarrow> off < o1 \<and> o1 \<le> length raw"
  by (auto simp: ptun_next_def Let_def split: if_splits)

lemma next_append: "ptun_next raw off = Some r \<Longrightarrow> ptun_next (raw @ ys) off = Some r"
  by (auto simp: ptun_next_def Let_def nth_append split: if_splits)

lemma next_shift:
  "ptun_next (pre @ raw) (length pre + off) =
     map_option (apsnd ((+) (length pre))) (ptun_next raw off)"
proof -
  have nth: "(pre @ raw) ! (length pre + off) = raw ! off"
    "(pre @ raw) ! (length pre + off + i) = raw ! (off + i)" for i
    by (simp_all add: nth_append_length_plus add.assoc)
  have d: "drop (length pre + off + 4) (pre @ raw) = drop (off + 4) raw"
    by simp
  show ?thesis
    unfolding ptun_next_def nth d Let_def by (simp add: add.assoc)
qed

lemma parse_induct [case_names stop step]:
  assumes "\<And>off. ptun_next raw off = None \<Longrightarrow> P off"
    and "\<And>off ms o1. ptun_next raw off = Some (ms, o1) \<Longrightarrow> P o1 \<Longrightarrow> P off"
  shows "P off"
proof (induction "length raw - off" arbitrary: off rule: less_induct)
  case less
  show ?case
  proof (cases "ptun_next raw off")
    case None
    then show ?thesis by (rule assms(1))
  next
    case (Some r)
    then obtain ms o1 where r: "ptun_next raw off = Some (ms, o1)" by (cases r) auto
    have "P o1" by (rule less) (use next_bounds [OF r] in auto)
    with r show ?thesis by (rule assms(2))
  qed
qed

lemma parse_bounds:
  "off \<le> length raw \<Longrightarrow> off \<le> snd (PTunDemux_Parse raw off) \<and>
     snd (PTunDemux_Parse raw off) \<le> length raw"
proof (induction off rule: parse_induct [of raw])
  case (stop off)
  then show ?case by (simp add: parse_next [of raw off])
next
  case (step off ms o1)
  with next_bounds [OF step(1)] show ?case
    by (simp add: parse_next [of raw off])
qed

lemma parse_shift:
  "PTunDemux_Parse (pre @ raw) (length pre + off) =
     apsnd ((+) (length pre)) (PTunDemux_Parse raw off)"
proof (induction off rule: parse_induct [of raw])
  case (stop off)
  then show ?case by (simp add: parse_next [of _ off] parse_next [of _ "length pre + off"] next_shift)
next
  case (step off ms o1)
  then show ?case
    by (simp add: parse_next [of raw off] parse_next [of "pre @ raw" "length pre + off"] next_shift)
qed

lemma parse_append:
  "PTunDemux_Parse (raw @ ys) off =
     apfst ((@) (fst (PTunDemux_Parse raw off)))
       (PTunDemux_Parse (raw @ ys) (snd (PTunDemux_Parse raw off)))"
proof (induction off rule: parse_induct [of raw])
  case (stop off)
  then show ?case by (simp add: parse_next [of raw off] prod.expand)
next
  case (step off ms o1)
  then show ?case
    by (simp add: parse_next [of raw off] parse_next [of "raw @ ys" off] next_append
        apfst_compose [unfolded o_def] prod.expand)
qed

lemma demux_append:
  "demux (a @ b) =
     apfst ((@) (fst (demux a))) (demux (snd (demux a) @ b))"
proof -
  obtain ms off where p: "PTunDemux_Parse a 0 = (ms, off)" by fastforce
  have off: "off \<le> length a" using parse_bounds [of 0 a] p by simp
  let ?r = "drop off a @ b"
  have ab: "a @ b = take off a @ ?r" and l: "length (take off a) = off"
    using off by (simp_all flip: append_assoc)
  have "PTunDemux_Parse (a @ b) off = apsnd ((+) off) (PTunDemux_Parse ?r 0)"
    using parse_shift [of "take off a" ?r 0] unfolding l ab [symmetric] by simp
  moreover have "drop (off + n) (a @ b) = drop n ?r" for n
    by (subst ab, subst l [symmetric]) simp
  ultimately show ?thesis
    using parse_append [of a b 0] p by (simp add: demux_def split: prod.splits)
qed

text \<open>
  Feeding the stream piece by piece, keeping the unparsed remainder between pieces as the pump
  keeps \<open>pbuf\<close>, gives the messages of the whole stream.
\<close>

definition feed :: "bytes \<Rightarrow> PTunMsg list \<times> bytes \<Rightarrow> PTunMsg list \<times> bytes" where
  "feed piece st = (case st of (out, pbuf) \<Rightarrow> apfst ((@) out) (demux (pbuf @ piece)))"

lemma demux_demux: "demux (snd (demux a)) = ([], snd (demux a))"
proof -
  obtain ms r where a: "demux a = (ms, r)" by fastforce
  obtain ms' r' where r: "demux r = (ms', r')" by fastforce
  show ?thesis using demux_append [of a "[]"] a r by auto
qed

lemma feed_demux: "feed x (demux a) = demux (a @ x)"
  by (subst demux_append) (simp add: feed_def split: prod.splits)

lemma feed_pieces: "fold feed pieces (demux a) = demux (a @ concat pieces)"
  by (induction pieces arbitrary: a) (simp_all add: feed_demux)

section \<open>Well-formed streams\<close>

definition ptun_wire :: "PTunMsg \<Rightarrow> bytes" where
  "ptun_wire m = [pm_Type m, pm_Chan m, lo_byte (length (pm_Data m)), hi_byte (length (pm_Data m))]
     @ pm_Data m"

definition valid_ptun :: "PTunMsg \<Rightarrow> bool" where
  "valid_ptun m \<longleftrightarrow>
     (pm_Type m = 0x02 \<and> pm_Chan m \<noteq> 0 \<and> 0 < length (pm_Data m)
        \<and> length (pm_Data m) \<le> TunnelChunkMax)
     \<or> (pm_Chan m = 0 \<and> isPTunCtrl (pm_Type m) \<and> length (pm_Data m) \<le> 0x1000)"

lemma next_frame:
  assumes "valid_ptun m"
  shows "ptun_next (ptun_wire m @ rest) 0 = Some ([m], length (ptun_wire m))"
proof -
  let ?n = "length (pm_Data m)"
  have n: "int16_of (lo_byte ?n) (hi_byte ?n) = ?n"
    using assms by (auto simp: valid_ptun_def TunnelChunkMax_def)
  have "\<not> isPTunCtrl 2" by (simp add: isPTunCtrl_def)
  with assms n show ?thesis
    by (cases m) (auto simp: ptun_next_def ptun_wire_def valid_ptun_def Let_def)
qed

lemma demux_frame:
  assumes "valid_ptun m"
  shows "demux (ptun_wire m @ rest) = apfst ((#) m) (demux rest)"
  using parse_shift [of "ptun_wire m" rest 0]
  by (simp add: demux_def parse_next [of "ptun_wire m @ rest" 0] next_frame [OF assms]
      split: prod.splits)

lemma demux_nil: "demux [] = ([], [])"
  by (simp add: demux_def PTunDemux_Parse.simps)

interpretation pt: frame_stream ptun_wire valid_ptun "\<lambda>raw. fst (demux raw)"
  by unfold_locales (simp_all add: demux_frame demux_nil)

text \<open>
  A prefix of a message stays in the buffer: nothing is emitted or skipped until it is complete.
\<close>

lemma demux_partial:
  assumes "valid_ptun m" and "ptun_wire m = a @ b" and "b \<noteq> []"
  shows "demux a = ([], a)"
proof -
  have len: "length a < length (ptun_wire m)" using assms by simp
  have "ptun_next a 0 = None"
  proof (rule ccontr)
    assume "ptun_next a 0 \<noteq> None"
    then obtain ms o1 where r: "ptun_next a 0 = Some (ms, o1)" by (cases "ptun_next a 0") auto
    then have "ptun_next (ptun_wire m) 0 = Some (ms, o1)"
      by (simp add: assms(2) next_append)
    then have "o1 = length (ptun_wire m)"
      using next_frame [OF assms(1), of "[]"] by simp
    with next_bounds [OF r] len show False by simp
  qed
  then show ?thesis by (simp add: demux_def parse_next [of a 0])
qed

lemma demux_wires: "list_all valid_ptun ms \<Longrightarrow> demux (concat (map ptun_wire ms)) = (ms, [])"
  by (induction ms) (simp_all add: demux_nil demux_frame)

section \<open>Properties\<close>

text \<open>
  \<open>DeframeTunnel\<close> undoes \<open>FrameTunnel\<close> for every byte stream and every requested chunk size,
  including the sizes (zero, negative, above the maximum) that \<open>FrameTunnel\<close> replaces.
\<close>

theorem tunnel_framing_roundtrip: "DeframeTunnel (FrameTunnel sock chunk) = sock"
  unfolding FrameTunnel_def Let_def
  by (rule deframe_frame_chunks) (auto simp: TunnelChunkMax_def)

text \<open>
  The demultiplexer does not depend on how the stream arrives: feeding the wire form of a list of
  messages in pieces cut anywhere, with the unparsed rest carried over as the pump does, yields
  exactly these messages and leaves nothing behind.
\<close>

theorem demux_cut_anywhere:
  assumes "list_all valid_ptun ms" "concat pieces = concat (map ptun_wire ms)"
  shows "fold feed pieces ([], []) = (ms, [])"
  using feed_pieces [of pieces "[]"] demux_wires [OF assms(1)] assms(2) by (simp add: demux_nil)

theorem demux_cut_anywhere_witness:
  "fold feed [[2, 1], [3, 0, 65], [66, 67, 0x0d, 0], [0, 0]] ([], []) =
     ([\<lparr>pm_Type = 2, pm_Chan = 1, pm_Data = [65, 66, 67]\<rparr>, \<lparr>pm_Type = 0x0d, pm_Chan = 0, pm_Data = []\<rparr>], [])"
  by (rule demux_cut_anywhere)
    (simp_all add: valid_ptun_def TunnelChunkMax_def isPTunCtrl_def ptun_wire_def lo_byte_def hi_byte_def drop_bit_eq_div)

end
