(* ===== verification/Reassembler.thy ===== *)
theory Reassembler
  imports Ptunnel "HOL-Library.Monad_Syntax"
begin

text \<open>
  The inbound reassembly buffer of \<open>kalay/tunnel.go\<close> (type \<open>Reassembler\<close>) and the consumption loop
  the pump runs over it. Sequence numbers are 64-bit words.

  \<open>append([]byte(nil), payload...)\<close> is nil when the payload is empty, so the Go tests
  \<open>r.frames[s] != nil\<close> in \<open>Add\<close> and \<open>Missing\<close> are false for a frame that was received with an
  empty payload; \<open>nonnil\<close> models them. The membership test \<open>_, ok := r.frames[seq]\<close> is \<open>\<noteq> None\<close>.

  Two loops of the Go code need not stop. \<open>for r.frames[c+1] != nil\<close> stops unless every one of the
  \<open>2 ^ 64\<close> sequence numbers is held (\<open>cum_scan_stops\<close>), and \<open>for s := r.base; s <= r.maxSeq; s++\<close>
  stops unless \<open>maxSeq\<close> is the largest 64-bit value; the latter is a
  \<^theory_text>\<open>partial_function\<close> whose \<open>None\<close> is divergence.
\<close>

record Reassembler =
  frames :: "u64 \<rightharpoonup> bytes"
  base :: u64
  cum :: u64
  maxSeq :: u64
  baseSet :: bool
  consumed :: u64
  consumedSet :: bool

definition NewReassembler :: Reassembler where
  "NewReassembler = \<lparr>frames = Map.empty, base = 0, cum = 0, maxSeq = 0, baseSet = False,
     consumed = 0, consumedSet = False\<rparr>"

definition nonnil :: "(u64 \<rightharpoonup> bytes) \<Rightarrow> u64 \<Rightarrow> bool" where
  "nonnil m s \<longleftrightarrow> (case m s of None \<Rightarrow> False | Some p \<Rightarrow> p \<noteq> [])"

definition cum_scan :: "(u64 \<rightharpoonup> bytes) \<Rightarrow> u64 \<Rightarrow> u64" where
  "cum_scan m b = while (\<lambda>c. nonnil m (c + 1)) (\<lambda>c. c + 1) b"

definition Add :: "Reassembler \<Rightarrow> u64 \<Rightarrow> bytes \<Rightarrow> Reassembler \<times> bool" where
  "Add r seq payload =
     (if consumedSet r \<and> seq \<le> consumed r then (r, False)
      else if frames r seq \<noteq> None then (r, False)
      else
        let r = r\<lparr>frames := (frames r)(seq \<mapsto> payload)\<rparr>;
            r = (if \<not> baseSet r then r\<lparr>base := seq, maxSeq := seq, baseSet := True\<rparr> else r);
            r = (if seq < base r then r\<lparr>base := seq\<rparr> else r);
            r = (if seq > maxSeq r then r\<lparr>maxSeq := seq\<rparr> else r)
        in (r\<lparr>cum := cum_scan (frames r) (base r)\<rparr>, True))"

definition Take :: "Reassembler \<Rightarrow> u64 \<Rightarrow> Reassembler \<times> bytes option" where
  "Take r seq =
     (case frames r seq of
        None \<Rightarrow> (r, None)
      | Some p \<Rightarrow>
          let r = r\<lparr>frames := (frames r)(seq := None)\<rparr>;
              r = (if \<not> consumedSet r \<or> seq > consumed r
                   then r\<lparr>consumed := seq, consumedSet := True\<rparr> else r)
          in (r, Some p))"

definition Started :: "Reassembler \<Rightarrow> bool" where "Started r = baseSet r"
definition CumAck :: "Reassembler \<Rightarrow> u64" where "CumAck r = cum r"
definition Base :: "Reassembler \<Rightarrow> u64" where "Base r = base r"
definition MaxSeq :: "Reassembler \<Rightarrow> u64" where "MaxSeq r = maxSeq r"

partial_function (option) missing_loop ::
  "(u64 \<rightharpoonup> bytes) \<Rightarrow> u64 \<Rightarrow> u64 \<Rightarrow> u64 list option" where
  "missing_loop m s hi =
     (if s \<le> hi then
        do { rest \<leftarrow> missing_loop m (s + 1) hi;
             Some (if \<not> nonnil m s then s # rest else rest) }
      else Some [])"

declare missing_loop.simps [code]

definition Missing :: "Reassembler \<Rightarrow> u64 list option" where
  "Missing r = (if \<not> baseSet r then Some [] else missing_loop (frames r) (base r) (maxSeq r))"

definition Gapless :: "Reassembler \<Rightarrow> bool" where
  "Gapless r \<longleftrightarrow> baseSet r \<and> cum r = maxSeq r"

partial_function (option) raw_loop :: "(u64 \<rightharpoonup> bytes) \<Rightarrow> u64 \<Rightarrow> u64 \<Rightarrow> bytes option" where
  "raw_loop m s hi =
     (if s \<le> hi then
        do { rest \<leftarrow> raw_loop m (s + 1) hi;
             Some ((case m s of None \<Rightarrow> [] | Some p \<Rightarrow> p) @ rest) }
      else Some [])"

declare raw_loop.simps [code]

definition Raw :: "Reassembler \<Rightarrow> bytes option" where
  "Raw r = (if \<not> baseSet r then Some [] else raw_loop (frames r) (base r) (cum r))"

definition Stream :: "Reassembler \<Rightarrow> bytes option" where
  "Stream r = map_option DeframeTunnel (Raw r)"

text \<open>
  The consumption loop of \<open>pump\<close> (\<open>tunnelconn.go\<close>): take the frames from \<open>pumpNext\<close> upwards until
  one is missing, appending their payloads to \<open>pbuf\<close>. Each round removes a frame.
\<close>

lemma Take_Some_less:
  assumes "Take r s = (r', Some p)"
  shows "card (dom (frames r')) < card (dom (frames r))"
proof -
  have "frames r s = Some p" and f: "frames r' = (frames r)(s := None)"
    using assms by (auto simp: Take_def Let_def split: option.splits if_splits)
  then have "dom (frames r') \<subset> dom (frames r)" by (auto simp: f)
  then show ?thesis by (rule psubset_card_mono [rotated]) simp
qed

function drain :: "Reassembler \<Rightarrow> u64 \<Rightarrow> bytes \<Rightarrow> Reassembler \<times> u64 \<times> bytes" where
  "drain r pumpNext pbuf =
     (case Take r pumpNext of
        (r', None) \<Rightarrow> (r', pumpNext, pbuf)
      | (r', Some p) \<Rightarrow> drain r' (pumpNext + 1) (pbuf @ p))"
  by pat_completeness auto
termination
  by (relation "measure (\<lambda>(r, _, _). card (dom (frames r)))") (auto intro: Take_Some_less [OF sym])

declare drain.simps [simp del]


section \<open>The contiguous-prefix scan\<close>

lemma unat_dec: "(x :: u64) \<noteq> 0 \<Longrightarrow> unat (x - 1) < unat x"
  by (simp add: unat_minus_one) (metis diff_Suc_less gr0I unat_eq_zero One_nat_def)

lemma cum_scan_spec:
  assumes "\<not> nonnil m s"
  shows "(\<exists>n. cum_scan m b = b + word_of_nat n \<and> (\<forall>i. 1 \<le> i \<and> i \<le> n \<longrightarrow> nonnil m (b + word_of_nat i)))
     \<and> \<not> nonnil m (cum_scan m b + 1)"
  unfolding cum_scan_def
proof (rule while_rule [where
      P = "\<lambda>c. \<exists>n. c = b + word_of_nat n \<and> (\<forall>i. 1 \<le> i \<and> i \<le> n \<longrightarrow> nonnil m (b + word_of_nat i))"
      and r = "measure (\<lambda>c. unat (s - (c + 1)))"])
  show "\<exists>n. b = b + word_of_nat n \<and> (\<forall>i. 1 \<le> i \<and> i \<le> n \<longrightarrow> nonnil m (b + word_of_nat i))"
    by (rule exI [of _ 0]) simp
next
  fix c
  assume "\<exists>n. c = b + word_of_nat n \<and> (\<forall>i. 1 \<le> i \<and> i \<le> n \<longrightarrow> nonnil m (b + word_of_nat i))"
    and nn: "nonnil m (c + 1)"
  then obtain n where n: "c = b + word_of_nat n"
    "\<forall>i. 1 \<le> i \<and> i \<le> n \<longrightarrow> nonnil m (b + word_of_nat i)" by blast
  have "nonnil m (b + word_of_nat i)" if "1 \<le> i" "i \<le> Suc n" for i
    using n nn that by (cases "i = Suc n") (auto simp: ac_simps)
  then show "\<exists>n. c + 1 = b + word_of_nat n \<and>
      (\<forall>i. 1 \<le> i \<and> i \<le> n \<longrightarrow> nonnil m (b + word_of_nat i))"
    by (intro exI [of _ "Suc n"]) (simp add: n(1) ac_simps)
next
  fix c assume "nonnil m (c + 1)"
  with assms have "s - (c + 1) \<noteq> 0" by auto
  from unat_dec [OF this] show "(c + 1, c) \<in> measure (\<lambda>c. unat (s - (c + 1)))"
    by (simp add: diff_diff_eq ac_simps)
qed auto

text \<open>The scan stops, rather than only having a value if it does.\<close>

lemma cum_scan_stops:
  assumes "\<not> nonnil m s"
  shows "\<exists>c. while_option (\<lambda>c. nonnil m (c + 1)) (\<lambda>c. c + 1) b = Some c"
proof (rule measure_while_option_Some [where P = "\<lambda>_. True" and f = "\<lambda>c. unat (s - (c + 1))"])
  fix c :: u64 assume "nonnil m (c + 1)"
  with assms have "s - (c + 1) \<noteq> 0" by auto
  from unat_dec [OF this]
  show "True \<and> unat (s - (c + 1 + 1)) < unat (s - (c + 1))"
    by (simp add: diff_diff_eq ac_simps)
qed simp

section \<open>Invariant of the buffer\<close>

definition reasm_inv :: "Reassembler \<Rightarrow> bool" where
  "reasm_inv r \<longleftrightarrow>
     (\<forall>s. frames r s \<noteq> None \<longrightarrow> baseSet r \<and> base r \<le> s \<and> s \<le> maxSeq r) \<and>
     (baseSet r \<longrightarrow> base r \<le> maxSeq r) \<and> (consumedSet r \<longrightarrow> baseSet r)"

lemma reasm_inv_New: "reasm_inv NewReassembler"
  by (simp add: reasm_inv_def NewReassembler_def)

lemma Add_stale: "consumedSet r \<Longrightarrow> seq \<le> consumed r \<Longrightarrow> Add r seq p = (r, False)"
  by (simp add: Add_def)

lemma Add_dup: "frames r seq \<noteq> None \<Longrightarrow> Add r seq p = (r, False)"
  by (simp add: Add_def)

lemma Add_frames:
  "frames (fst (Add r seq p)) =
     (if (consumedSet r \<and> seq \<le> consumed r) \<or> frames r seq \<noteq> None then frames r
      else (frames r)(seq \<mapsto> p))"
  by (auto simp: Add_def Let_def)

lemma Add_consumed [simp]:
  "consumedSet (fst (Add r seq p)) = consumedSet r" "consumed (fst (Add r seq p)) = consumed r"
  by (auto simp: Add_def Let_def)

lemma Add_new_iff:
  "snd (Add r seq p) \<longleftrightarrow> \<not> (consumedSet r \<and> seq \<le> consumed r) \<and> frames r seq = None"
  by (auto simp: Add_def Let_def)

lemma Add_bounds:
  assumes "snd (Add r seq p)"
  shows "baseSet (fst (Add r seq p))"
    "base (fst (Add r seq p)) = (if baseSet r then min (base r) seq else seq)"
    "maxSeq (fst (Add r seq p)) = (if baseSet r then max (maxSeq r) seq else seq)"
  using assms by (auto simp: Add_def Let_def min_def max_def split: if_splits)

lemma reasm_inv_Add: "reasm_inv r \<Longrightarrow> reasm_inv (fst (Add r seq p))"
proof (cases "snd (Add r seq p)")
  case True
  assume inv: "reasm_inv r"
  have "\<not> (consumedSet r \<and> seq \<le> consumed r) \<and> frames r seq = None"
    using True by (simp add: Add_new_iff)
  with inv show ?thesis
    unfolding reasm_inv_def Add_frames Add_bounds(2,3) [OF True] Add_consumed
    using Add_bounds(1) [OF True] by (simp add: min_def max_def) (meson le_cases order_trans)
next
  case False
  assume "reasm_inv r"
  moreover have "fst (Add r seq p) = r" using False by (auto simp: Add_def Let_def)
  ultimately show ?thesis by simp
qed

lemma Take_result: "snd (Take r seq) = frames r seq"
  by (simp add: Take_def Let_def split: option.splits)

lemma Take_frames: "frames (fst (Take r seq)) = (frames r)(seq := None)"
  by (auto simp: Take_def Let_def split: option.splits)

lemma Take_missing: "frames r seq = None \<Longrightarrow> Take r seq = (r, None)"
  by (simp add: Take_def)

lemma Take_keeps [simp]:
  "base (fst (Take r seq)) = base r" "maxSeq (fst (Take r seq)) = maxSeq r"
  "baseSet (fst (Take r seq)) = baseSet r" "cum (fst (Take r seq)) = cum r"
  by (auto simp: Take_def Let_def split: option.splits)

lemma reasm_inv_Take: "reasm_inv r \<Longrightarrow> reasm_inv (fst (Take r seq))"
proof (cases "frames r seq")
  case None
  assume "reasm_inv r"
  then show ?thesis by (simp add: Take_missing [OF None])
next
  case (Some p)
  assume inv: "reasm_inv r"
  then have "baseSet r" using Some by (auto simp: reasm_inv_def)
  with inv show ?thesis unfolding reasm_inv_def Take_frames Take_keeps by auto
qed

definition consumed_upto :: "Reassembler \<Rightarrow> u64 option" where
  "consumed_upto r = (if consumedSet r then Some (consumed r) else None)"

lemma Take_consumed:
  assumes "frames r seq \<noteq> None"
  shows "consumed_upto (fst (Take r seq)) =
     Some (case consumed_upto r of None \<Rightarrow> seq | Some f \<Rightarrow> max f seq)"
  using assms
  by (auto simp: Take_def Let_def consumed_upto_def max_def split: option.splits)


section \<open>In-order delivery\<close>

text \<open>
  The contract between the pump and its buffer. \<open>held\<close> are the frames waiting, \<open>wmark\<close> the highest
  sequence number handed out. \<open>rx_inv\<close> is what the pump keeps of a stream whose frame number \<open>k\<close>
  carries \<open>pay k\<close>: everything from the first frame \<open>b\<close> up to \<open>n\<close> has been handed out, once and in
  order, and what is held is genuine and lies ahead.
\<close>

definition rx_inv ::
  "(u64 \<rightharpoonup> bytes) \<Rightarrow> u64 option \<Rightarrow> (nat \<Rightarrow> bytes) \<Rightarrow> nat \<Rightarrow> nat \<Rightarrow> bytes \<Rightarrow> bool" where
  "rx_inv h wmark pay b n out \<longleftrightarrow>
     b \<le> n \<and> n < 2 ^ 64 \<and> out = concat (map pay [b..<n]) \<and>
     (\<forall>s p. h s = Some p \<longrightarrow> n \<le> unat s \<and> unat s < 2 ^ 64 - 1 \<and> p = pay (unat s)) \<and>
     wmark = (if n = b then None else Some (word_of_nat (n - 1)))"

lemma rx_inv_pred:
  assumes "rx_inv h wmark pay b n out"
  shows "unat (word_of_nat (n - 1) :: u64) = n - 1"
proof -
  have "n < 18446744073709551616" using assms by (simp add: rx_inv_def)
  then show ?thesis by (intro unat_u64_of_nat) arith
qed

locale inorder_buffer =
  fixes add :: "'r \<Rightarrow> u64 \<Rightarrow> bytes \<Rightarrow> 'r \<times> bool"
    and take1 :: "'r \<Rightarrow> u64 \<Rightarrow> 'r \<times> bytes option"
    and held :: "'r \<Rightarrow> u64 \<rightharpoonup> bytes"
    and wmark :: "'r \<Rightarrow> u64 option"
  assumes add_held: "held (fst (add r s p)) =
      (if (\<exists>f. wmark r = Some f \<and> s \<le> f) \<or> held r s \<noteq> None then held r else (held r)(s \<mapsto> p))"
    and add_wmark: "wmark (fst (add r s p)) = wmark r"
    and take_result: "snd (take1 r s) = held r s"
    and take_held: "held (fst (take1 r s)) = (held r)(s := None)"
    and take_wmark: "held r s \<noteq> None \<Longrightarrow>
      wmark (fst (take1 r s)) = Some (case wmark r of None \<Rightarrow> s | Some f \<Rightarrow> max f s)"
begin

lemma add_rx_inv:
  assumes "rx_inv (held r) (wmark r) pay b n out" and "b \<le> k" and "k < 2 ^ 64 - 1"
  shows "rx_inv (held (fst (add r (word_of_nat k) (pay k)))) (wmark (fst (add r (word_of_nat k) (pay k))))
     pay b n out"
proof -
  have k: "unat (word_of_nat k :: u64) = k"
    using assms(3) by simp
  have "n \<le> k" if "\<not> (\<exists>f. wmark r = Some f \<and> word_of_nat k \<le> f)"
  proof (cases "n = b")
    case False
    then have "\<not> word_of_nat k \<le> (word_of_nat (n - 1) :: u64)"
      using that assms(1) by (auto simp: rx_inv_def)
    moreover have "unat (word_of_nat (n - 1) :: u64) = n - 1"
      by (rule rx_inv_pred [OF assms(1)])
    ultimately have "n - 1 < k"
      using k by (simp only: word_le_nat_alt not_le)
    then show ?thesis by simp
  qed (use assms(2) in simp)
  then show ?thesis
    using assms k by (auto simp: rx_inv_def add_held add_wmark split: if_splits)
qed

lemma take_rx_inv:
  assumes "rx_inv (held r) (wmark r) pay b n out" and "take1 r (word_of_nat n) = (r', Some p)"
  shows "rx_inv (held r') (wmark r') pay b (Suc n) (out @ p)"
proof -
  have n: "unat (word_of_nat n :: u64) = n"
    using assms(1) by (simp add: rx_inv_def)
  have h: "held r (word_of_nat n) = Some p"
    using take_result [of r "word_of_nat n"] assms(2) by simp
  then have p: "p = pay n" "n < 2 ^ 64 - 1"
    using assms(1) n unfolding rx_inv_def by metis+
  have h': "held r' = (held r)(word_of_nat n := None)"
    using take_held [of r "word_of_nat n"] assms(2) by simp
  have "unat (word_of_nat (n - 1) :: u64) = n - 1"
    by (rule rx_inv_pred [OF assms(1)])
  then have "max (word_of_nat (n - 1)) (word_of_nat n) = (word_of_nat n :: u64)"
    using n by (simp only: max_def word_le_nat_alt) simp
  then have "wmark r' = Some (word_of_nat n)"
    using take_wmark [of r "word_of_nat n"] h assms unfolding rx_inv_def by auto
  moreover have "Suc n \<le> unat s" if "held r' s = Some q" for s q
  proof -
    have "s \<noteq> word_of_nat n" "held r s = Some q" using that h' by (auto split: if_splits)
    moreover have "n \<le> unat s" using assms(1) \<open>held r s = Some q\<close> by (auto simp: rx_inv_def)
    moreover have "n \<noteq> unat s" using \<open>s \<noteq> word_of_nat n\<close> by auto
    ultimately show ?thesis by simp
  qed
  ultimately show ?thesis
    using assms(1) p unfolding rx_inv_def h' by auto
qed

end

interpretation rb: inorder_buffer Add Take frames consumed_upto
  by unfold_locales
    (auto simp: Add_frames consumed_upto_def Take_result Take_frames Take_consumed [unfolded consumed_upto_def])

text \<open>What the consumption loop keeps, from what one round keeps.\<close>

lemma drain_induct [consumes 2, case_names round]:
  assumes "P r n out" and "drain r n out = (r', n', out')"
    and "\<And>r n out r' p. P r n out \<Longrightarrow> Take r n = (r', Some p) \<Longrightarrow> P r' (n + 1) (out @ p)"
  shows "P r' n' out' \<and> frames r' n' = None"
  using assms(1,2)
proof (induction r n out rule: drain.induct)
  case (1 r n out)
  show ?case
  proof (cases "frames r n")
    case None
    with 1 show ?thesis by (auto simp: drain.simps [of r n out] Take_missing)
  next
    case (Some p)
    then obtain r1 where t: "Take r n = (r1, Some p)"
      by (metis Take_result prod.collapse)
    with 1 assms(3) show ?thesis by (simp add: drain.simps [of r n out])
  qed
qed

lemma drain_rx_inv:
  assumes "rx_inv (frames r) (consumed_upto r) pay b n out"
    and "drain r (word_of_nat n) out = (r', next', out')"
  shows "\<exists>n'. next' = word_of_nat n' \<and> n \<le> n' \<and>
     rx_inv (frames r') (consumed_upto r') pay b n' out' \<and> frames r' next' = None"
proof -
  have "(\<exists>m. n \<le> m \<and> next' = word_of_nat m \<and> rx_inv (frames r') (consumed_upto r') pay b m out')
      \<and> frames r' next' = None"
  proof (rule drain_induct [where P = "\<lambda>r nx out. \<exists>m. n \<le> m \<and> nx = word_of_nat m \<and>
        rx_inv (frames r) (consumed_upto r) pay b m out", OF _ assms(2)])
    show "\<exists>m. n \<le> m \<and> word_of_nat n = (word_of_nat m :: u64) \<and>
        rx_inv (frames r) (consumed_upto r) pay b m out"
      using assms(1) by blast
    fix r nx out r' p
    assume "\<exists>m. n \<le> m \<and> nx = word_of_nat m \<and> rx_inv (frames r) (consumed_upto r) pay b m out"
      and "Take r nx = (r', Some p)"
    then obtain m where "n \<le> m" "nx = word_of_nat m"
      "rx_inv (frames r') (consumed_upto r') pay b (Suc m) (out @ p)"
      using rb.take_rx_inv by blast
    then show "\<exists>m. n \<le> m \<and> nx + 1 = word_of_nat m \<and>
        rx_inv (frames r') (consumed_upto r') pay b m (out @ p)"
      by (intro exI [of _ "Suc m"]) (simp add: add.commute)
  qed
  then show ?thesis by blast
qed

section \<open>The loops over a range of sequence numbers\<close>

definition seq_range :: "u64 \<Rightarrow> u64 \<Rightarrow> u64 list" where
  "seq_range lo hi = map word_of_nat [unat lo..<Suc (unat hi)]"

lemma seq_range_step:
  assumes "lo \<le> hi" "hi < - 1"
  shows "seq_range lo hi = lo # seq_range (lo + 1) hi"
proof -
  have "unat (lo + 1) = Suc (unat lo)"
    using assms by (metis add.commute dual_order.strict_trans1 unatSuc word_order.not_eq_extremum
        add.inverse_inverse add_eq_0_iff less_irrefl)
  with assms show ?thesis
    by (simp add: seq_range_def word_le_nat_alt upt_conv_Cons del: upt_Suc)
qed

lemma seq_range_empty: "hi < lo \<Longrightarrow> seq_range lo hi = []"
  by (simp add: seq_range_def word_less_nat_alt)

lemma range_induct [consumes 1, case_names empty step]:
  assumes "(hi :: u64) < - 1"
    and "\<And>s. hi < s \<Longrightarrow> P s"
    and "\<And>s. s \<le> hi \<Longrightarrow> P (s + 1) \<Longrightarrow> P s"
  shows "P s"
proof (induction "Suc (unat hi) - unat s" arbitrary: s rule: less_induct)
  case less
  show ?case
  proof (cases "s \<le> hi")
    case True
    then have "unat (s + 1) = Suc (unat s)"
      using assms(1) by (metis add.commute dual_order.strict_trans1 unatSuc
          add.inverse_inverse add_eq_0_iff less_irrefl)
    with True less have "P (s + 1)" by (simp add: word_le_nat_alt)
    with True show ?thesis by (rule assms(3))
  qed (use assms(2) in auto)
qed

lemma missing_loop_Some:
  assumes "hi < - 1"
  shows "missing_loop m s hi = Some (filter (\<lambda>s. \<not> nonnil m s) (seq_range s hi))"
  using assms
proof (induction s rule: range_induct)
  case (empty s)
  then show ?case by (subst missing_loop.simps) (auto simp: seq_range_empty dest: leD)
next
  case (step s)
  with assms show ?case by (subst missing_loop.simps) (simp add: seq_range_step)
qed

lemma missing_loop_diverges: "missing_loop m s (- 1) = None"
proof (rule ccontr)
  assume "missing_loop m s (- 1) \<noteq> None"
  then obtain r where r: "missing_loop m s (- 1) = Some r" by blast
  have "(- 1 :: u64) \<noteq> - 1"
  proof (rule missing_loop.raw_induct [where P = "\<lambda>m s hi r. hi \<noteq> - 1", OF _ r])
    fix f and m :: "u64 \<rightharpoonup> bytes" and s hi :: u64 and r
    assume IH: "\<And>m s hi r. f m s hi = Some r \<Longrightarrow> hi \<noteq> (- 1 :: u64)"
      and "(if s \<le> hi then f m (s + 1) hi \<bind>
          (\<lambda>rest. Some (if \<not> nonnil m s then s # rest else rest)) else Some []) = Some r"
    then show "hi \<noteq> - 1"
      by (cases "s \<le> hi") (auto simp: bind_eq_Some_conv word_order.extremum_uniqueI)
  qed
  then show False by simp
qed

lemma raw_loop_Some:
  assumes "hi < - 1"
  shows "raw_loop m s hi =
     Some (concat (map (\<lambda>s. case m s of None \<Rightarrow> [] | Some p \<Rightarrow> p) (seq_range s hi)))"
  using assms
proof (induction s rule: range_induct)
  case (empty s)
  then show ?case by (subst raw_loop.simps) (auto simp: seq_range_empty dest: leD)
next
  case (step s)
  with assms show ?case by (subst raw_loop.simps) (simp add: seq_range_step)
qed

section \<open>Properties\<close>

text \<open>
  A batch of frames added in any order, with repetitions and stale copies, is delivered exactly
  once and in order: if everything up to \<open>n\<close> has been handed out and the frames added are genuine, then
  draining hands out \<open>pay n, pay (n+1), \<dots>\<close> up to the first frame that is missing.
\<close>

theorem add_then_drain_in_order:
  assumes "rx_inv (frames r) (consumed_upto r) pay b n out" "\<forall>k\<in>set ks. b \<le> k \<and> k < 2 ^ 64 - 1"
    and "drain (fold (\<lambda>k r. fst (Add r (word_of_nat k) (pay k))) ks r) (word_of_nat n) out = (r', next', out')"
  shows "\<exists>n'\<ge>n. next' = word_of_nat n' \<and> out' = out @ concat (map pay [n..<n']) \<and>
     frames r' next' = None \<and> rx_inv (frames r') (consumed_upto r') pay b n' out'"
proof -
  have "rx_inv (frames (fold (\<lambda>k r. fst (Add r (word_of_nat k) (pay k))) ks r))
      (consumed_upto (fold (\<lambda>k r. fst (Add r (word_of_nat k) (pay k))) ks r)) pay b n out"
    using assms(1,2) by (induction ks arbitrary: r) (simp_all add: rb.add_rx_inv)
  from drain_rx_inv [OF this assms(3)] obtain n' where n': "next' = word_of_nat n'" "n \<le> n'"
    "rx_inv (frames r') (consumed_upto r') pay b n' out'" "frames r' next' = None" by blast
  moreover have "b \<le> n" "out = concat (map pay [b..<n])" using assms(1) by (simp_all add: rx_inv_def)
  moreover have "[b..<n'] = [b..<n] @ [n..<n']"
    using n'(2) \<open>b \<le> n\<close> by (metis le_iff_add upt_add_eq_append)
  ultimately show ?thesis by (auto simp: rx_inv_def)
qed

theorem add_then_drain_in_order_witness:
  "\<exists>n'\<ge>3. snd (drain (fold (\<lambda>k r. fst (Add r (word_of_nat k) [word_of_nat k])) [4, 3, 3, 4] NewReassembler)
     (word_of_nat 3) []) = (word_of_nat n', concat (map (\<lambda>k. [word_of_nat k]) [3..<n']))"
proof -
  let ?r = "fold (\<lambda>k r. fst (Add r (word_of_nat k) [word_of_nat k])) [4, 3, 3, 4] NewReassembler"
  obtain r' nx out' where d: "drain ?r (word_of_nat 3) [] = (r', nx, out')" by (rule prod_cases3)
  have "rx_inv (frames NewReassembler) (consumed_upto NewReassembler) (\<lambda>k. [word_of_nat k]) 3 3 []"
    by (simp add: rx_inv_def NewReassembler_def consumed_upto_def)
  moreover have "\<forall>k\<in>set [4, 3, 3, 4]. 3 \<le> k \<and> k < (2 ^ 64 - 1 :: nat)" by simp
  ultimately have "\<exists>n'\<ge>3. nx = word_of_nat n' \<and> out' = [] @ concat (map (\<lambda>k. [word_of_nat k]) [3..<n']) \<and>
     frames r' nx = None \<and> rx_inv (frames r') (consumed_upto r') (\<lambda>k. [word_of_nat k]) 3 n' out'"
    by (rule add_then_drain_in_order [OF _ _ d])
  then show ?thesis unfolding d by auto
qed

text \<open>
  C16. \<open>Missing\<close> lists, in increasing order, the sequence numbers between the first and the highest
  one seen for which no payload bytes are buffered; it returns for every buffer except when the
  highest sequence number is the largest 64-bit value, where its loop never ends.
\<close>

theorem missing_exact:
  "Missing r = (if \<not> baseSet r then Some [] else if maxSeq r = - 1 then None
     else Some (filter (\<lambda>s. \<not> nonnil (frames r) s) (map word_of_nat [unat (base r)..<Suc (unat (maxSeq r))])))"
proof (cases "maxSeq r = - 1")
  case False
  then have "maxSeq r < - 1" by (simp add: word_order.not_eq_extremum)
  then show ?thesis using missing_loop_Some [of "maxSeq r" "frames r" "base r"] False
    by (simp add: Missing_def seq_range_def)
qed (simp add: Missing_def missing_loop_diverges)

text \<open>
  A frame that arrives with an empty payload is stored as a nil slice, and the code cannot
  tell it from a frame that never came: the contiguous prefix stops before it and \<open>Missing\<close> reports
  it as a gap although it was received and is not a duplicate slot any more.
\<close>

theorem empty_frame_looks_missing:
  "let r = fst (Add (fst (Add (fst (Add NewReassembler 5 [1])) 6 [])) 7 [2])
   in frames r 6 = Some [] \<and> snd (Add r 6 [3]) = False \<and> CumAck r = 5 \<and> \<not> Gapless r \<and> Missing r = Some [6]"
  by code_simp

end
