(* ===== verification/Dtls.thy ===== *)
theory Dtls
  imports Kalay_Prelude "HOL-Library.Monad_Syntax"
begin

unbundle bit_operations_syntax

text \<open>
  The DTLS 1.2 primitives of \<open>kalay/dtls.go\<close>: the TLS 1.2 PRF, record framing, handshake
  headers, and the AEAD nonce and additional data. The cryptographic primitives are parameters:
  \<open>hmac secret msg\<close> is HMAC-SHA256, and a cipher is a pair \<open>seal nonce pt aad\<close>,
  \<open>open nonce ct aad\<close>. What the code relies on is named: \<open>hmac32\<close> (the digest has 32 bytes) and
  \<open>aead_ok\<close> (opening with the same nonce and data inverts sealing, with a 16-byte tag).
\<close>

type_synonym hmac = "bytes \<Rightarrow> bytes \<Rightarrow> bytes"
type_synonym sealer = "bytes \<Rightarrow> bytes \<Rightarrow> bytes \<Rightarrow> bytes"
type_synonym opener = "bytes \<Rightarrow> bytes \<Rightarrow> bytes \<Rightarrow> bytes option"

definition hmac32 :: "hmac \<Rightarrow> bool" where
  "hmac32 h \<longleftrightarrow> (\<forall>k m. length (h k m) = 32)"

definition aead_ok :: "sealer \<Rightarrow> opener \<Rightarrow> bool" where
  "aead_ok sl op \<longleftrightarrow> (\<forall>nonce pt aad. length nonce = 12 \<longrightarrow>
     length (sl nonce pt aad) = length pt + 16 \<and> op nonce (sl nonce pt aad) aad = Some pt)"

section \<open>The PRF\<close>

partial_function (option) phash_loop ::
  "hmac \<Rightarrow> bytes \<Rightarrow> bytes \<Rightarrow> nat \<Rightarrow> bytes \<Rightarrow> bytes \<Rightarrow> bytes option" where
  "phash_loop h secret seed n a out =
     (if length out < n
      then let a = h secret a in phash_loop h secret seed n a (out @ h secret (a @ seed))
      else Some (take n out))"

definition PHash :: "hmac \<Rightarrow> bytes \<Rightarrow> bytes \<Rightarrow> nat \<Rightarrow> bytes option" where
  "PHash h secret seed n = phash_loop h secret seed n seed []"

definition PRF :: "hmac \<Rightarrow> bytes \<Rightarrow> string \<Rightarrow> bytes \<Rightarrow> nat \<Rightarrow> bytes option" where
  "PRF h secret label seed n = PHash h secret (str_bytes label @ seed) n"

section \<open>Records\<close>

record DTLSRecord =
  dr_CT :: byte
  dr_Epoch :: u16
  dr_Seq :: u64
  dr_Body :: bytes

function ParseDTLSRecords :: "bytes \<Rightarrow> DTLSRecord list" where
  "ParseDTLSRecords b =
     (if 13 \<le> length b then
        (let l = unat (be_word (take 2 (drop 11 b)) :: u16)
         in if 13 + l > length b then []
            else \<lparr>dr_CT = b ! 0, dr_Epoch = be_word (take 2 (drop 3 b)),
                  dr_Seq = be_word (take 6 (drop 5 b)), dr_Body = take l (drop 13 b)\<rparr>
                 # ParseDTLSRecords (drop (13 + l) b))
      else [])"
  by pat_completeness auto
termination
  by (relation "measure length") auto

declare ParseDTLSRecords.simps [simp del]

definition DTLSRecordRaw :: "byte \<Rightarrow> u16 \<Rightarrow> u64 \<Rightarrow> bytes \<Rightarrow> bytes" where
  "DTLSRecordRaw ct epoch seq payload =
     [ct, 0xfe, 0xfd] @ be_bytes 2 epoch @ be_bytes 6 seq
       @ be_bytes 2 (word_of_nat (length payload) :: u16) @ payload"

definition DTLSHandshakeMsg :: "byte \<Rightarrow> u16 \<Rightarrow> bytes \<Rightarrow> bytes" where
  "DTLSHandshakeMsg typ msgseq body =
     (let l = length body;
          l24 = [word_of_nat (drop_bit 16 l), word_of_nat (drop_bit 8 l), word_of_nat l]
      in [typ] @ l24 @ [ucast (drop_bit 8 msgseq), ucast msgseq] @ [0, 0, 0] @ l24 @ body)"

text \<open>Writing bytes 5 to 10 of a record in place; a shorter slice panics, which is \<open>None\<close>.\<close>

definition PutDTLSSeq :: "bytes \<Rightarrow> u64 \<Rightarrow> bytes option" where
  "PutDTLSSeq rec seq =
     (if 11 \<le> length rec then Some (take 5 rec @ be_bytes 6 seq @ drop 11 rec) else None)"

section \<open>AEAD\<close>

definition AEADNonce :: "bytes \<Rightarrow> u16 \<Rightarrow> u64 \<Rightarrow> bytes" where
  "AEADNonce iv epoch seq =
     (let n = slot 12 iv;
          sn = push_bit 48 (ucast epoch) OR seq
      in fold (\<lambda>i n. n[11 - i := n ! (11 - i) XOR ucast (drop_bit (8 * i) sn)]) [0..<8] n)"

definition AEADAAD :: "u16 \<Rightarrow> u64 \<Rightarrow> byte \<Rightarrow> int \<Rightarrow> bytes" where
  "AEADAAD epoch seq ct len =
     be_bytes 2 epoch @ be_bytes 6 seq @ [ct, 0xfe, 0xfd] @ be_bytes 2 (word_of_int len :: u16)"

definition Seal :: "sealer \<Rightarrow> bytes \<Rightarrow> u16 \<Rightarrow> u64 \<Rightarrow> byte \<Rightarrow> bytes \<Rightarrow> bytes" where
  "Seal sl iv epoch seq ct pt =
     sl (AEADNonce iv epoch seq) pt (AEADAAD epoch seq ct (int (length pt)))"

definition Open :: "opener \<Rightarrow> bytes \<Rightarrow> u16 \<Rightarrow> u64 \<Rightarrow> byte \<Rightarrow> bytes \<Rightarrow> bytes option" where
  "Open op iv epoch seq ct ctxt =
     op (AEADNonce iv epoch seq) ctxt (AEADAAD epoch seq ct (int (length ctxt) - 16))"

section \<open>The PRF returns the requested number of bytes\<close>

text \<open>The RFC 5246 chain: \<open>A(0) = seed\<close>, \<open>A(i+1) = HMAC(secret, A(i))\<close>.\<close>

fun prf_A :: "hmac \<Rightarrow> bytes \<Rightarrow> bytes \<Rightarrow> nat \<Rightarrow> bytes" where
  "prf_A h secret a 0 = a"
| "prf_A h secret a (Suc i) = prf_A h secret (h secret a) i"

definition prf_stream :: "hmac \<Rightarrow> bytes \<Rightarrow> bytes \<Rightarrow> bytes \<Rightarrow> nat \<Rightarrow> bytes" where
  "prf_stream h secret seed a k =
     concat (map (\<lambda>i. h secret (prf_A h secret a (Suc i) @ seed)) [0..<k])"

lemma prf_stream_step:
  "prf_stream h secret seed a (Suc k) =
     h secret (h secret a @ seed) @ prf_stream h secret seed (h secret a) k"
  by (simp add: prf_stream_def map_upt_Suc del: upt_Suc)

lemma phash_loop_rounds:
  assumes "hmac32 h" "length out < n \<Longrightarrow> n - length out \<le> 32 * k"
  shows "phash_loop h secret seed n a out = Some (take n (out @ prf_stream h secret seed a k))"
  using assms(2)
proof (induction k arbitrary: a out)
  case 0
  then have "n \<le> length out" by force
  then show ?case by (subst phash_loop.simps) (simp add: prf_stream_def)
next
  case (Suc k)
  have l: "length (h secret m) = 32" for m using assms(1) by (simp add: hmac32_def)
  show ?case
  proof (cases "length out < n")
    case True
    let ?o = "out @ h secret (h secret a @ seed)"
    have "phash_loop h secret seed n (h secret a) ?o =
        Some (take n (?o @ prf_stream h secret seed (h secret a) k))"
      by (rule Suc.IH) (use Suc.prems [OF True] l in auto)
    with True show ?thesis
      by (subst phash_loop.simps) (simp add: prf_stream_step Let_def)
  next
    case False
    then show ?thesis by (subst phash_loop.simps) simp
  qed
qed

lemma PHash_stream:
  assumes "hmac32 h" "n \<le> 32 * k"
  shows "PHash h secret seed n = Some (take n (prf_stream h secret seed seed k))"
  using phash_loop_rounds [OF assms(1), of "[]" n k] assms(2) by (simp add: PHash_def)

lemma length_prf_stream:
  assumes "hmac32 h"
  shows "length (prf_stream h secret seed a k) = 32 * k"
  using assms by (induction k arbitrary: a)
    (simp_all add: prf_stream_step hmac32_def, simp add: prf_stream_def)

section \<open>Records round-trip\<close>

definition valid_record :: "DTLSRecord \<Rightarrow> bool" where
  "valid_record r \<longleftrightarrow> length (dr_Body r) < 65536 \<and> unat (dr_Seq r) < 2 ^ 48"

definition record_wire :: "DTLSRecord \<Rightarrow> bytes" where
  "record_wire r = DTLSRecordRaw (dr_CT r) (dr_Epoch r) (dr_Seq r) (dr_Body r)"

lemma length_DTLSRecordRaw [wire_len]:
  "length (DTLSRecordRaw ct epoch seq payload) = 13 + length payload"
  by (simp add: DTLSRecordRaw_def)

lemma parse_record_step:
  assumes "13 + l \<le> length b" "unat (be_word (take 2 (drop 11 b)) :: u16) = l"
  shows "ParseDTLSRecords b =
     \<lparr>dr_CT = b ! 0, dr_Epoch = be_word (take 2 (drop 3 b)),
      dr_Seq = be_word (take 6 (drop 5 b)), dr_Body = take l (drop 13 b)\<rparr>
       # ParseDTLSRecords (drop (13 + l) b)"
  using assms by (subst ParseDTLSRecords.simps) (simp add: Let_def)

lemma parse_record_frame:
  assumes "valid_record r"
  shows "ParseDTLSRecords (record_wire r @ rest) = r # ParseDTLSRecords rest"
proof -
  define l where "l = length (dr_Body r)"
  define b where "b = record_wire r @ rest"
  have hdr: "b = [dr_CT r, 0xfe, 0xfd] @ be_bytes 2 (dr_Epoch r) @ be_bytes 6 (dr_Seq r)
      @ be_bytes 2 (word_of_nat l :: u16) @ dr_Body r @ rest"
    by (simp add: b_def record_wire_def DTLSRecordRaw_def l_def)
  have len: "13 + l \<le> length b" by (simp add: b_def record_wire_def wire_len l_def)
  have pl: "unat (be_word (take 2 (drop 11 b)) :: u16) = l"
    using assms by (simp add: hdr valid_record_def l_def)
  have "be_word (be_bytes 6 (dr_Seq r)) = dr_Seq r"
    using assms by (intro be_word_be_bytes_less) (simp add: valid_record_def)
  then have seq: "be_word (take 6 (drop 5 b)) = dr_Seq r"
    by (simp add: hdr)
  have ep: "be_word (take 2 (drop 3 b)) = dr_Epoch r" and b0: "b ! 0 = dr_CT r"
    and body: "take l (drop 13 b) = dr_Body r"
    by (simp_all add: hdr l_def)
  have "13 + l = length (record_wire r)" by (simp add: record_wire_def wire_len l_def)
  then have rest: "drop (13 + l) b = rest" by (simp add: b_def)
  show ?thesis
    using parse_record_step [OF len pl] by (simp add: seq ep b0 body rest flip: b_def)
qed

interpretation dtls: frame_stream record_wire valid_record ParseDTLSRecords
  by unfold_locales (rule parse_record_frame, assumption, simp add: ParseDTLSRecords.simps)

lemma length_DTLSHandshakeMsg [wire_len]:
  "length (DTLSHandshakeMsg typ msgseq body) = 12 + length body"
  by (simp add: DTLSHandshakeMsg_def Let_def)

text \<open>Replaying a record with a new sequence number changes nothing else the parser sees.\<close>

lemma PutDTLSSeq_record:
  "PutDTLSSeq (DTLSRecordRaw ct epoch seq payload) seq' = Some (DTLSRecordRaw ct epoch seq' payload)"
  by (simp add: PutDTLSSeq_def DTLSRecordRaw_def)

section \<open>Nonces\<close>

lemma length_nonce_fold:
  "length (fold (\<lambda>i n. n[f i := g i n]) is n) = length n"
  by (induction "is" arbitrary: n) auto

lemma length_AEADNonce [simp]: "length (AEADNonce iv epoch seq) = 12"
  by (simp add: AEADNonce_def Let_def length_nonce_fold)

definition record_number :: "u16 \<Rightarrow> u64 \<Rightarrow> u64" where
  "record_number epoch seq = push_bit 48 (ucast epoch) OR seq"

lemma AEADNonce_eq:
  "AEADNonce iv epoch seq =
     take 4 (slot 12 iv) @ map2 (XOR) (drop 4 (slot 12 iv)) (be_bytes 8 (record_number epoch seq))"
proof -
  obtain a b c d e f g h i j k l where s: "slot 12 iv = [a, b, c, d, e, f, g, h, i, j, k, l]"
    using length_slot [of 12 iv] by (auto simp: numeral_eq_Suc length_Suc_conv simp del: length_slot)
  show ?thesis
    by (simp add: AEADNonce_def Let_def record_number_def [symmetric] s be_bytes_def le_bytes_def upt_rec)
qed

lemma xor_map2_inject:
  assumes "length xs = length ys" "length ys = length zs"
    and "map2 (XOR) xs ys = map2 (XOR) xs (zs :: bytes)"
  shows "ys = zs"
  using assms
proof (induction xs ys zs rule: list_induct3)
  case (Cons x xs y ys z zs)
  then have "x XOR (x XOR y) = x XOR (x XOR z)" by simp
  then show ?case using Cons by (simp flip: xor.assoc)
qed simp

lemma record_number_inject:
  assumes "unat s < 2 ^ 48" "unat s' < 2 ^ 48" "record_number e s = record_number e' s'"
  shows "e = e' \<and> s = s'"
proof -
  have hi: "\<not> bit t n" if "unat (t :: u64) < 2 ^ 48" "48 \<le> n" for t n
  proof -
    have "take_bit 48 t = t"
      using that(1) by (simp add: unsigned_take_bit_eq take_bit_nat_eq_self word_unat_eq_iff)
    then show ?thesis using that(2) by (metis bit_take_bit_iff not_le)
  qed
  have *: "bit (record_number e s) n \<longleftrightarrow> (if n < 48 then bit s n else bit e (n - 48))"
    if "unat s < 2 ^ 48" "n < 64" for e s n
    using that hi [of s n] by (auto simp: record_number_def bit_simps)
  have "s = s'"
  proof (rule bit_word_eqI)
    fix n assume "n < LENGTH(64)"
    then show "bit s n \<longleftrightarrow> bit s' n"
      using * [of s n e] * [of s' n e'] hi [of s n] hi [of s' n] assms by (cases "n < 48") auto
  qed
  moreover have "e = e'"
  proof (rule bit_word_eqI)
    fix n assume "n < LENGTH(16)"
    then show "bit e n \<longleftrightarrow> bit e' n"
      using * [of s "n + 48" e] * [of s' "n + 48" e'] assms by auto
  qed
  ultimately show ?thesis by simp
qed

lemma AEADNonce_inject:
  assumes "unat s < 2 ^ 48" "unat s' < 2 ^ 48" "AEADNonce iv e s = AEADNonce iv e' s'"
  shows "e = e' \<and> s = s'"
proof -
  have "be_bytes 8 (record_number e s) = be_bytes 8 (record_number e' s')"
    by (rule xor_map2_inject [of "drop 4 (slot 12 iv)"]) (use assms(3) in \<open>auto simp: AEADNonce_eq\<close>)
  then have "(be_word (be_bytes 8 (record_number e s)) :: u64) = be_word (be_bytes 8 (record_number e' s'))"
    by simp
  then have "record_number e s = record_number e' s'" by simp
  with assms show ?thesis by (intro record_number_inject)
qed

lemma Open_Seal:
  assumes "aead_ok sl op"
  shows "Open op iv epoch seq ct (Seal sl iv epoch seq ct pt) = Some pt"
  using assms by (simp add: aead_ok_def Open_def Seal_def)

lemma length_Seal:
  assumes "aead_ok sl op"
  shows "length (Seal sl iv epoch seq ct pt) = length pt + 16"
  using assms by (simp add: aead_ok_def Seal_def)

section \<open>Properties\<close>

text \<open>
  DTLS records round-trip: a datagram that is a sequence of records built with \<open>DTLSRecordRaw\<close>
  parses back into these records (content type, epoch, 48-bit sequence number and body), and
  rewriting the sequence number of the first one with \<open>PutDTLSSeq\<close> changes that number only.
\<close>

theorem dtls_records_roundtrip:
  assumes "list_all valid_record rs"
  shows "ParseDTLSRecords (concat (map (\<lambda>r. DTLSRecordRaw (dr_CT r) (dr_Epoch r) (dr_Seq r) (dr_Body r)) rs)) = rs
    \<and> PutDTLSSeq (DTLSRecordRaw ct epoch seq body) seq' = Some (DTLSRecordRaw ct epoch seq' body)"
  using dtls.parse_concat [OF assms] by (simp add: record_wire_def [abs_def] PutDTLSSeq_record)

theorem dtls_records_roundtrip_witness:
  "ParseDTLSRecords (DTLSRecordRaw 0x17 1 2 [5, 6] @ DTLSRecordRaw 0x16 0 3 []) =
     [\<lparr>dr_CT = 0x17, dr_Epoch = 1, dr_Seq = 2, dr_Body = [5, 6]\<rparr>,
      \<lparr>dr_CT = 0x16, dr_Epoch = 0, dr_Seq = 3, dr_Body = []\<rparr>]"
  using dtls_records_roundtrip [of "[\<lparr>dr_CT = 0x17, dr_Epoch = 1, dr_Seq = 2, dr_Body = [5, 6]\<rparr>,
      \<lparr>dr_CT = 0x16, dr_Epoch = 0, dr_Seq = 3, dr_Body = []\<rparr>]" 0 0 0 "[]" 0]
  by (simp add: valid_record_def)

text \<open>
  C19. The TLS 1.2 PRF terminates and returns exactly the requested number of bytes, and they are the
  prefix of the RFC 5246 stream \<open>HMAC(secret, A(1) + seed) + HMAC(secret, A(2) + seed) + \<dots>\<close> with the
  label prepended to the seed.
\<close>

theorem prf_is_rfc5246:
  assumes "hmac32 h"
  shows "\<exists>out. PRF h secret label seed n = Some out \<and> length out = n \<and>
    out = take n (prf_stream h secret (str_bytes label @ seed) (str_bytes label @ seed) ((n + 31) div 32))"
proof -
  have "n \<le> 32 * ((n + 31) div 32)" by linarith
  then show ?thesis
    using PHash_stream [OF assms, of n "(n + 31) div 32"] by (simp add: PRF_def length_prf_stream [OF assms])
qed

definition toy_hmac :: hmac where "toy_hmac k m = replicate 32 (word_of_nat (length k + length m))"

theorem prf_is_rfc5246_witness: "\<exists>out. PRF toy_hmac [1] ''ab'' [2] 40 = Some out \<and> length out = 40"
  using prf_is_rfc5246 [of toy_hmac "[1]" "''ab''" "[2]" 40] by (auto simp: hmac32_def toy_hmac_def)

text \<open>
  C20. No AEAD nonce is used twice under one key: distinct (epoch, sequence number) pairs within the
  48-bit sequence space give distinct nonces, whatever the IV.
\<close>

theorem aead_nonce_unique:
  assumes "unat s < 2 ^ 48" "unat s' < 2 ^ 48" "(e, s) \<noteq> (e', s')"
  shows "AEADNonce iv e s \<noteq> AEADNonce iv e' s'"
  using AEADNonce_inject [OF assms(1,2)] assms(3) by blast

theorem aead_nonce_unique_witness: "AEADNonce [1, 2, 3] 1 5 \<noteq> AEADNonce [1, 2, 3] 1 6"
  by (rule aead_nonce_unique) simp_all

end
