(* ===== verification/Go_Float.thy ===== *)
theory Go_Float
  imports Complex_Main "HOL-Library.Log_Nat"
begin

text \<open>
  The little of Go's \<open>float64\<close> that the congestion window of \<open>gobackn.go\<close> uses. A float is the
  rational number it denotes; every arithmetic result is rounded by \<open>f64\<close> to 53 significant
  bits, ties to even, as IEEE 754 double precision does in its normal range. The window stays
  between 4 and a number of frames, so overflow, subnormal numbers and signed zeros do not occur
  and are not modelled.

  The lemmas are the ones that make the window arithmetic reliable despite rounding: rounding is
  monotone and idempotent, and halving a float is exact.
\<close>

text \<open>The binary exponent of a positive rational, computed from the bit lengths of its fraction.\<close>

definition ilog2 :: "rat \<Rightarrow> int" where
  "ilog2 x = (case quotient_of x of (p, q) \<Rightarrow>
     let k = bitlen p - bitlen q in if 2 powi k \<le> x then k else k - 1)"

definition round_even :: "rat \<Rightarrow> int" where
  "round_even x =
     (let f = \<lfloor>x\<rfloor>; d = x - of_int f
      in if d < 1 / 2 then f else if d > 1 / 2 then f + 1 else if even f then f else f + 1)"

definition f64 :: "rat \<Rightarrow> rat" where
  "f64 x = (if x \<le> 0 then 0
     else let u = 2 powi (ilog2 x - 52) in of_int (round_even (x / u)) * u)"

section \<open>Exponent\<close>

lemma ilog2_bounds:
  assumes "0 < x"
  shows "2 powi (ilog2 x) \<le> x \<and> x < 2 powi (ilog2 x + 1)"
proof -
  obtain p q where pq: "quotient_of x = (p, q)" by fastforce
  have q: "0 < q" using quotient_of_denom_pos [OF pq] .
  have x: "x = of_int p / of_int q" using quotient_of_div [OF pq] .
  have p: "0 < p" using assms q by (simp add: x zero_less_divide_iff)
  define a b where "a = bitlen p" and "b = bitlen q"
  have pow: "(of_int (2 ^ nat c) :: rat) = 2 powi c" if "0 \<le> c" for c
    using that by (simp add: power_int_def)
  have "0 < a" "0 < b" using p q by (simp_all add: a_def b_def bitlen_alt_def)
  note bp = bitlen_bounds [OF p, folded a_def] and bq = bitlen_bounds [OF q, folded b_def]
  have P: "2 powi (a - 1) \<le> (of_int p :: rat)" "(of_int p :: rat) < 2 powi a"
    using bp \<open>0 < a\<close> pow [of "a - 1"] pow [of a]
    by (metis of_int_le_iff diff_ge_0_iff_ge zless_imp_add1_zle add_0,
        metis of_int_less_iff less_imp_le)
  have Q: "2 powi (b - 1) \<le> (of_int q :: rat)" "(of_int q :: rat) < 2 powi b"
    using bq \<open>0 < b\<close> pow [of "b - 1"] pow [of b]
    by (metis of_int_le_iff diff_ge_0_iff_ge zless_imp_add1_zle add_0,
        metis of_int_less_iff less_imp_le)
  have pp: "(0 :: rat) < 2 powi c" for c by (simp add: zero_less_power_int)
  have "x < 2 powi (a - b + 1)"
  proof -
    have "x < 2 powi a / 2 powi (b - 1)"
      unfolding x by (rule frac_less) (use P Q p q pp in auto)
    also have "\<dots> = 2 powi (a - b + 1)"
      by (simp add: power_int_diff [symmetric] algebra_simps)
    finally show ?thesis .
  qed
  moreover have "2 powi (a - b - 1) \<le> x"
  proof -
    have "2 powi (a - b - 1) = (2 powi (a - 1) / 2 powi b :: rat)"
      by (simp add: power_int_diff [symmetric] algebra_simps)
    also have "\<dots> \<le> x"
      unfolding x by (rule frac_le) (use P Q p q pp in auto)
    finally show ?thesis .
  qed
  ultimately show ?thesis
    by (auto simp: ilog2_def pq Let_def a_def b_def algebra_simps)
qed

lemma powi_strict: "2 powi a < (2 powi b :: rat) \<longleftrightarrow> a < b"
proof -
  have "2 powi c < (2 powi d :: rat)" if "c < d" for c d
    using that by (intro power_int_strict_increasing) auto
  then show ?thesis by (metis linorder_neqE_linordered_idom order_less_asym)
qed

lemma powi_mono: "2 powi a \<le> (2 powi b :: rat) \<longleftrightarrow> a \<le> b"
  using powi_strict [of b a] by (auto simp: not_less [symmetric])

lemma ilog2_unique:
  assumes "0 < x" "2 powi k \<le> x" "x < 2 powi (k + 1)"
  shows "ilog2 x = k"
proof -
  note b = ilog2_bounds [OF assms(1)]
  have "2 powi k < (2 powi (ilog2 x + 1) :: rat)" "2 powi (ilog2 x) < (2 powi (k + 1) :: rat)"
    using assms b by linarith+
  then show ?thesis by (simp add: powi_strict)
qed

lemma ilog2_mono:
  assumes "0 < x" "x \<le> y"
  shows "ilog2 x \<le> ilog2 y"
proof -
  have "2 powi (ilog2 x) < (2 powi (ilog2 y + 1) :: rat)"
    using ilog2_bounds [of x] ilog2_bounds [of y] assms by linarith
  then show ?thesis by (simp add: powi_strict)
qed

section \<open>Rounding to an integer\<close>

lemma round_even_of_int [simp]: "round_even (of_int n) = n"
  by (simp add: round_even_def)

lemma round_even_floor: "round_even x = \<lfloor>x\<rfloor> \<or> round_even x = \<lfloor>x\<rfloor> + 1 \<and> of_int \<lfloor>x\<rfloor> < x"
  by (auto simp: round_even_def Let_def)

lemma round_even_mono:
  assumes "x \<le> y"
  shows "round_even x \<le> round_even y"
proof (cases "\<lfloor>x\<rfloor> = \<lfloor>y\<rfloor>")
  case True
  then show ?thesis using assms by (auto simp: round_even_def Let_def)
next
  case False
  then have "\<lfloor>x\<rfloor> + 1 \<le> \<lfloor>y\<rfloor>" using floor_mono [OF assms] by linarith
  then show ?thesis using round_even_floor [of x] round_even_floor [of y] by auto
qed

lemma round_even_ge: "of_int n \<le> x \<Longrightarrow> n \<le> round_even x"
  using round_even_mono [of "of_int n" x] by simp

lemma round_even_le: "x \<le> of_int n \<Longrightarrow> round_even x \<le> n"
  using round_even_mono [of x "of_int n"] by simp

section \<open>Rounding to a float\<close>

lemma f64_pos_eq:
  "0 < x \<Longrightarrow> f64 x = of_int (round_even (x / 2 powi (ilog2 x - 52))) * 2 powi (ilog2 x - 52)"
  by (simp add: f64_def Let_def)

lemma scaled_bounds:
  assumes "0 < x"
  shows "2 ^ 52 \<le> x / 2 powi (ilog2 x - 52)" "x / 2 powi (ilog2 x - 52) < 2 ^ 53"
proof -
  have u: "(0::rat) < 2 powi (ilog2 x - 52)" by (simp add: zero_less_power_int)
  have "2 ^ 52 * 2 powi (ilog2 x - 52) = (2 powi ilog2 x :: rat)"
    "2 ^ 53 * 2 powi (ilog2 x - 52) = (2 powi (ilog2 x + 1) :: rat)"
    by (simp_all add: power_int_diff power_int_add)
  with ilog2_bounds [OF assms] u
  show "2 ^ 52 \<le> x / 2 powi (ilog2 x - 52)" "x / 2 powi (ilog2 x - 52) < 2 ^ 53"
    by (simp_all add: pos_le_divide_eq pos_divide_less_eq)
qed

lemma f64_binade:
  assumes "0 < x"
  shows "2 powi (ilog2 x) \<le> f64 x" "f64 x \<le> 2 powi (ilog2 x + 1)"
proof -
  let ?u = "2 powi (ilog2 x - 52) :: rat"
  have u: "0 < ?u" by (simp add: zero_less_power_int)
  have "2 ^ 52 \<le> round_even (x / ?u)"
    by (rule round_even_ge) (use scaled_bounds(1) [OF assms] in simp)
  moreover have "round_even (x / ?u) \<le> 2 ^ 53"
    by (rule round_even_le) (use scaled_bounds(2) [OF assms] in simp)
  ultimately have "of_int (2 ^ 52) \<le> (of_int (round_even (x / ?u)) :: rat)"
    "(of_int (round_even (x / ?u)) :: rat) \<le> of_int (2 ^ 53)"
    unfolding of_int_le_iff by simp_all
  then have "2 ^ 52 \<le> (of_int (round_even (x / ?u)) :: rat)"
    "(of_int (round_even (x / ?u)) :: rat) \<le> 2 ^ 53"
    by simp_all
  then have "2 ^ 52 * ?u \<le> f64 x" "f64 x \<le> 2 ^ 53 * ?u"
    using u by (simp_all add: f64_pos_eq [OF assms])
  then show "2 powi (ilog2 x) \<le> f64 x" "f64 x \<le> 2 powi (ilog2 x + 1)"
    by (simp_all add: power_int_diff power_int_add)
qed

lemma f64_pos: "0 < x \<Longrightarrow> 0 < f64 x"
  using f64_binade(1) [of x] by (rule less_le_trans [rotated]) simp_all

lemma f64_mono:
  assumes "0 < x" "x \<le> y"
  shows "f64 x \<le> f64 y"
proof (cases "ilog2 x = ilog2 y")
  case True
  have "x / 2 powi (ilog2 y - 52) \<le> y / 2 powi (ilog2 y - 52)"
    using assms by (simp add: divide_right_mono)
  then have "(of_int (round_even (x / 2 powi (ilog2 y - 52))) :: rat)
      \<le> of_int (round_even (y / 2 powi (ilog2 y - 52)))"
    by (simp add: round_even_mono)
  then show ?thesis
    using assms True by (simp add: f64_pos_eq mult_right_mono)
next
  case False
  then have "ilog2 x + 1 \<le> ilog2 y" using ilog2_mono [OF assms] by simp
  then have "2 powi (ilog2 x + 1) \<le> (2 powi (ilog2 y) :: rat)" by (simp only: powi_mono)
  then show ?thesis using f64_binade [of x] f64_binade [of y] assms by linarith
qed

definition is_f64 :: "rat \<Rightarrow> bool" where
  "is_f64 x \<longleftrightarrow> 0 < x \<and> f64 x = x"

lemma f64_exact:
  assumes "0 < x" "x = of_int n * 2 powi (ilog2 x - 52)"
  shows "is_f64 x"
proof -
  have "x / 2 powi (ilog2 x - 52) = of_int n"
    using assms(2) by (metis nonzero_mult_div_cancel_right power_int_not_zero zero_neq_numeral)
  then show ?thesis
    using assms by (simp add: is_f64_def f64_pos_eq)
qed

lemma is_f64_shape:
  assumes "is_f64 x"
  shows "x = of_int (round_even (x / 2 powi (ilog2 x - 52))) * 2 powi (ilog2 x - 52)"
  using assms f64_pos_eq [of x] by (simp add: is_f64_def)

lemma is_f64_f64:
  assumes "0 < x"
  shows "is_f64 (f64 x)"
proof (cases "f64 x < 2 powi (ilog2 x + 1)")
  case True
  then have "ilog2 (f64 x) = ilog2 x"
    using f64_binade(1) [OF assms] f64_pos [OF assms] by (intro ilog2_unique)
  then show ?thesis
    by (intro f64_exact [where n = "round_even (x / 2 powi (ilog2 x - 52))"] f64_pos assms)
      (simp add: f64_pos_eq [OF assms])
next
  case False
  then have e: "f64 x = 2 powi (ilog2 x + 1)" using f64_binade(2) [OF assms] by simp
  then have l: "ilog2 (f64 x) = ilog2 x + 1"
    using f64_pos [OF assms] by (intro ilog2_unique) (simp_all add: powi_strict del: of_int_add)
  show ?thesis
    by (rule f64_exact [where n = "2 ^ 52"], rule f64_pos [OF assms])
      (unfold l, simp add: e power_int_diff power_int_add)
qed

lemma is_f64_half:
  assumes "is_f64 x"
  shows "is_f64 (x / 2)"
proof -
  have x: "0 < x" using assms by (simp add: is_f64_def)
  have l: "ilog2 (x / 2) = ilog2 x - 1"
    using ilog2_bounds [OF x] x
    by (intro ilog2_unique) (simp_all add: power_int_diff power_int_add)
  show ?thesis
    by (rule f64_exact [where n = "round_even (x / 2 powi (ilog2 x - 52))"], simp add: x)
      (unfold l, subst is_f64_shape [OF assms], simp add: power_int_diff)
qed

lemma f64_ge:
  assumes "is_f64 c" "c \<le> x"
  shows "c \<le> f64 x"
  using f64_mono [of c x] assms by (simp add: is_f64_def)

lemma is_f64_4: "is_f64 4"
proof -
  have "ilog2 4 = 2" by (rule ilog2_unique) (simp_all add: power_int_def)
  then show ?thesis
    by (intro f64_exact [where n = "2 ^ 52"]) (simp_all add: power_int_def power_divide)
qed

lemma is_f64_8: "is_f64 8"
proof -
  have "ilog2 8 = 3" by (rule ilog2_unique) (simp_all add: power_int_def)
  then show ?thesis
    by (intro f64_exact [where n = "2 ^ 52"]) (simp_all add: power_int_def power_divide)
qed

end
