(* ===== verification/Gobackn.thy ===== *)
theory Gobackn
  imports Rdt_Frames Go_Float
begin

text \<open>
  The outbound reliability layer of \<open>kalay/gobackn.go\<close>. The state is the part of Go's \<open>Tunnel\<close>
  that the pump goroutine owns, as the record \<open>gbn\<close>; \<open>Tunnelconn\<close> extends it with the rest of
  the tunnel.

  \<^item> Sequence numbers are 64-bit words. \<open>inflight\<close> is the Go map from sequence number to frame.
  \<^item> Each operation takes the clock value \<open>now\<close> it reads; calls of \<open>time.Now\<close> within one operation
    read the same value.
  \<^item> \<open>cwnd\<close> is a \<open>float64\<close>, its arithmetic rounded by \<open>f64\<close>.
  \<^item> What is sent is appended to \<open>wire\<close>: \<open>sendRDT\<close> emits the frame under the DTLS record
    number \<open>appSeq\<close> and advances it. The bytes of the datagram are defined in \<open>Tunnelconn\<close>.
\<close>

section \<open>State\<close>

definition gbnGiveUp :: int where "gbnGiveUp = 30 * second"
definition rtoMin :: int where "rtoMin = 250 * millisecond"
definition rtoMax :: int where "rtoMax = 3 * second"
definition cwndMin :: int where "cwndMin = 4"
definition cwndInit :: int where "cwndInit = 8"

record outFrame =
  of_typ :: byte
  of_b16 :: byte
  of_conn :: byte
  of_payload :: bytes
  of_sentAt :: int
  of_retx :: bool

record gbn =
  appSeq :: u64
  txSeq :: u64
  inflight :: "u64 \<rightharpoonup> outFrame"
  sendBase :: u64
  srtt :: int
  rttvar :: int
  rto :: int
  lastReTx :: int
  lastProg :: int
  dupAcks :: nat
  retxRun :: nat
  lastAckSeq :: u64
  cwnd :: rat
  cwndCut :: int
  wire :: "(u64 \<times> RDTPacket) list"

section \<open>Operations\<close>

text \<open>\<open>envInt\<close> of \<open>gobackn.go\<close>, over the parsed value: \<open>None\<close> is unset or unparseable.\<close>

definition envInt :: "int option \<Rightarrow> int \<Rightarrow> int" where
  "envInt v def = (case v of Some n \<Rightarrow> if n > 0 then n else def | None \<Rightarrow> def)"

definition sendRDT ::
  "'a gbn_scheme \<Rightarrow> byte \<Rightarrow> byte \<Rightarrow> byte \<Rightarrow> u64 \<Rightarrow> bytes \<Rightarrow> 'a gbn_scheme" where
  "sendRDT t typ b16 connID seq payload =
     t\<lparr>wire := wire t @ [(appSeq t, \<lparr>rp_Type = typ, rp_Seq = seq, rp_B16 = b16,
                          rp_ConnID = connID, rp_Payload = payload\<rparr>)],
       appSeq := appSeq t + 1\<rparr>"

definition initGoBackN :: "int \<Rightarrow> 'a gbn_scheme \<Rightarrow> 'a gbn_scheme" where
  "initGoBackN now t =
     t\<lparr>inflight := Map.empty, sendBase := txSeq t, rto := 400 * millisecond,
       lastReTx := now, lastProg := now, cwnd := of_int cwndInit\<rparr>"

definition cwndFrames :: "int \<Rightarrow> 'a gbn_scheme \<Rightarrow> u64" where
  "cwndFrames sendWindow t =
     (let w = (if 0 \<le> cwnd t then \<lfloor>cwnd t\<rfloor> else \<lceil>cwnd t\<rceil>);
          w = (if w < cwndMin then cwndMin else w);
          w = (if w > sendWindow then sendWindow else w)
      in word_of_int w)"

definition cwndCutHalf :: "int \<Rightarrow> 'a gbn_scheme \<Rightarrow> 'a gbn_scheme" where
  "cwndCutHalf now t =
     (if since now (cwndCut t) < rto t then t
      else let t = t\<lparr>cwnd := f64 (cwnd t / 2)\<rparr>;
               t = (if cwnd t < of_int cwndMin then t\<lparr>cwnd := of_int cwndMin\<rparr> else t)
           in t\<lparr>cwndCut := now\<rparr>)"

definition sendReliable ::
  "int \<Rightarrow> 'a gbn_scheme \<Rightarrow> byte \<Rightarrow> byte \<Rightarrow> byte \<Rightarrow> bytes \<Rightarrow> 'a gbn_scheme" where
  "sendReliable now t typ b16 conn payload =
     (let seq = txSeq t;
          t = sendRDT t typ b16 conn seq payload;
          f = \<lparr>of_typ = typ, of_b16 = b16, of_conn = conn, of_payload = payload,
               of_sentAt = now, of_retx = False\<rparr>;
          t = t\<lparr>inflight := (inflight t)(seq \<mapsto> f)\<rparr>;
          t = t\<lparr>txSeq := txSeq t + 1\<rparr>
      in t\<lparr>lastReTx := now\<rparr>)"

definition sampleRTT :: "'a gbn_scheme \<Rightarrow> int \<Rightarrow> 'a gbn_scheme" where
  "sampleRTT t s =
     (let t = (if srtt t = 0 then t\<lparr>srtt := s, rttvar := go_quot s 2\<rparr>
               else let d = i64 (srtt t - s);
                        d = (if d < 0 then i64 (- d) else d);
                        t = t\<lparr>rttvar := i64 (rttvar t + go_quot (i64 (d - rttvar t)) 4)\<rparr>
                    in t\<lparr>srtt := i64 (srtt t + go_quot (i64 (s - srtt t)) 8)\<rparr>);
          t = t\<lparr>rto := i64 (srtt t + i64 (4 * rttvar t))\<rparr>
      in if rto t < rtoMin then t\<lparr>rto := rtoMin\<rparr>
         else if rto t > rtoMax then t\<lparr>rto := rtoMax\<rparr> else t)"

definition resendOldest :: "int \<Rightarrow> 'a gbn_scheme \<Rightarrow> 'a gbn_scheme" where
  "resendOldest now t =
     (let t = (case inflight t (sendBase t) of
                 Some f \<Rightarrow>
                   let t = sendRDT t (of_typ f) (of_b16 f) (of_conn f) (sendBase t) (of_payload f)
                   in t\<lparr>inflight := (inflight t)(sendBase t \<mapsto> f\<lparr>of_retx := True\<rparr>)\<rparr>
               | None \<Rightarrow> t);
          t = t\<lparr>lastReTx := now\<rparr>
      in cwndCutHalf now t)"

text \<open>
  The deletion loop \<open>for s := t.sendBase; s < newBase; s++\<close> removes exactly the sequence numbers
  from \<open>sendBase\<close> up to \<open>newBase\<close>.
\<close>

definition ackOutbound :: "int \<Rightarrow> 'a gbn_scheme \<Rightarrow> u64 \<Rightarrow> 'a gbn_scheme" where
  "ackOutbound now t ack =
     (let newBase = ack + 1;
          t = (if newBase > sendBase t \<and> newBase \<le> txSeq t then
                 let t = (case inflight t ack of
                            Some f \<Rightarrow> if \<not> of_retx f then sampleRTT t (since now (of_sentAt f)) else t
                          | None \<Rightarrow> t);
                     acked = f64 (of_nat (unat (newBase - sendBase t)));
                     t = t\<lparr>inflight := (\<lambda>s. if sendBase t \<le> s \<and> s < newBase then None
                                            else inflight t s)\<rparr>;
                     t = t\<lparr>sendBase := newBase, lastProg := now, lastReTx := now,
                           dupAcks := 0, retxRun := 0\<rparr>
                 in t\<lparr>cwnd := f64 (cwnd t + f64 (acked / cwnd t))\<rparr>
               else if sendBase t < txSeq t \<and> ack = lastAckSeq t then
                 let t = t\<lparr>dupAcks := dupAcks t + 1\<rparr>
                 in if dupAcks t \<ge> 3 then (resendOldest now t)\<lparr>dupAcks := 0\<rparr> else t
               else t)
      in t\<lparr>lastAckSeq := ack\<rparr>)"

datatype gbn_error = OutboundStalled

definition outboundTick :: "int \<Rightarrow> 'a gbn_scheme \<Rightarrow> 'a gbn_scheme \<times> gbn_error option" where
  "outboundTick now t =
     (if sendBase t \<ge> txSeq t then (t, None)
      else
        let t = (if since now (lastReTx t) > i64 (rto t * 2 ^ min (retxRun t) 4)
                 then let t = resendOldest now t in t\<lparr>retxRun := retxRun t + 1\<rparr> else t)
        in if since now (lastProg t) > gbnGiveUp then (t, Some OutboundStalled) else (t, None))"

section \<open>What each operation leaves alone\<close>

lemma sendRDT_keeps [simp]:
  "txSeq (sendRDT t ty b c s p) = txSeq t" "inflight (sendRDT t ty b c s p) = inflight t"
  "sendBase (sendRDT t ty b c s p) = sendBase t" "rto (sendRDT t ty b c s p) = rto t"
  "cwnd (sendRDT t ty b c s p) = cwnd t" "dupAcks (sendRDT t ty b c s p) = dupAcks t"
  "lastProg (sendRDT t ty b c s p) = lastProg t" "lastReTx (sendRDT t ty b c s p) = lastReTx t"
  "cwndCut (sendRDT t ty b c s p) = cwndCut t" "retxRun (sendRDT t ty b c s p) = retxRun t"
  "lastAckSeq (sendRDT t ty b c s p) = lastAckSeq t" "srtt (sendRDT t ty b c s p) = srtt t"
  "rttvar (sendRDT t ty b c s p) = rttvar t" "appSeq (sendRDT t ty b c s p) = appSeq t + 1"
  "wire (sendRDT t ty b c s p) = wire t @ [(appSeq t, \<lparr>rp_Type = ty, rp_Seq = s, rp_B16 = b,
     rp_ConnID = c, rp_Payload = p\<rparr>)]"
  by (simp_all add: sendRDT_def)

lemma cwndCutHalf_keeps [simp]:
  "txSeq (cwndCutHalf now t) = txSeq t" "inflight (cwndCutHalf now t) = inflight t"
  "sendBase (cwndCutHalf now t) = sendBase t" "rto (cwndCutHalf now t) = rto t"
  "dupAcks (cwndCutHalf now t) = dupAcks t" "wire (cwndCutHalf now t) = wire t"
  "lastProg (cwndCutHalf now t) = lastProg t" "lastReTx (cwndCutHalf now t) = lastReTx t"
  "appSeq (cwndCutHalf now t) = appSeq t" "retxRun (cwndCutHalf now t) = retxRun t"
  "srtt (cwndCutHalf now t) = srtt t" "rttvar (cwndCutHalf now t) = rttvar t"
  "lastAckSeq (cwndCutHalf now t) = lastAckSeq t"
  by (simp_all add: cwndCutHalf_def Let_def)

lemma sampleRTT_keeps [simp]:
  "txSeq (sampleRTT t s) = txSeq t" "inflight (sampleRTT t s) = inflight t"
  "sendBase (sampleRTT t s) = sendBase t" "cwnd (sampleRTT t s) = cwnd t"
  "dupAcks (sampleRTT t s) = dupAcks t" "wire (sampleRTT t s) = wire t"
  "lastProg (sampleRTT t s) = lastProg t" "lastReTx (sampleRTT t s) = lastReTx t"
  "appSeq (sampleRTT t s) = appSeq t" "retxRun (sampleRTT t s) = retxRun t"
  "cwndCut (sampleRTT t s) = cwndCut t" "lastAckSeq (sampleRTT t s) = lastAckSeq t"
  by (simp_all add: sampleRTT_def Let_def)

lemma resendOldest_keeps [simp]:
  "txSeq (resendOldest now t) = txSeq t" "sendBase (resendOldest now t) = sendBase t"
  "rto (resendOldest now t) = rto t" "dupAcks (resendOldest now t) = dupAcks t"
  "lastProg (resendOldest now t) = lastProg t" "retxRun (resendOldest now t) = retxRun t"
  "srtt (resendOldest now t) = srtt t" "rttvar (resendOldest now t) = rttvar t"
  "lastAckSeq (resendOldest now t) = lastAckSeq t" "lastReTx (resendOldest now t) = now"
  by (simp_all add: resendOldest_def Let_def split: option.splits)

definition mark_retx :: "u64 \<Rightarrow> (u64 \<rightharpoonup> outFrame) \<Rightarrow> u64 \<rightharpoonup> outFrame" where
  "mark_retx s m = (case m s of None \<Rightarrow> m | Some f \<Rightarrow> m(s \<mapsto> f\<lparr>of_retx := True\<rparr>))"

lemma resendOldest_inflight: "inflight (resendOldest now t) = mark_retx (sendBase t) (inflight t)"
  by (simp add: resendOldest_def mark_retx_def Let_def split: option.splits)

lemma dom_mark_retx [simp]: "mark_retx s m x \<noteq> None \<longleftrightarrow> m x \<noteq> None"
  "mark_retx s m x = None \<longleftrightarrow> m x = None"
  by (auto simp: mark_retx_def split: option.splits)

lemma dom_eq_mark_retx [simp]: "dom (mark_retx s m) = dom m"
  by (auto simp: mark_retx_def split: option.splits)

definition frame_packet :: "u64 \<Rightarrow> outFrame \<Rightarrow> RDTPacket" where
  "frame_packet s f = \<lparr>rp_Type = of_typ f, rp_Seq = s, rp_B16 = of_b16 f, rp_ConnID = of_conn f,
     rp_Payload = of_payload f\<rparr>"

lemma resendOldest_wire:
  "wire (resendOldest now t) = wire t @
     (case inflight t (sendBase t) of None \<Rightarrow> [] | Some f \<Rightarrow> [(appSeq t, frame_packet (sendBase t) f)])"
  by (simp add: resendOldest_def frame_packet_def Let_def split: option.splits)

text \<open>None of the operations touches the rest of the tunnel.\<close>

lemma sendRDT_more [simp]: "gbn.more (sendRDT t ty b c s p) = gbn.more t"
  by (simp add: sendRDT_def)

lemma cwndCutHalf_more [simp]: "gbn.more (cwndCutHalf now t) = gbn.more t"
  by (simp add: cwndCutHalf_def Let_def)

lemma sampleRTT_more [simp]: "gbn.more (sampleRTT t s) = gbn.more t"
  by (simp add: sampleRTT_def Let_def)

lemma resendOldest_more [simp]: "gbn.more (resendOldest now t) = gbn.more t"
  by (simp add: resendOldest_def Let_def split: option.splits)

lemma initGoBackN_more: "gbn.more (initGoBackN now t) = gbn.more t"
  by (simp add: initGoBackN_def)

lemma sendReliable_more: "gbn.more (sendReliable now t ty b c p) = gbn.more t"
  by (simp add: sendReliable_def Let_def)

lemma ackOutbound_more: "gbn.more (ackOutbound now t ack) = gbn.more t"
  by (simp add: ackOutbound_def Let_def split: option.splits)

lemma outboundTick_more: "gbn.more (fst (outboundTick now t)) = gbn.more t"
  by (simp add: outboundTick_def Let_def)

section \<open>Invariant\<close>

definition gbn_inv :: "'a gbn_scheme \<Rightarrow> bool" where
  "gbn_inv t \<longleftrightarrow>
     sendBase t \<le> txSeq t \<and>
     (\<forall>s. inflight t s \<noteq> None \<longleftrightarrow> sendBase t \<le> s \<and> s < txSeq t) \<and>
     rtoMin \<le> rto t \<and> rto t \<le> rtoMax \<and>
     4 \<le> cwnd t \<and> is_f64 (cwnd t) \<and> dupAcks t < 3"

lemmas dur_defs = second_def millisecond_def rtoMin_def rtoMax_def gbnGiveUp_def

lemma gbn_inv_initGoBackN: "dupAcks t = 0 \<Longrightarrow> gbn_inv (initGoBackN now t)"
  by (auto simp: gbn_inv_def initGoBackN_def dur_defs cwndInit_def is_f64_8)

lemma gbn_inv_wire [simp]: "gbn_inv (t\<lparr>wire := w, appSeq := n\<rparr>) = gbn_inv t"
  by (simp add: gbn_inv_def)

lemma gbn_inv_sendRDT [simp]: "gbn_inv (sendRDT t ty b c s p) = gbn_inv t"
  by (simp add: sendRDT_def)

lemma cwndCutHalf_cwnd:
  "cwnd (cwndCutHalf now t) =
     (if since now (cwndCut t) < rto t then cwnd t else max 4 (f64 (cwnd t / 2)))"
  by (simp add: cwndCutHalf_def Let_def cwndMin_def max_def)

lemma resendOldest_cwnd:
  "cwnd (resendOldest now t) =
     (if since now (cwndCut t) < rto t then cwnd t else max 4 (f64 (cwnd t / 2)))"
  by (simp add: resendOldest_def Let_def cwndCutHalf_cwnd split: option.splits)

lemma sampleRTT_rto: "rtoMin \<le> rto (sampleRTT t s) \<and> rto (sampleRTT t s) \<le> rtoMax"
  by (simp add: sampleRTT_def Let_def dur_defs)

lemma sendReliable_fields [simp]:
  "txSeq (sendReliable now t ty b c p) = txSeq t + 1"
  "sendBase (sendReliable now t ty b c p) = sendBase t"
  "rto (sendReliable now t ty b c p) = rto t" "cwnd (sendReliable now t ty b c p) = cwnd t"
  "dupAcks (sendReliable now t ty b c p) = dupAcks t"
  "lastProg (sendReliable now t ty b c p) = lastProg t"
  "inflight (sendReliable now t ty b c p) = (inflight t)(txSeq t \<mapsto>
     \<lparr>of_typ = ty, of_b16 = b, of_conn = c, of_payload = p, of_sentAt = now, of_retx = False\<rparr>)"
  "wire (sendReliable now t ty b c p) = wire t @ [(appSeq t, \<lparr>rp_Type = ty, rp_Seq = txSeq t,
     rp_B16 = b, rp_ConnID = c, rp_Payload = p\<rparr>)]"
  "appSeq (sendReliable now t ty b c p) = appSeq t + 1"
  by (simp_all add: sendReliable_def Let_def)

lemma gbn_inv_dom: "gbn_inv t \<Longrightarrow> inflight t s \<noteq> None \<longleftrightarrow> sendBase t \<le> s \<and> s < txSeq t"
  by (simp add: gbn_inv_def)

lemma gbn_inv_sendReliable:
  assumes inv: "gbn_inv t" and room: "txSeq t \<noteq> - 1"
  shows "gbn_inv (sendReliable now t ty b c p)"
proof -
  have "sendBase t \<le> txSeq t" using inv by (simp add: gbn_inv_def)
  then have "inflight (sendReliable now t ty b c p) s \<noteq> None \<longleftrightarrow> sendBase t \<le> s \<and> s < txSeq t + 1"
    for s
    using gbn_inv_dom [OF inv, of s] unfolding word_less_Suc [OF room] by auto
  moreover have "sendBase t \<le> txSeq t + 1"
    using \<open>sendBase t \<le> txSeq t\<close> room by (simp add: word_le_nat_alt unat_u64_Suc)
  ultimately show ?thesis
    using inv unfolding gbn_inv_def by (simp del: sendReliable_fields(7))
qed

lemma gbn_inv_resendOldest: "gbn_inv t \<Longrightarrow> gbn_inv (resendOldest now t)"
  by (auto simp: gbn_inv_def resendOldest_inflight resendOldest_cwnd max_def is_f64_4 f64_ge
      intro: is_f64_f64)

lemma gbn_inv_lastAckSeq [simp]: "gbn_inv (t\<lparr>lastAckSeq := x\<rparr>) = gbn_inv t"
  "gbn_inv (t\<lparr>retxRun := n\<rparr>) = gbn_inv t" "gbn_inv (t\<lparr>lastReTx := y\<rparr>) = gbn_inv t"
  by (simp_all add: gbn_inv_def)

lemma gbn_inv_dupAcks: "gbn_inv t \<Longrightarrow> d < 3 \<Longrightarrow> gbn_inv (t\<lparr>dupAcks := d\<rparr>)"
  by (simp add: gbn_inv_def)

lemma resendOldest_dupAcks: "resendOldest now (t\<lparr>dupAcks := d\<rparr>) = (resendOldest now t)\<lparr>dupAcks := d\<rparr>"
  by (simp add: resendOldest_def cwndCutHalf_def sendRDT_def Let_def split: option.splits)

text \<open>The three outcomes of an acknowledgement.\<close>

definition advances :: "'a gbn_scheme \<Rightarrow> u64 \<Rightarrow> bool" where
  "advances t ack \<longleftrightarrow> sendBase t < ack + 1 \<and> ack + 1 \<le> txSeq t"

definition third_dup :: "'a gbn_scheme \<Rightarrow> u64 \<Rightarrow> bool" where
  "third_dup t ack \<longleftrightarrow> \<not> advances t ack \<and> sendBase t < txSeq t \<and> ack = lastAckSeq t \<and> 2 \<le> dupAcks t"

lemma advances_iff: "advances t ack \<longleftrightarrow> ack \<noteq> - 1 \<and> sendBase t \<le> ack \<and> ack < txSeq t"
  by (cases "ack = - 1") (auto simp: advances_def word_less_Suc word_Suc_le)

lemma ackOutbound_keeps [simp]:
  "txSeq (ackOutbound now t ack) = txSeq t" "lastAckSeq (ackOutbound now t ack) = ack"
  by (simp_all add: ackOutbound_def Let_def split: option.splits)

lemma ackOutbound_sendBase:
  "sendBase (ackOutbound now t ack) = (if advances t ack then ack + 1 else sendBase t)"
  by (simp add: ackOutbound_def advances_def Let_def split: option.splits)

lemma ackOutbound_inflight:
  "inflight (ackOutbound now t ack) =
     (if advances t ack then (\<lambda>s. if sendBase t \<le> s \<and> s \<le> ack then None else inflight t s)
      else if third_dup t ack then mark_retx (sendBase t) (inflight t) else inflight t)"
  by (cases "ack = - 1")
    (auto simp: ackOutbound_def advances_def third_dup_def Let_def resendOldest_inflight word_less_Suc
      split: option.splits)

lemma ackOutbound_wire:
  "wire (ackOutbound now t ack) = wire t @
     (if third_dup t ack then
        (case inflight t (sendBase t) of None \<Rightarrow> [] | Some f \<Rightarrow> [(appSeq t, frame_packet (sendBase t) f)])
      else [])"
  by (auto simp: ackOutbound_def advances_def third_dup_def Let_def resendOldest_wire
      split: option.splits)

lemma ackOutbound_cwnd:
  assumes inv: "gbn_inv t" and adv: "advances t ack"
  shows "cwnd t \<le> cwnd (ackOutbound now t ack) \<and> is_f64 (cwnd (ackOutbound now t ack))"
proof -
  let ?c = "cwnd t + f64 (f64 (of_nat (unat (ack + 1 - sendBase t))) / cwnd t)"
  have "ack + 1 - sendBase t \<noteq> 0" using adv by (auto simp: advances_def)
  then have "0 < (of_nat (unat (ack + 1 - sendBase t)) :: rat)"
    unfolding of_nat_0_less_iff unat_gt_0 .
  then have pos: "0 \<le> f64 (f64 (of_nat (unat (ack + 1 - sendBase t))) / cwnd t)"
    using inv by (intro less_imp_le f64_pos divide_pos_pos) (auto simp: gbn_inv_def is_f64_def)
  have "cwnd (ackOutbound now t ack) = f64 ?c"
    using adv by (auto simp: ackOutbound_def advances_def Let_def split: option.splits)
  moreover have "cwnd t \<le> f64 ?c" "is_f64 (f64 ?c)"
    using inv pos by (auto simp: gbn_inv_def is_f64_def intro: f64_ge is_f64_f64 [unfolded is_f64_def, THEN conjunct1]
        is_f64_f64 [unfolded is_f64_def, THEN conjunct2])
  ultimately show ?thesis by simp
qed

lemma gbn_inv_ackOutbound:
  assumes inv: "gbn_inv t"
  shows "gbn_inv (ackOutbound now t ack)"
proof (cases "advances t ack")
  case True
  let ?t = "case inflight t ack of Some f \<Rightarrow>
    if \<not> of_retx f then sampleRTT t (since now (of_sentAt f)) else t | None \<Rightarrow> t"
  note ack = True [unfolded advances_iff]
  have "rto (ackOutbound now t ack) = rto ?t" "dupAcks (ackOutbound now t ack) = 0"
    using True by (auto simp: ackOutbound_def advances_def Let_def split: option.splits)
  moreover have "rtoMin \<le> rto ?t \<and> rto ?t \<le> rtoMax"
    using inv sampleRTT_rto by (auto simp: gbn_inv_def split: option.splits)
  moreover have "inflight (ackOutbound now t ack) s \<noteq> None \<longleftrightarrow> ack + 1 \<le> s \<and> s < txSeq t" for s
    using ack gbn_inv_dom [OF inv, of s] True
    by (auto simp: ackOutbound_inflight word_Suc_le)
  moreover have "ack + 1 \<le> txSeq t" using True by (simp add: advances_def)
  moreover have "4 \<le> cwnd t" using inv by (simp add: gbn_inv_def)
  ultimately show ?thesis
    using True ackOutbound_cwnd [OF inv True, of now]
    unfolding gbn_inv_def ackOutbound_sendBase ackOutbound_keeps by simp
next
  case False
  then show ?thesis
    using inv gbn_inv_resendOldest [OF inv, of now]
    by (auto simp: ackOutbound_def advances_def Let_def resendOldest_dupAcks intro: gbn_inv_dupAcks)
qed

lemma outboundTick_keeps [simp]:
  "txSeq (fst (outboundTick now t)) = txSeq t" "sendBase (fst (outboundTick now t)) = sendBase t"
  "lastProg (fst (outboundTick now t)) = lastProg t" "rto (fst (outboundTick now t)) = rto t"
  by (simp_all add: outboundTick_def Let_def)

lemma gbn_inv_outboundTick: "gbn_inv t \<Longrightarrow> gbn_inv (fst (outboundTick now t))"
  by (simp add: outboundTick_def Let_def gbn_inv_resendOldest)

lemma outboundTick_inflight:
  "inflight (fst (outboundTick now t)) = inflight t \<or>
   inflight (fst (outboundTick now t)) = mark_retx (sendBase t) (inflight t)"
  by (simp add: outboundTick_def Let_def resendOldest_inflight)

definition rto_expired :: "int \<Rightarrow> 'a gbn_scheme \<Rightarrow> bool" where
  "rto_expired now t \<longleftrightarrow> sendBase t < txSeq t \<and> rto t * 2 ^ min (retxRun t) 4 < since now (lastReTx t)"

lemma rto_shift:
  assumes "gbn_inv t"
  shows "i64 (rto t * 2 ^ min n 4) = rto t * 2 ^ min n 4"
proof -
  have "(2::int) ^ min n 4 \<le> 2 ^ 4" by (rule power_increasing) simp_all
  moreover have "0 \<le> rto t" "rto t \<le> 3000000000" using assms by (auto simp: gbn_inv_def dur_defs)
  ultimately have "rto t * 2 ^ min n 4 \<le> 3000000000 * 2 ^ 4" "0 \<le> rto t * 2 ^ min n 4"
    by (intro mult_mono mult_nonneg_nonneg; simp)+
  then show ?thesis by (simp add: i64_def)
qed

lemma outboundTick_wire:
  assumes "gbn_inv t"
  shows "wire (fst (outboundTick now t)) = wire t @
     (if rto_expired now t then [(appSeq t, frame_packet (sendBase t) (the (inflight t (sendBase t))))]
      else [])"
proof -
  have "\<exists>f. inflight t (sendBase t) = Some f" if "sendBase t < txSeq t"
    using gbn_inv_dom [OF assms, of "sendBase t"] that by auto
  then show ?thesis
    by (auto simp: outboundTick_def rto_expired_def Let_def resendOldest_wire rto_shift [OF assms])
qed

lemma outboundTick_error:
  "snd (outboundTick now t) =
     (if sendBase t < txSeq t \<and> gbnGiveUp < since now (lastProg t) then Some OutboundStalled else None)"
  by (auto simp: outboundTick_def Let_def)

section \<open>The congestion window\<close>

lemma cwndFrames_bounds:
  assumes "gbn_inv t" "0 < sendWindow" "sendWindow < 2 ^ 63"
  shows "min 4 sendWindow \<le> uint (cwndFrames sendWindow t) \<and> uint (cwndFrames sendWindow t) \<le> sendWindow"
proof -
  define w where "w = min sendWindow (max 4 \<lfloor>cwnd t\<rfloor>)"
  have "cwndFrames sendWindow t = word_of_int w"
    using assms(1) by (simp add: cwndFrames_def Let_def w_def cwndMin_def gbn_inv_def max_def min_def)
  moreover have "0 \<le> w" "w < 2 ^ 64" using assms by (auto simp: w_def)
  ultimately have "uint (cwndFrames sendWindow t) = w"
    by (simp add: uint_word_of_int)
  then show ?thesis by (auto simp: w_def)
qed

section \<open>Refinement of a sliding window\<close>

text \<open>
  What the layer promises: the list of frames sent and not yet acknowledged. Sending appends to it,
  a cumulative acknowledgement drops a prefix, and nothing else changes it. The locale states that
  contract for any implementation and derives that, over a whole run, what is kept for
  retransmission is exactly what was sent less an acknowledged prefix.
\<close>

datatype ('m, 'a, 'c) win_event = SendEv 'm | AckEv 'a | TickEv 'c

fun sends_of :: "('m, 'a, 'c) win_event list \<Rightarrow> 'm list" where
  "sends_of [] = []"
| "sends_of (SendEv m # es) = m # sends_of es"
| "sends_of (_ # es) = sends_of es"

lemma sends_of_append [simp]: "sends_of (es @ fs) = sends_of es @ sends_of fs"
  by (induction es rule: sends_of.induct) simp_all

locale sliding_window =
  fixes inv :: "'s \<Rightarrow> bool"
    and room :: "'s \<Rightarrow> bool"
    and win :: "'s \<Rightarrow> 'm list"
    and send :: "int \<Rightarrow> 's \<Rightarrow> 'm \<Rightarrow> 's"
    and ack :: "int \<Rightarrow> 's \<Rightarrow> 'a \<Rightarrow> 's"
    and tick :: "int \<Rightarrow> 's \<Rightarrow> 's"
    and freed :: "'s \<Rightarrow> 'a \<Rightarrow> nat"
  assumes inv_send: "inv t \<Longrightarrow> room t \<Longrightarrow> inv (send now t m)"
    and inv_ack: "inv t \<Longrightarrow> inv (ack now t a)"
    and inv_tick: "inv t \<Longrightarrow> inv (tick now t)"
    and win_send: "inv t \<Longrightarrow> room t \<Longrightarrow> win (send now t m) = win t @ [m]"
    and win_ack: "inv t \<Longrightarrow> win (ack now t a) = drop (freed t a) (win t)"
    and win_tick: "inv t \<Longrightarrow> win (tick now t) = win t"
begin

inductive run :: "'s \<Rightarrow> ('m, 'a, unit) win_event list \<Rightarrow> 's \<Rightarrow> bool" where
  run_nil: "run t [] t"
| run_send: "run t es u \<Longrightarrow> room u \<Longrightarrow> run t (es @ [SendEv m]) (send now u m)"
| run_ack: "run t es u \<Longrightarrow> run t (es @ [AckEv a]) (ack now u a)"
| run_tick: "run t es u \<Longrightarrow> run t (es @ [TickEv ()]) (tick now u)"

lemma run_inv: "run t es u \<Longrightarrow> inv t \<Longrightarrow> inv u"
  by (induction rule: run.induct) (simp_all add: inv_send inv_ack inv_tick)

lemma run_window:
  assumes "run t es u" "inv t"
  shows "\<exists>n. n \<le> length (win t @ sends_of es) \<and> win u = drop n (win t @ sends_of es)"
  using assms
proof (induction rule: run.induct)
  case (run_nil t)
  show ?case by (rule exI [of _ 0]) simp
next
  case (run_send t es u m now)
  then obtain n where "n \<le> length (win t @ sends_of es)" "win u = drop n (win t @ sends_of es)"
    by blast
  then show ?case
    using run_inv [OF run_send(1)] run_send by (intro exI [of _ n]) (simp add: win_send)
next
  case (run_ack t es u a now)
  define l where "l = win t @ sends_of es"
  obtain n where n: "win u = drop n l"
    using run_ack by (auto simp: l_def)
  have "drop (freed u a) (drop n l) = drop (min (length l) (freed u a + n)) l"
    by (simp add: min_def)
  with n show ?case
    using run_inv [OF run_ack(1)] run_ack(3)
    by (intro exI [of _ "min (length l) (freed u a + n)"]) (simp add: win_ack l_def del: drop_append)
next
  case (run_tick t es u now)
  then show ?case using run_inv [OF run_tick(1)] by (simp add: win_tick)
qed

end

definition frame_key :: "outFrame \<Rightarrow> byte \<times> byte \<times> byte \<times> bytes" where
  "frame_key f = (of_typ f, of_b16 f, of_conn f, of_payload f)"

definition unacked :: "'a gbn_scheme \<Rightarrow> (byte \<times> byte \<times> byte \<times> bytes) list" where
  "unacked t = map (\<lambda>k. frame_key (the (inflight t (word_of_nat k)))) [unat (sendBase t)..<unat (txSeq t)]"

definition send_key :: "int \<Rightarrow> 'a gbn_scheme \<Rightarrow> byte \<times> byte \<times> byte \<times> bytes \<Rightarrow> 'a gbn_scheme" where
  "send_key now t m = (case m of (ty, b, c, p) \<Rightarrow> sendReliable now t ty b c p)"

definition acked_frames :: "'a gbn_scheme \<Rightarrow> u64 \<Rightarrow> nat" where
  "acked_frames t ack = (if advances t ack then unat ack + 1 - unat (sendBase t) else 0)"

lemma length_unacked: "length (unacked t) = unat (txSeq t) - unat (sendBase t)"
  by (simp add: unacked_def)

lemma unacked_sendReliable:
  assumes "gbn_inv t" "txSeq t \<noteq> - 1"
  shows "unacked (sendReliable now t ty b c p) = unacked t @ [(ty, b, c, p)]"
proof -
  have le: "unat (sendBase t) \<le> unat (txSeq t)"
    using assms(1) by (simp add: gbn_inv_def word_le_nat_alt)
  have ne: "word_of_nat k \<noteq> txSeq t" if "k < unat (txSeq t)" for k
    using that unsigned_less [of "txSeq t", where ?'a = nat]
    by (metis unat_of_nat less_irrefl mod_less order_less_trans)
  show ?thesis
    using le by (auto simp: unacked_def unat_u64_Suc [OF assms(2)] frame_key_def ne)
qed

lemma unacked_mark:
  assumes "gbn_inv t" "inflight u = mark_retx (sendBase t) (inflight t)"
    "sendBase u = sendBase t" "txSeq u = txSeq t"
  shows "unacked u = unacked t"
  using assms by (auto simp: unacked_def mark_retx_def frame_key_def split: option.splits)

lemma unacked_same:
  "inflight u = inflight t \<Longrightarrow> sendBase u = sendBase t \<Longrightarrow> txSeq u = txSeq t \<Longrightarrow> unacked u = unacked t"
  by (simp add: unacked_def)

lemma unacked_ackOutbound:
  assumes "gbn_inv t"
  shows "unacked (ackOutbound now t ack) = drop (acked_frames t ack) (unacked t)"
proof (cases "advances t ack")
  case True
  then have a: "ack \<noteq> - 1" "unat (sendBase t) \<le> unat ack" "unat ack < unat (txSeq t)"
    by (auto simp: advances_iff word_le_nat_alt word_less_nat_alt)
  have "unat (word_of_nat k :: u64) = k" if "k < unat (txSeq t)" for k
    using that unsigned_less [of "txSeq t", where ?'a = nat] by simp
  then show ?thesis
    using True a
    by (simp add: unacked_def ackOutbound_sendBase ackOutbound_inflight acked_frames_def drop_map
        unat_u64_Suc word_le_nat_alt)
next
  case False
  then show ?thesis
    using assms unacked_mark [OF assms, of "ackOutbound now t ack"]
      unacked_same [of "ackOutbound now t ack" t]
    by (cases "third_dup t ack") (simp_all add: acked_frames_def ackOutbound_inflight ackOutbound_sendBase)
qed

lemma unacked_outboundTick:
  assumes "gbn_inv t"
  shows "unacked (fst (outboundTick now t)) = unacked t"
  using outboundTick_inflight [of now t] unacked_mark [OF assms] unacked_same
  by (metis outboundTick_keeps(1,2))

interpretation gw: sliding_window gbn_inv "\<lambda>t. txSeq t \<noteq> - 1" unacked send_key ackOutbound
  "\<lambda>now t. fst (outboundTick now t)" acked_frames
  by unfold_locales
    (auto simp: send_key_def gbn_inv_sendReliable gbn_inv_ackOutbound gbn_inv_outboundTick
      unacked_sendReliable unacked_ackOutbound unacked_outboundTick)

section \<open>Properties\<close>

text \<open>A sender that has sent two frames, for the concrete instances below.\<close>

definition zero_gbn :: gbn where
  "zero_gbn = \<lparr>appSeq = 2, txSeq = 3, inflight = Map.empty, sendBase = 0, srtt = 0, rttvar = 0, rto = 0,
     lastReTx = 0, lastProg = 0, dupAcks = 0, retxRun = 0, lastAckSeq = 0, cwnd = 0, cwndCut = zeroTime, wire = []\<rparr>"

definition two_sent :: gbn where
  "two_sent = sendReliable 2 (sendReliable 1 (initGoBackN 0 zero_gbn) 2 1 9 [65]) 2 1 9 [66]"

lemma gbn_inv_two_sent: "gbn_inv two_sent"
  unfolding two_sent_def
  by (intro gbn_inv_sendReliable gbn_inv_initGoBackN) (simp_all add: zero_gbn_def initGoBackN_def)

lemma two_sent_fields:
  "txSeq two_sent = 5" "sendBase two_sent = 3" "dupAcks two_sent = 0" "lastAckSeq two_sent = 0"
  "lastProg two_sent = 0" "cwnd two_sent = 8" "rto two_sent = 400000000"
  by (simp_all add: two_sent_def initGoBackN_def zero_gbn_def sendReliable_def sendRDT_def Let_def
      cwndInit_def millisecond_def)



text \<open>
  C13. A cumulative acknowledgement frees exactly the frames up to the acknowledged one: those
  above stay buffered unchanged, the base moves to the next number, the duplicate counter and the
  back-off are reset, nothing is transmitted, and the congestion window does not shrink.
  An acknowledgement below the base or at or beyond the next unsent number frees nothing.
\<close>

theorem ack_frees_exactly:
  assumes "gbn_inv t"
  shows "(if ack \<noteq> - 1 \<and> sendBase t \<le> ack \<and> ack < txSeq t then
       inflight (ackOutbound now t ack) = inflight t |` {s. ack < s} \<and>
       sendBase (ackOutbound now t ack) = ack + 1 \<and>
       dupAcks (ackOutbound now t ack) = 0 \<and> retxRun (ackOutbound now t ack) = 0 \<and>
       wire (ackOutbound now t ack) = wire t \<and> cwnd t \<le> cwnd (ackOutbound now t ack)
     else dom (inflight (ackOutbound now t ack)) = dom (inflight t) \<and>
       sendBase (ackOutbound now t ack) = sendBase t)"
proof (cases "advances t ack")
  case True
  note a = True [unfolded advances_iff]
  have "inflight t s = None" if "s < sendBase t" for s
    using gbn_inv_dom [OF assms, of s] that by auto
  then have "inflight (ackOutbound now t ack) = inflight t |` {s. ack < s}"
    using True by (auto simp: ackOutbound_inflight restrict_map_def fun_eq_iff not_le not_less)
  moreover have "dupAcks (ackOutbound now t ack) = 0 \<and> retxRun (ackOutbound now t ack) = 0"
    using True by (auto simp: ackOutbound_def advances_def Let_def split: option.splits)
  moreover have "cwnd t \<le> cwnd (ackOutbound now t ack)"
    using ackOutbound_cwnd [OF assms True] by simp
  ultimately show ?thesis
    using a True by (simp add: ackOutbound_sendBase ackOutbound_wire third_dup_def)
next
  case False
  then show ?thesis
    using False [unfolded advances_iff]
    by (auto simp: ackOutbound_inflight ackOutbound_sendBase dom_eq_mark_retx)
qed

theorem ack_frees_exactly_witness:
  "inflight (ackOutbound 9 two_sent 3) = inflight two_sent |` {s. 3 < s} \<and> sendBase (ackOutbound 9 two_sent 3) = 4"
  using ack_frees_exactly [OF gbn_inv_two_sent, of 3 9] by (simp add: two_sent_fields)

text \<open>
  Fast retransmit: an acknowledgement that repeats the last one and frees nothing is counted,
  and on the third repetition exactly one frame is sent again, the oldest unacknowledged
  one with its original header and payload under the next record number; it is marked as
  retransmitted and the counter restarts. Earlier repetitions transmit nothing.
\<close>

theorem fast_retransmit_oldest:
  assumes "gbn_inv t" "sendBase t < txSeq t" "ack = lastAckSeq t" "ack = - 1 \<or> ack < sendBase t"
  shows "if dupAcks t < 2
     then wire (ackOutbound now t ack) = wire t \<and> dupAcks (ackOutbound now t ack) = dupAcks t + 1
     else (\<exists>f. inflight t (sendBase t) = Some f \<and>
        wire (ackOutbound now t ack) = wire t @ [(appSeq t, frame_packet (sendBase t) f)] \<and>
        inflight (ackOutbound now t ack) = (inflight t)(sendBase t \<mapsto> f\<lparr>of_retx := True\<rparr>) \<and>
        dupAcks (ackOutbound now t ack) = 0)"
proof -
  have na: "\<not> advances t ack" using assms(4) by (auto simp: advances_iff)
  obtain f where f: "inflight t (sendBase t) = Some f"
    using gbn_inv_dom [OF assms(1), of "sendBase t"] assms(2) by auto
  have "dupAcks (ackOutbound now t ack) = (if dupAcks t < 2 then dupAcks t + 1 else 0)"
    using na assms(2,3) by (auto simp: ackOutbound_def advances_def Let_def)
  then show ?thesis
    using na assms(2,3) f
    by (simp add: ackOutbound_wire ackOutbound_inflight third_dup_def mark_retx_def)
qed

theorem fast_retransmit_oldest_witness:
  "let t = two_sent\<lparr>lastAckSeq := 2, dupAcks := 2\<rparr>
   in \<exists>f. wire (ackOutbound 9 t 2) = wire t @ [(appSeq t, frame_packet 3 f)]"
proof -
  have "gbn_inv (two_sent\<lparr>lastAckSeq := 2, dupAcks := 2\<rparr>)"
    using gbn_inv_dupAcks [OF gbn_inv_two_sent, of 2] gbn_inv_two_sent by (simp add: gbn_inv_def)
  from fast_retransmit_oldest [OF this, of 2 9] show ?thesis
    by (auto simp: two_sent_fields Let_def)
qed



text \<open>
  C15. Karn's rule: acknowledging a frame that was retransmitted leaves the round-trip estimate and
  the timeout alone; and whatever sample is taken, the timeout stays between 250 ms and 3 s.
\<close>

theorem karn_and_rto_bounds:
  assumes "gbn_inv t"
  shows "((case inflight t ack of Some f \<Rightarrow> of_retx f | None \<Rightarrow> True) \<longrightarrow>
       srtt (ackOutbound now t ack) = srtt t \<and> rttvar (ackOutbound now t ack) = rttvar t \<and>
       rto (ackOutbound now t ack) = rto t) \<and>
     250 * millisecond \<le> rto (ackOutbound now t ack) \<and> rto (ackOutbound now t ack) \<le> 3 * second"
  using gbn_inv_ackOutbound [OF assms, of now ack]
  by (auto simp: ackOutbound_def Let_def gbn_inv_def rtoMin_def rtoMax_def split: option.splits)

theorem karn_and_rto_bounds_witness:
  "rto (ackOutbound 9 two_sent 77) = rto two_sent"
proof -
  have "inflight two_sent 77 = None"
    using gbn_inv_dom [OF gbn_inv_two_sent, of 77] by (simp add: two_sent_fields)
  then show ?thesis using karn_and_rto_bounds [OF gbn_inv_two_sent, of 77 9] by simp
qed

text \<open>
  The congestion window as a frame count is between 4 (or the ceiling, if that is smaller) and
  the ceiling \<open>sendWindow\<close>; backing off halves the window exactly, never below 4 and at most once
  per timeout.
\<close>

theorem congestion_window_bounds:
  assumes "gbn_inv t" "0 < sendWindow" "sendWindow < 2 ^ 63"
  shows "min 4 sendWindow \<le> uint (cwndFrames sendWindow t) \<and> uint (cwndFrames sendWindow t) \<le> sendWindow \<and>
     cwnd (cwndCutHalf now t) = (if since now (cwndCut t) < rto t then cwnd t else max 4 (cwnd t / 2))"
proof -
  have h: "f64 (cwnd t / 2) = cwnd t / 2"
    using is_f64_half [of "cwnd t"] assms(1) by (simp add: gbn_inv_def is_f64_def)
  show ?thesis using cwndFrames_bounds [OF assms] unfolding cwndCutHalf_cwnd h by simp
qed

theorem congestion_window_bounds_witness:
  "4 \<le> uint (cwndFrames 256 two_sent) \<and> uint (cwndFrames 256 two_sent) \<le> 256"
  using congestion_window_bounds [OF gbn_inv_two_sent, of 256 0] by simp

end
