(* ===== verification/Tunnelconn.thy ===== *)
theory Tunnelconn
  imports Gobackn Reassembler Dtls
begin

unbundle bit_operations_syntax

text \<open>
  The tunnel of \<open>kalay/tunnelconn.go\<close>: the RDT and P2PTunnel set-up, the pump that owns the session
  once the tunnel is ready, the routing of inbound messages, and the operations the rest of the
  program calls (\<open>Read\<close>, \<open>Write\<close>, \<open>OpenChannel\<close>, \<open>Close\<close>, \<dots>).

  \<^item> The record \<open>Tunnel\<close> extends the outbound state \<open>gbn\<close>. Go channels are lists (\<open>writeCh\<close> with its
    capacity 64, \<open>ctrlCh\<close> with 16), \<open>tclosed\<close> says that the channel \<open>closed\<close> is closed, and the
    pump's local variables \<open>pending\<close> and \<open>lastKA\<close> are the fields \<open>pend\<close> and \<open>lastKA\<close>.
  \<^item> \<open>pendingV\<close> is a pointer that the opener and the pump share; the \<open>vOpen\<close> objects live in
    \<open>vheap\<close> and a pointer is an index into it.
  \<^item> The pump iteration is a function of what it reads from outside: the clock, the time since the
    device was last heard, and the batch of RDT packets that \<open>readRDT\<close> returned. Its phases are
    definitions of their own, in the order of the loop body.
  \<^item> An operation that may block returns \<open>Blocks\<close>; Go's choice between two ready cases of a
    \<open>select\<close> is a boolean argument.
  \<^item> Locks only delimit the atomic steps. Debug output is left out.
\<close>

section \<open>State\<close>

datatype tun_error =
    TunnelClosed
  | DeviceSilent
  | OutboundFailed gbn_error
  | ChannelClosed byte
  | OpenInProgress
  | NoChannelReply int
  | ChannelNotOpened int

record vOpen =
  vo_port :: int
  vo_idx :: byte
  vo_sentPortConn :: bool
  vo_done :: bool

record Tunnel = gbn +
  devConn :: byte
  writeCh :: "(byte \<times> bytes) list"
  ctrlCh :: "bytes list"
  tclosed :: bool
  rbuf :: bytes
  rerr :: "tun_error option"
  recv :: Reassembler
  ctrlIdx :: byte
  pbuf :: bytes
  pumpNext :: u64
  pumpStarted :: bool
  lastAdvance :: int
  chans :: "byte \<rightharpoonup> bytes"
  vheap :: "vOpen list"
  pendingV :: "nat option"
  lastIdx :: byte
  nextIdx :: byte
  chanBytes :: "byte \<rightharpoonup> nat"
  pend :: bytes
  lastKA :: int

record tun_cfg =
  maxFrame :: nat
  sendWindow :: int
  livenessTimeout :: int

text \<open>The package variables, from the parsed environment values.\<close>

definition env_cfg :: "int option \<Rightarrow> int option \<Rightarrow> int option \<Rightarrow> tun_cfg" where
  "env_cfg mf sw lt = \<lparr>maxFrame = nat (envInt mf 1024), sendWindow = envInt sw 256,
     livenessTimeout = i64 (envInt lt 15 * second)\<rparr>"

definition tunMyConn :: byte where "tunMyConn = 0x01"

text \<open>The tunnel \<open>OpenTunnel\<close> allocates once the DTLS handshake is done.\<close>

definition newTunnel :: Tunnel where
  "newTunnel = \<lparr>appSeq = 2, txSeq = 0, inflight = Map.empty, sendBase = 0, srtt = 0, rttvar = 0, rto = 0,
     lastReTx = zeroTime, lastProg = zeroTime, dupAcks = 0, retxRun = 0, lastAckSeq = 0, cwnd = 0,
     cwndCut = zeroTime, wire = [], devConn = 0, writeCh = [], ctrlCh = [], tclosed = False,
     rbuf = [], rerr = None, recv = NewReassembler, ctrlIdx = 0x01, pbuf = [], pumpNext = 0,
     pumpStarted = False, lastAdvance = zeroTime, chans = Map.empty, vheap = [], pendingV = None,
     lastIdx = 0, nextIdx = 0, chanBytes = Map.empty, pend = [], lastKA = zeroTime\<rparr>"

section \<open>Datagrams\<close>

text \<open>The DTLS record \<open>sendRDT\<close> hands to the session, and what \<open>readRDT\<close> makes of the datagrams
  that arrive before its read deadline.\<close>

definition rdt_record :: "sealer \<Rightarrow> bytes \<Rightarrow> u64 \<times> RDTPacket \<Rightarrow> bytes" where
  "rdt_record sl iv e = (case e of (n, p) \<Rightarrow> DTLSRecordRaw 0x17 1 n (Seal sl iv 1 n 0x17 (AppendRDT [] p)))"

definition record_packets :: "opener \<Rightarrow> bytes \<Rightarrow> DTLSRecord \<Rightarrow> RDTPacket list" where
  "record_packets op iv r =
     (if dr_Epoch r \<noteq> 1 \<or> dr_CT r \<noteq> 0x17 then []
      else case Open op iv (dr_Epoch r) (dr_Seq r) (dr_CT r) (dr_Body r) of
             None \<Rightarrow> [] | Some pt \<Rightarrow> ParseRDTStream pt)"

definition readRDT :: "opener \<Rightarrow> bytes \<Rightarrow> bytes list \<Rightarrow> RDTPacket list" where
  "readRDT op iv datagrams =
     concat (map (\<lambda>d. concat (map (record_packets op iv) (ParseDTLSRecords d))) datagrams)"

section \<open>Set-up\<close>

definition port_lo :: "int \<Rightarrow> byte" where "port_lo port = word_of_int port"
definition port_hi :: "int \<Rightarrow> byte" where "port_hi port = word_of_int (drop_bit 8 port)"

definition p2pSession :: bytes where
  "p2pSession = [0x07, 0x00, 0x08, 0x00, 0x00, 0x08, 0x03, 0x04, 0x00, 0x00, 0x00, 0x00]"

definition p2pPortConnect :: "byte \<Rightarrow> int \<Rightarrow> bytes" where
  "p2pPortConnect idx port =
     [0x0c, 0x00, 0x06, 0x00, 0xc7, idx, port_lo port, port_hi port, 0x00, 0x00]"

definition p2pConnectAddr :: "byte \<Rightarrow> int \<Rightarrow> bytes" where
  "p2pConnectAddr idx port =
     [0x01, idx, 0x34, 0x00, 0x02, 0x00, port_hi port, port_lo port, 0x7f, 0x00, 0x00, 0x01]
       @ replicate 44 0"

record setup_state =
  su_t :: Tunnel
  synAcked :: bool
  sessionOpen :: bool
  ready :: bool
  su_lastKA :: int

definition setup_send :: "setup_state \<Rightarrow> byte \<Rightarrow> byte \<Rightarrow> byte \<Rightarrow> u64 \<Rightarrow> bytes \<Rightarrow> setup_state" where
  "setup_send s typ b16 c sq p = s\<lparr>su_t := sendRDT (su_t s) typ b16 c sq p\<rparr>"

text \<open>One received frame, the \<open>switch f.Type\<close> of the loop.\<close>

definition setup_frame :: "int \<Rightarrow> RDTPacket \<Rightarrow> setup_state \<Rightarrow> setup_state" where
  "setup_frame port f s =
     (let dc = devConn (su_t s); pl = rp_Payload f in
      if rp_Type f = 0x01 then
        (if dc = 0 then s\<lparr>su_t := (su_t s)\<lparr>devConn := rp_ConnID f\<rparr>\<rparr> else s)
      else if rp_Type f = 0x41 then
        (if \<not> synAcked s then setup_send (s\<lparr>synAcked := True\<rparr>) 0x02 0x01 dc 0 p2pSession else s)
      else if rp_Type f = 0x02 then
        (let s = setup_send s 0x46 0x01 dc (rp_Seq f) [] in
         if length pl \<ge> 2 \<and> pl ! 0 = 0x08 \<and> pl ! 1 = 0x00 then
           (if \<not> sessionOpen s
            then setup_send (s\<lparr>sessionOpen := True\<rparr>) 0x02 0x01 dc 1 (p2pPortConnect 0x01 port) else s)
         else if length pl \<ge> 4 \<and> pl ! 0 = 0x0d then
           (if \<not> ready s
            then setup_send (s\<lparr>ready := True\<rparr>) 0x02 0x01 dc 2 (p2pConnectAddr 0x01 port) else s)
         else s)
      else s)"

definition setup_keepalive :: "int \<Rightarrow> setup_state \<Rightarrow> setup_state" where
  "setup_keepalive now s =
     (if since now (su_lastKA s) > 300 * millisecond then
        let s = setup_send s 0x01 0x00 tunMyConn 0 [];
            s = (if devConn (su_t s) \<noteq> 0 \<and> \<not> ready s
                 then setup_send s 0x41 0x00 (devConn (su_t s)) 0 [] else s)
        in s\<lparr>su_lastKA := now\<rparr>
      else s)"

fun setup_loop :: "int \<Rightarrow> int \<Rightarrow> (int \<times> RDTPacket list) list \<Rightarrow> setup_state \<Rightarrow> setup_state" where
  "setup_loop port deadline [] s = s"
| "setup_loop port deadline ((now, batch) # its) s =
     (if ready s \<or> \<not> now < deadline then s
      else setup_loop port deadline its (fold (setup_frame port) batch (setup_keepalive now s)))"

definition setup_tunnel :: "int \<Rightarrow> int \<Rightarrow> (int \<times> RDTPacket list) list \<Rightarrow> Tunnel \<Rightarrow> tun_error + Tunnel" where
  "setup_tunnel now0 port its t =
     (let s = setup_loop port (now0 + 20 * second) its
                \<lparr>su_t = t, synAcked = False, sessionOpen = False, ready = False, su_lastKA = now0 - second\<rparr>
      in if \<not> ready s then Inl (ChannelNotOpened port) else Inr ((su_t s)\<lparr>txSeq := 3\<rparr>))"

section \<open>Routing\<close>

definition closeT :: "Tunnel \<Rightarrow> Tunnel" where "closeT t = t\<lparr>tclosed := True\<rparr>"

definition set_rerr :: "tun_error \<Rightarrow> Tunnel \<Rightarrow> Tunnel" where
  "set_rerr e t = (if rerr t = None then t\<lparr>rerr := Some e\<rparr> else t)"

definition fail :: "tun_error \<Rightarrow> Tunnel \<Rightarrow> Tunnel" where
  "fail e t = closeT (set_rerr e t)"

definition route_data :: "byte \<Rightarrow> bytes \<Rightarrow> Tunnel \<Rightarrow> Tunnel" where
  "route_data c d t =
     (let t = t\<lparr>chanBytes := (chanBytes t)(c \<mapsto> (case chanBytes t c of None \<Rightarrow> 0 | Some n \<Rightarrow> n) + length d)\<rparr>
      in if c = ctrlIdx t then t\<lparr>rbuf := rbuf t @ d\<rparr>
         else case chans t c of
                Some b \<Rightarrow> t\<lparr>chans := (chans t)(c \<mapsto> b @ d)\<rparr>
              | None \<Rightarrow> t)"

definition route_created :: "int \<Rightarrow> Tunnel \<Rightarrow> Tunnel" where
  "route_created now t =
     (case pendingV t of
        None \<Rightarrow> t
      | Some i \<Rightarrow>
          let pv = vheap t ! i in
          if vo_sentPortConn pv then
            let t = sendReliable now t 0x02 0x01 (devConn t) (p2pConnectAddr (vo_idx pv) (vo_port pv));
                t = t\<lparr>pendingV := None\<rparr>
            in t\<lparr>vheap := (vheap t)[i := pv\<lparr>vo_done := True\<rparr>]\<rparr>
          else t)"

definition route :: "int \<Rightarrow> PTunMsg \<Rightarrow> Tunnel \<Rightarrow> Tunnel" where
  "route now m t =
     (if pm_Type m = 0x02 then route_data (pm_Chan m) (pm_Data m) t
      else if pm_Type m = 0x0d then route_created now t
      else t)"

section \<open>The pump\<close>

definition send_ack :: "Tunnel \<Rightarrow> Tunnel" where
  "send_ack t = sendRDT t 0x46 0x01 (devConn t) (pumpNext t - 1) []"

definition pump_keepalive :: "int \<Rightarrow> Tunnel \<Rightarrow> Tunnel" where
  "pump_keepalive now t =
     (if since now (lastKA t) > 400 * millisecond then
        let t = sendRDT t 0x01 0x00 tunMyConn 0 [];
            t = (if pumpStarted t \<and> pumpNext t > 0 then send_ack t else t)
        in t\<lparr>lastKA := now\<rparr>
      else t)"

definition pump_open :: "int \<Rightarrow> Tunnel \<Rightarrow> Tunnel" where
  "pump_open now t =
     (case pendingV t of
        None \<Rightarrow> t
      | Some i \<Rightarrow>
          let pv = vheap t ! i in
          if \<not> vo_sentPortConn pv then
            let t = sendReliable now t 0x02 0x01 (devConn t) (p2pPortConnect (vo_idx pv) (vo_port pv))
            in t\<lparr>vheap := (vheap t)[i := pv\<lparr>vo_sentPortConn := True\<rparr>]\<rparr>
          else t)"

definition pump_ctrl :: "int \<Rightarrow> Tunnel \<Rightarrow> Tunnel" where
  "pump_ctrl now t =
     (fold (\<lambda>cb t. sendReliable now t 0x02 0x01 (devConn t) cb) (ctrlCh t) t)\<lparr>ctrlCh := []\<rparr>"

text \<open>The header the pump writes before each queued chunk: \<open>byte(len(p)), byte(len(p)>>8)\<close>.\<close>

definition chunk_bytes :: "byte \<Rightarrow> bytes \<Rightarrow> bytes" where
  "chunk_bytes idx p = [0x02, idx, lo_byte (length p), hi_byte (length p)] @ p"

fun accum :: "nat \<Rightarrow> bytes \<Rightarrow> (byte \<times> bytes) list \<Rightarrow> bytes \<times> (byte \<times> bytes) list" where
  "accum limit b [] = (b, [])"
| "accum limit b ((idx, p) # q) =
     (if length b < limit then accum limit (b @ chunk_bytes idx p) q else (b, (idx, p) # q))"

definition pump_accum :: "tun_cfg \<Rightarrow> Tunnel \<Rightarrow> Tunnel" where
  "pump_accum c t =
     (let (b, q) = accum (nat (sendWindow c) * maxFrame c) (pend t) (writeCh t)
      in t\<lparr>pend := b, writeCh := q\<rparr>)"

definition window_open :: "tun_cfg \<Rightarrow> Tunnel \<Rightarrow> bool" where
  "window_open c t \<longleftrightarrow> txSeq t - sendBase t < cwndFrames (sendWindow c) t"

definition frame_step :: "tun_cfg \<Rightarrow> int \<Rightarrow> Tunnel \<Rightarrow> Tunnel" where
  "frame_step c now t =
     (let n = min (maxFrame c) (length (pend t))
      in (sendReliable now t 0x02 0x01 (devConn t) (take n (pend t)))\<lparr>pend := drop n (pend t)\<rparr>)"

lemma frame_step_fields [simp]:
  "txSeq (frame_step c now t) = txSeq t + 1" "sendBase (frame_step c now t) = sendBase t"
  "cwnd (frame_step c now t) = cwnd t"
  "pend (frame_step c now t) = drop (min (maxFrame c) (length (pend t))) (pend t)"
  by (simp_all add: frame_step_def Let_def)

lemma frame_step_cwndFrames [simp]: "cwndFrames w (frame_step c now t) = cwndFrames w t"
  by (simp add: cwndFrames_def)

function pump_frame :: "tun_cfg \<Rightarrow> int \<Rightarrow> Tunnel \<Rightarrow> Tunnel" where
  "pump_frame c now t =
     (if pend t \<noteq> [] \<and> window_open c t then pump_frame c now (frame_step c now t) else t)"
  by pat_completeness auto
termination
proof (relation "measure (\<lambda>(c, now, t). unat (cwndFrames (sendWindow c) t) - unat (txSeq t - sendBase t))")
  fix c now t
  assume "pend t \<noteq> [] \<and> window_open c t"
  then have l: "txSeq t - sendBase t < cwndFrames (sendWindow c) t" by (simp add: window_open_def)
  then have "txSeq t - sendBase t \<noteq> - 1" by (metis word_order.extremum_strict)
  then have "unat (txSeq t - sendBase t + 1) = Suc (unat (txSeq t - sendBase t))" by (rule unat_u64_Suc)
  moreover have "txSeq t + 1 - sendBase t = txSeq t - sendBase t + 1" by simp
  ultimately show "((c, now, frame_step c now t), c, now, t)
      \<in> measure (\<lambda>(c, now, t). unat (cwndFrames (sendWindow c) t) - unat (txSeq t - sendBase t))"
    using l unfolding word_less_nat_alt in_measure prod.case frame_step_fields frame_step_cwndFrames
    by presburger
qed simp

declare pump_frame.simps [simp del]

definition inbound1 :: "int \<Rightarrow> RDTPacket \<Rightarrow> Tunnel \<Rightarrow> Tunnel" where
  "inbound1 now f t =
     (if rp_Type f \<noteq> 0x02 then
        (if rp_Type f = 0x46 then ackOutbound now t (rp_Seq f) else t)
      else t\<lparr>recv := fst (Add (recv t) (rp_Seq f) (rp_Payload f))\<rparr>)"

definition pump_inbound :: "int \<Rightarrow> RDTPacket list \<Rightarrow> Tunnel \<Rightarrow> Tunnel" where
  "pump_inbound now batch t = fold (inbound1 now) batch t"

definition pump_start :: "int \<Rightarrow> Tunnel \<Rightarrow> Tunnel" where
  "pump_start now t =
     (if \<not> pumpStarted t \<and> Started (recv t)
      then t\<lparr>pumpNext := Base (recv t), pumpStarted := True, lastAdvance := now\<rparr> else t)"

definition pump_drain :: "int \<Rightarrow> Tunnel \<Rightarrow> Tunnel" where
  "pump_drain now t =
     (let before = pumpNext t;
          (r, nx, pb) = drain (recv t) (pumpNext t) (pbuf t);
          t = t\<lparr>recv := r, pumpNext := nx, pbuf := pb\<rparr>
      in if nx \<noteq> before then send_ack (t\<lparr>lastAdvance := now\<rparr>) else t)"

definition pump_demux :: "int \<Rightarrow> Tunnel \<Rightarrow> Tunnel" where
  "pump_demux now t =
     (let (ms, off) = PTunDemux_Parse (pbuf t) 0;
          t = fold (route now) ms t
      in if off > 0 then t\<lparr>pbuf := drop off (pbuf t)\<rparr> else t)"

definition pump_stall :: "int \<Rightarrow> Tunnel \<Rightarrow> Tunnel" where
  "pump_stall now t =
     (if pumpStarted t \<and> since now (lastAdvance t) > 2 * second then
        let mx = MaxSeq (recv t);
            t = (if mx \<ge> pumpNext t
                 then (if pumpNext t > 0 then send_ack (send_ack t) else t)
                 else (if pumpNext t > 0 then send_ack t else t))
        in t\<lparr>lastAdvance := now - 1500 * millisecond\<rparr>
      else t)"

definition pump_consume :: "int \<Rightarrow> Tunnel \<Rightarrow> Tunnel" where
  "pump_consume now t =
     (let t = pump_start now t
      in if pumpStarted t then pump_stall now (pump_demux now (pump_drain now t)) else t)"

text \<open>The deferred function of \<open>pump\<close>.\<close>

definition pump_exit :: "Tunnel \<Rightarrow> Tunnel" where
  "pump_exit t = set_rerr TunnelClosed t"

text \<open>One iteration; the boolean says whether the loop goes on.\<close>

definition pump_send :: "tun_cfg \<Rightarrow> int \<Rightarrow> Tunnel \<Rightarrow> Tunnel" where
  "pump_send c now t =
     pump_frame c now (pump_accum c (pump_ctrl now (pump_open now (pump_keepalive now t))))"

definition pump_iter ::
  "tun_cfg \<Rightarrow> int \<Rightarrow> int \<Rightarrow> RDTPacket list \<Rightarrow> Tunnel \<Rightarrow> Tunnel \<times> bool" where
  "pump_iter c now sinceRx batch t =
     (if tclosed t then (pump_exit t, False)
      else if livenessTimeout c > 0 \<and> sinceRx > livenessTimeout c
      then (pump_exit (fail DeviceSilent t), False)
      else
        let t = pump_inbound now batch (pump_send c now t)
        in case outboundTick now t of
             (t, Some e) \<Rightarrow> (pump_exit (fail (OutboundFailed e) t), False)
           | (t, None) \<Rightarrow> (pump_consume now t, True))"

definition pump_init :: "int \<Rightarrow> Tunnel \<Rightarrow> Tunnel" where
  "pump_init now t = (initGoBackN now t)\<lparr>lastKA := now, pend := []\<rparr>"

fun pump_loop :: "tun_cfg \<Rightarrow> (int \<times> int \<times> RDTPacket list) list \<Rightarrow> Tunnel \<Rightarrow> Tunnel" where
  "pump_loop c [] t = t"
| "pump_loop c ((now, rx, batch) # ins) t =
     (case pump_iter c now rx batch t of
        (t, True) \<Rightarrow> pump_loop c ins t
      | (t, False) \<Rightarrow> t)"

definition pump :: "tun_cfg \<Rightarrow> int \<Rightarrow> (int \<times> int \<times> RDTPacket list) list \<Rightarrow> Tunnel \<Rightarrow> Tunnel" where
  "pump c now0 ins t = pump_loop c ins (pump_init now0 t)"

section \<open>Operations of the tunnel's clients\<close>

datatype 'a io = Blocks | Returns 'a | Fails tun_error

definition ChannelByteStats :: "Tunnel \<Rightarrow> byte \<rightharpoonup> nat" where
  "ChannelByteStats t = chanBytes t"

definition ActiveChannelIdx :: "Tunnel \<Rightarrow> byte" where
  "ActiveChannelIdx t = lastIdx t"

definition dropChan :: "byte \<Rightarrow> Tunnel \<Rightarrow> Tunnel" where
  "dropChan idx t = t\<lparr>chans := (chans t)(idx := None)\<rparr>"

text \<open>\<open>OpenChannel\<close> up to its \<open>select\<close>: the pointer to the pending open, or the refusal. The two
  critical sections (under \<open>povmu\<close> and \<open>vmu\<close>) are one step.\<close>

definition OpenChannel_start :: "int \<Rightarrow> Tunnel \<Rightarrow> Tunnel \<times> (tun_error + nat)" where
  "OpenChannel_start port t =
     (if pendingV t \<noteq> None then (t, Inl OpenInProgress)
      else
        let t = (if nextIdx t < 0x02 then t\<lparr>nextIdx := 0x02\<rparr> else t);
            idx = nextIdx t;
            t = t\<lparr>nextIdx := nextIdx t + 1\<rparr>;
            t = (if nextIdx t = 0xff \<or> nextIdx t < 0x02 then t\<lparr>nextIdx := 0x02\<rparr> else t);
            t = t\<lparr>lastIdx := idx\<rparr>;
            pv = length (vheap t);
            t = t\<lparr>vheap := vheap t @ [\<lparr>vo_port = port, vo_idx = idx, vo_sentPortConn = False, vo_done = False\<rparr>],
                  pendingV := Some pv\<rparr>
        in (t\<lparr>chans := (chans t)(idx \<mapsto> [])\<rparr>, Inr pv))"

text \<open>The three ways its \<open>select\<close> can end.\<close>

datatype open_outcome = OpenDone | OpenClosed | OpenTimeout

definition OpenChannel_finish :: "nat \<Rightarrow> open_outcome \<Rightarrow> Tunnel \<Rightarrow> Tunnel \<times> byte io" where
  "OpenChannel_finish pv oc t =
     (let v = vheap t ! pv in
      case oc of
        OpenDone \<Rightarrow> if vo_done v then (t, Returns (vo_idx v)) else (t, Blocks)
      | OpenClosed \<Rightarrow> if tclosed t then (dropChan (vo_idx v) t, Fails TunnelClosed) else (t, Blocks)
      | OpenTimeout \<Rightarrow>
          let t = (if pendingV t = Some pv then t\<lparr>pendingV := None\<rparr> else t)
          in (dropChan (vo_idx v) t, Fails (NoChannelReply (vo_port v))))"

definition SendTunnelCtrl :: "bool \<Rightarrow> bytes \<Rightarrow> Tunnel \<Rightarrow> Tunnel \<times> unit io" where
  "SendTunnelCtrl pick payload t =
     (if length (ctrlCh t) < 16 \<and> \<not> (tclosed t \<and> pick)
      then (t\<lparr>ctrlCh := ctrlCh t @ [payload]\<rparr>, Returns ())
      else if tclosed t then (t, Returns ()) else (t, Blocks))"

definition chanConn_Read :: "byte \<Rightarrow> nat \<Rightarrow> Tunnel \<Rightarrow> Tunnel \<times> bytes io" where
  "chanConn_Read idx n t =
     (case chans t idx of
        None \<Rightarrow> (t, Fails (ChannelClosed idx))
      | Some b \<Rightarrow>
          if b \<noteq> [] then (t\<lparr>chans := (chans t)(idx \<mapsto> drop n b)\<rparr>, Returns (take n b))
          else if tclosed t then (t, Fails TunnelClosed) else (t, Blocks))"

definition Read :: "nat \<Rightarrow> Tunnel \<Rightarrow> Tunnel \<times> bytes io" where
  "Read n t =
     (if rbuf t = [] then (case rerr t of Some e \<Rightarrow> (t, Fails e) | None \<Rightarrow> (t, Blocks))
      else (t\<lparr>rbuf := drop n (rbuf t)\<rparr>, Returns (take n (rbuf t))))"

definition writeChan :: "bool \<Rightarrow> byte \<Rightarrow> bytes \<Rightarrow> Tunnel \<Rightarrow> Tunnel \<times> nat io" where
  "writeChan pick idx p t =
     (if length (writeCh t) < 64 \<and> \<not> (tclosed t \<and> pick)
      then (t\<lparr>writeCh := writeCh t @ [(idx, p)]\<rparr>, Returns (length p))
      else if tclosed t then (t, Fails TunnelClosed) else (t, Blocks))"

definition Write :: "bool \<Rightarrow> bytes \<Rightarrow> Tunnel \<Rightarrow> Tunnel \<times> nat io" where
  "Write pick p t = writeChan pick (ctrlIdx t) p t"

definition chanConn_Write :: "bool \<Rightarrow> byte \<Rightarrow> bytes \<Rightarrow> Tunnel \<Rightarrow> Tunnel \<times> nat io" where
  "chanConn_Write pick idx p t = writeChan pick idx p t"

definition chanConn_Close :: "byte \<Rightarrow> Tunnel \<Rightarrow> Tunnel" where
  "chanConn_Close idx t = dropChan idx t"

text \<open>\<open>Close\<close>; closing the session is \<open>Session_Close\<close> of the session's own theory.\<close>

definition Close :: "Tunnel \<Rightarrow> Tunnel" where
  "Close t = set_rerr TunnelClosed (closeT t)"

section \<open>ServerHello extensions\<close>

definition be16_at :: "bytes \<Rightarrow> nat \<Rightarrow> nat" where
  "be16_at b p = unat (be_word (take 2 (drop p b)) :: u16)"

function ext_loop :: "bytes \<Rightarrow> nat \<Rightarrow> nat \<Rightarrow> nat \<Rightarrow> bool" where
  "ext_loop b want fin p =
     (if p + 4 \<le> fin \<and> p + 4 \<le> length b then
        (if be16_at b p = want then True else ext_loop b want fin (p + 4 + be16_at b (p + 2)))
      else False)"
  by pat_completeness auto
termination by (relation "measure (\<lambda>(b, want, fin, p). fin - p)") auto

declare ext_loop.simps [simp del]

definition serverHelloHasExt :: "bytes \<Rightarrow> u16 \<Rightarrow> bool" where
  "serverHelloHasExt shBody want =
     (if length shBody < 38 then False
      else let sid = unat (shBody ! 34); p = 35 + sid + 3
           in if p + 2 > length shBody then False
              else ext_loop shBody (unat want) (p + 2 + be16_at shBody p) (p + 2))"

section \<open>Properties\<close>

lemma record_packets_own:
  assumes "aead_ok sl op" "length (rp_Payload p) \<le> 65000"
  shows "record_packets op iv \<lparr>dr_CT = 0x17, dr_Epoch = 1, dr_Seq = n, dr_Body = Seal sl iv 1 n 0x17 (AppendRDT [] p)\<rparr> = [p]"
proof -
  have "valid_rdt p" using assms(2) by (simp add: valid_rdt_def)
  then show ?thesis
    using rdt.parse_frame [of p "[]"] by (simp add: record_packets_def Open_Seal [OF assms(1)] rdt.parse_nil)
qed

lemma rdt_record_parse:
  assumes "aead_ok sl op" "length (rp_Payload p) \<le> 65000" "unat n < 2 ^ 48"
  shows "ParseDTLSRecords (rdt_record sl iv (n, p)) =
    [\<lparr>dr_CT = 0x17, dr_Epoch = 1, dr_Seq = n, dr_Body = Seal sl iv 1 n 0x17 (AppendRDT [] p)\<rparr>]"
proof -
  let ?r = "\<lparr>dr_CT = 0x17, dr_Epoch = 1, dr_Seq = n, dr_Body = Seal sl iv 1 n 0x17 (AppendRDT [] p)\<rparr>"
  have "valid_record ?r"
    using assms by (simp add: valid_record_def length_Seal [OF assms(1)] wire_len RDTHdrLen_def)
  from dtls.parse_frame [OF this, of "[]"] show ?thesis
    by (simp add: rdt_record_def record_wire_def dtls.parse_nil)
qed

text \<open>
  C17. What one side sends the other reads: a sequence of RDT packets, each sealed by \<open>sendRDT\<close> into
  a DTLS record under its own record number, is recovered by \<open>readRDT\<close> packet for packet, with an
  AEAD that opens what it sealed.
\<close>

theorem sealed_packets_roundtrip:
  assumes "aead_ok sl op" "\<forall>(n, p)\<in>set es. length (rp_Payload p) \<le> 65000 \<and> unat n < 2 ^ 48"
  shows "readRDT op iv (map (rdt_record sl iv) es) = map snd es"
  using assms(2)
  by (induction es)
    (auto simp: readRDT_def rdt_record_parse [OF assms(1)] record_packets_own [OF assms(1)])

definition toy_seal :: sealer where "toy_seal nonce pt aad = map (\<lambda>b. b + 1) pt @ replicate 16 7"
definition toy_open :: opener where
  "toy_open nonce ct aad = Some (map (\<lambda>b. b - 1) (take (length ct - 16) ct))"

theorem sealed_packets_roundtrip_witness:
  "let p = \<lparr>rp_Type = 2, rp_Seq = 3, rp_B16 = 1, rp_ConnID = 7, rp_Payload = [65]\<rparr>
   in readRDT toy_open [] (map (rdt_record toy_seal []) [(2, p), (3, p)]) = [p, p]"
proof -
  have "aead_ok toy_seal toy_open" by (simp add: aead_ok_def toy_seal_def toy_open_def comp_def)
  from sealed_packets_roundtrip [OF this, of "[(2, \<lparr>rp_Type = 2, rp_Seq = 3, rp_B16 = 1, rp_ConnID = 7, rp_Payload = [65]\<rparr>),
      (3, \<lparr>rp_Type = 2, rp_Seq = 3, rp_B16 = 1, rp_ConnID = 7, rp_Payload = [65]\<rparr>)]" "[]"]
  show ?thesis by (simp add: Let_def)
qed

end
