(* ===== verification/Tunnel_Inv.thy ===== *)
theory Tunnel_Inv
  imports Tunnelconn
begin

text \<open>
  The invariant of a running tunnel and the step relation of everything that can happen to it: the
  phases of the pump, in any order, interleaved with the operations of its clients. The real
  pump runs its phases in one order (\<open>pump_iter_steps\<close>), so what holds along every run of
  \<open>tun_step\<close> holds of it under any interleaving with \<open>Read\<close>, \<open>Write\<close>, \<open>OpenChannel\<close> and \<open>Close\<close>.
\<close>

section \<open>What the outbound layer leaves alone\<close>

lemma tun_more:
  fixes t u :: Tunnel
  assumes "gbn.more t = gbn.more u"
  shows "devConn t = devConn u" "writeCh t = writeCh u" "ctrlCh t = ctrlCh u" "tclosed t = tclosed u"
    "rbuf t = rbuf u" "rerr t = rerr u" "recv t = recv u" "ctrlIdx t = ctrlIdx u" "pbuf t = pbuf u"
    "pumpNext t = pumpNext u" "pumpStarted t = pumpStarted u" "lastAdvance t = lastAdvance u"
    "chans t = chans u" "vheap t = vheap u" "pendingV t = pendingV u" "lastIdx t = lastIdx u"
    "nextIdx t = nextIdx u" "chanBytes t = chanBytes u" "pend t = pend u" "lastKA t = lastKA u"
  using assms by (cases t; cases u; simp)+

lemmas sendRDT_tun [simp] = tun_more [OF sendRDT_more]
lemmas sendReliable_tun [simp] = tun_more [OF sendReliable_more]
lemmas ackOutbound_tun [simp] = tun_more [OF ackOutbound_more]
lemmas outboundTick_tun [simp] = tun_more [OF outboundTick_more]
lemmas initGoBackN_tun [simp] = tun_more [OF initGoBackN_more]

section \<open>Invariant\<close>

definition chan_idx :: "byte \<Rightarrow> bool" where
  "chan_idx i \<longleftrightarrow> 2 \<le> i \<and> i < 0xff"

definition aux_inv :: "Tunnel \<Rightarrow> bool" where
  "aux_inv t \<longleftrightarrow>
     reasm_inv (recv t) \<and>
     (\<forall>i. pendingV t = Some i \<longrightarrow> i < length (vheap t)) \<and>
     (\<forall>v\<in>set (vheap t). chan_idx (vo_idx v)) \<and>
     (\<forall>i. chans t i \<noteq> None \<longrightarrow> chan_idx i) \<and>
     (nextIdx t < 2 \<or> chan_idx (nextIdx t)) \<and>
     ctrlIdx t = 1 \<and>
     (tclosed t \<longrightarrow> rerr t \<noteq> None) \<and>
     length (writeCh t) \<le> 64 \<and> length (ctrlCh t) \<le> 16"

definition tun_inv :: "Tunnel \<Rightarrow> bool" where
  "tun_inv t \<longleftrightarrow> gbn_inv t \<and> aux_inv t"

definition cfg_ok :: "tun_cfg \<Rightarrow> bool" where
  "cfg_ok c \<longleftrightarrow> 0 < maxFrame c \<and> 0 < sendWindow c \<and> sendWindow c < 2 ^ 32"

text \<open>Far from the end of the 64-bit sequence space; every step below sends at most
  \<open>2 ^ 32\<close> frames.\<close>

definition roomy :: "Tunnel \<Rightarrow> bool" where
  "roomy t \<longleftrightarrow> unat (txSeq t) < 2 ^ 63"

lemma aux_inv_cong: "gbn.more t = gbn.more u \<Longrightarrow> aux_inv t = aux_inv u"
  using tun_more [of t u] by (simp add: aux_inv_def)

lemma aux_inv_sendRDT [simp]: "aux_inv (sendRDT t ty b c s p) = aux_inv t"
  by (rule aux_inv_cong) simp

lemma aux_inv_sendReliable [simp]: "aux_inv (sendReliable now t ty b c p) = aux_inv t"
  by (rule aux_inv_cong) (rule sendReliable_more)

lemma tun_inv_sendRDT [simp]: "tun_inv (sendRDT t ty b c s p) = tun_inv t"
  by (simp add: tun_inv_def)

lemma gbn_inv_tun [simp]:
  "gbn_inv (t\<lparr>lastKA := x\<rparr>) = gbn_inv t" "gbn_inv (t\<lparr>vheap := vh\<rparr>) = gbn_inv t"
  "gbn_inv (t\<lparr>pendingV := pv\<rparr>) = gbn_inv t" "gbn_inv (t\<lparr>ctrlCh := cc\<rparr>) = gbn_inv t"
  "gbn_inv (t\<lparr>pend := b\<rparr>) = gbn_inv t" "gbn_inv (t\<lparr>writeCh := wq\<rparr>) = gbn_inv t"
  "gbn_inv (t\<lparr>recv := r\<rparr>) = gbn_inv t" "gbn_inv (t\<lparr>pumpNext := nx\<rparr>) = gbn_inv t"
  "gbn_inv (t\<lparr>pumpStarted := st\<rparr>) = gbn_inv t" "gbn_inv (t\<lparr>lastAdvance := x\<rparr>) = gbn_inv t"
  "gbn_inv (t\<lparr>pbuf := b\<rparr>) = gbn_inv t" "gbn_inv (t\<lparr>rbuf := b\<rparr>) = gbn_inv t"
  "gbn_inv (t\<lparr>chans := cs\<rparr>) = gbn_inv t" "gbn_inv (t\<lparr>chanBytes := cb\<rparr>) = gbn_inv t"
  "gbn_inv (t\<lparr>rerr := e\<rparr>) = gbn_inv t" "gbn_inv (t\<lparr>tclosed := st\<rparr>) = gbn_inv t"
  "gbn_inv (t\<lparr>nextIdx := i\<rparr>) = gbn_inv t" "gbn_inv (t\<lparr>lastIdx := i\<rparr>) = gbn_inv t"
  by (simp_all add: gbn_inv_def)

lemma aux_inv_plain [simp]:
  "aux_inv (t\<lparr>lastKA := x\<rparr>) = aux_inv t" "aux_inv (t\<lparr>pend := b\<rparr>) = aux_inv t"
  "aux_inv (t\<lparr>pumpNext := nx\<rparr>) = aux_inv t" "aux_inv (t\<lparr>pumpStarted := st\<rparr>) = aux_inv t"
  "aux_inv (t\<lparr>lastAdvance := x\<rparr>) = aux_inv t" "aux_inv (t\<lparr>pbuf := b\<rparr>) = aux_inv t"
  "aux_inv (t\<lparr>rbuf := b\<rparr>) = aux_inv t" "aux_inv (t\<lparr>chanBytes := cb\<rparr>) = aux_inv t"
  by (simp_all add: aux_inv_def)

lemma below_max: "unat (a :: u64) < 18446744073709551615 \<Longrightarrow> a \<noteq> - 1"
  by (auto simp: unsigned_minus_1_eq_mask mask_eq_exp_minus_1)

lemma room_Suc: "roomy t \<Longrightarrow> txSeq t \<noteq> - 1"
  by (rule below_max) (simp add: roomy_def)

section \<open>The phases of the pump keep the invariant\<close>

lemma tun_inv_sendReliable:
  "tun_inv t \<Longrightarrow> txSeq t \<noteq> - 1 \<Longrightarrow> tun_inv (sendReliable now t ty b c p)"
  by (simp add: tun_inv_def gbn_inv_sendReliable)

lemma tun_inv_send_ack [simp]: "tun_inv (send_ack t) = tun_inv t"
  by (simp add: send_ack_def)

lemma tun_inv_plain [simp]:
  "tun_inv (t\<lparr>lastKA := x\<rparr>) = tun_inv t" "tun_inv (t\<lparr>pend := b\<rparr>) = tun_inv t"
  "tun_inv (t\<lparr>pumpNext := nx\<rparr>) = tun_inv t" "tun_inv (t\<lparr>pumpStarted := st\<rparr>) = tun_inv t"
  "tun_inv (t\<lparr>lastAdvance := x\<rparr>) = tun_inv t" "tun_inv (t\<lparr>pbuf := b\<rparr>) = tun_inv t"
  "tun_inv (t\<lparr>rbuf := b\<rparr>) = tun_inv t" "tun_inv (t\<lparr>chanBytes := cb\<rparr>) = tun_inv t"
  by (simp_all add: tun_inv_def)

lemma tun_inv_keepalive: "tun_inv t \<Longrightarrow> tun_inv (pump_keepalive now t)"
  by (simp add: pump_keepalive_def Let_def)

lemma tun_inv_vheap:
  "tun_inv t \<Longrightarrow> vo_idx v = vo_idx (vheap t ! i) \<Longrightarrow> tun_inv (t\<lparr>vheap := (vheap t)[i := v]\<rparr>)"
  by (cases "i < length (vheap t)")
    (auto simp: tun_inv_def aux_inv_def list_update_beyond dest!: subsetD [OF set_update_subset_insert])

lemma tun_inv_pending_None: "tun_inv t \<Longrightarrow> tun_inv (t\<lparr>pendingV := None\<rparr>)"
  by (simp add: tun_inv_def aux_inv_def)

lemma tun_inv_open:
  assumes "tun_inv t" "roomy t"
  shows "tun_inv (pump_open now t)"
proof (cases "pendingV t")
  case (Some i)
  let ?t = "sendReliable now t 0x02 0x01 (devConn t)
    (p2pPortConnect (vo_idx (vheap t ! i)) (vo_port (vheap t ! i)))"
  have "tun_inv ?t" using assms by (simp add: tun_inv_sendReliable room_Suc)
  with tun_inv_vheap [of ?t "(vheap t ! i)\<lparr>vo_sentPortConn := True\<rparr>" i] Some assms show ?thesis
    by (simp add: pump_open_def Let_def)
qed (simp add: pump_open_def assms)

lemma fold_sendReliable:
  assumes "tun_inv t" "unat (txSeq t) + length ps < 2 ^ 64"
  shows "tun_inv (fold (\<lambda>cb t. sendReliable now t ty b (devConn t) cb) ps t)"
  using assms
proof (induction ps arbitrary: t)
  case (Cons p ps)
  then have "txSeq t \<noteq> - 1" by (intro below_max) simp
  with Cons show ?case by (simp add: tun_inv_sendReliable unat_u64_Suc)
qed simp

lemma tun_inv_ctrl:
  assumes "tun_inv t" "roomy t"
  shows "tun_inv (pump_ctrl now t)"
proof -
  have "length (ctrlCh t) \<le> 16" using assms(1) by (simp add: tun_inv_def aux_inv_def)
  then have "unat (txSeq t) + length (ctrlCh t) < 2 ^ 64" using assms(2) by (simp add: roomy_def)
  from fold_sendReliable [OF assms(1) this, of now 2 1] show ?thesis
    by (simp add: pump_ctrl_def tun_inv_def aux_inv_def)
qed

lemma length_accum: "length (snd (accum n b q)) \<le> length q"
  by (induction n b q rule: accum.induct) auto

lemma tun_inv_accum: "tun_inv t \<Longrightarrow> tun_inv (pump_accum c t)"
  using length_accum [of "nat (sendWindow c) * maxFrame c" "pend t" "writeCh t"]
  by (auto simp: pump_accum_def tun_inv_def aux_inv_def split: prod.splits)

lemma tun_inv_base: "tun_inv t \<Longrightarrow> unat (sendBase t) \<le> unat (txSeq t)"
  by (simp add: tun_inv_def gbn_inv_def word_le_nat_alt)

text \<open>The window, counted in frames, is a difference of naturals as long as nothing wraps.\<close>

lemma window_open_unat:
  assumes "tun_inv t" "window_open c t"
  shows "unat (txSeq t) - unat (sendBase t) < unat (cwndFrames (sendWindow c) t)"
  using assms tun_inv_base [OF assms(1)]
  by (simp add: window_open_def word_less_nat_alt word_le_nat_alt unat_sub)

lemma cwnd_limit:
  assumes "tun_inv t" "cfg_ok c"
  shows "unat (cwndFrames (sendWindow c) t) \<le> nat (sendWindow c)"
  using cwndFrames_bounds [of t "sendWindow c"] assms
  by (simp add: tun_inv_def cfg_ok_def) (metis nat_mono nat_uint_eq)

lemma frame_step_inv:
  assumes "tun_inv t" "cfg_ok c" "window_open c t" "unat (sendBase t) < 2 ^ 63"
  shows "tun_inv (frame_step c now t)" "unat (txSeq t) < unat (sendBase t) + nat (sendWindow c)"
    "txSeq t \<noteq> - 1"
proof -
  show l: "unat (txSeq t) < unat (sendBase t) + nat (sendWindow c)"
    using window_open_unat [OF assms(1,3)] cwnd_limit [OF assms(1,2)] by linarith
  have "nat (sendWindow c) < 4294967296" using assms(2) by (simp add: cfg_ok_def nat_less_iff)
  then show ne: "txSeq t \<noteq> - 1" using l assms(4) by (intro below_max) simp
  show "tun_inv (frame_step c now t)"
    using tun_inv_sendReliable [OF assms(1) ne] by (simp add: frame_step_def Let_def)
qed

lemma pump_frame_induct [consumes 3, case_names stop step]:
  assumes "tun_inv t" "cfg_ok c" "unat (sendBase t) < 2 ^ 63"
    and "\<And>t. tun_inv t \<Longrightarrow> pend t = [] \<or> \<not> window_open c t \<Longrightarrow> P t t"
    and "\<And>t. tun_inv t \<Longrightarrow> pend t \<noteq> [] \<Longrightarrow> window_open c t \<Longrightarrow> txSeq t \<noteq> - 1 \<Longrightarrow>
        tun_inv (frame_step c now t) \<Longrightarrow>
        P (frame_step c now t) (pump_frame c now (frame_step c now t)) \<Longrightarrow>
        P t (pump_frame c now (frame_step c now t))"
  shows "P t (pump_frame c now t)"
  using assms
proof (induction c now t rule: pump_frame.induct)
  case (1 c now t)
  show ?case
  proof (cases "pend t \<noteq> [] \<and> window_open c t")
    case True
    note st = frame_step_inv(1) [OF 1(2,3) conjunct2 [OF True] 1(4), of now]
      frame_step_inv(3) [OF 1(2,3) conjunct2 [OF True] 1(4)]
    have "P (frame_step c now t) (pump_frame c now (frame_step c now t))"
      using True st 1(4) by (intro 1(1) [OF True] 1(3,5,6)) simp_all
    with True st 1(2) 1(6) [of t] show ?thesis by (subst pump_frame.simps) simp
  next
    case False
    with 1(2) 1(5) [of t] show ?thesis by (subst pump_frame.simps) auto
  qed
qed

lemma tun_inv_frame:
  assumes "tun_inv t" "cfg_ok c" "roomy t"
  shows "tun_inv (pump_frame c now t)"
proof -
  have "unat (sendBase t) < 2 ^ 63" using assms tun_inv_base [OF assms(1)] by (simp add: roomy_def)
  from assms(1,2) this show ?thesis
    by (rule pump_frame_induct [where P = "\<lambda>_. tun_inv" and now = now]) simp_all
qed

lemma tun_inv_inbound1: "tun_inv t \<Longrightarrow> tun_inv (inbound1 now f t)"
  by (auto simp: inbound1_def tun_inv_def gbn_inv_ackOutbound aux_inv_cong [OF ackOutbound_more])
    (auto simp: aux_inv_def reasm_inv_Add)

lemma tun_inv_inbound: "tun_inv t \<Longrightarrow> tun_inv (pump_inbound now batch t)"
  by (induction batch arbitrary: t) (simp_all add: pump_inbound_def tun_inv_inbound1)

lemma tun_inv_tick: "tun_inv t \<Longrightarrow> tun_inv (fst (outboundTick now t))"
  by (simp add: tun_inv_def gbn_inv_outboundTick aux_inv_cong [OF outboundTick_more])

lemma reasm_inv_drain: "reasm_inv r \<Longrightarrow> reasm_inv (fst (drain r nx out))"
proof (induction r nx out rule: drain.induct)
  case (1 r nx out)
  then show ?case
    using reasm_inv_Take [of r nx] by (subst drain.simps) (auto split: prod.splits option.splits)
qed

lemma tun_inv_recv: "tun_inv t \<Longrightarrow> reasm_inv r \<Longrightarrow> tun_inv (t\<lparr>recv := r\<rparr>)"
  by (simp add: tun_inv_def aux_inv_def)

lemma tun_inv_start: "tun_inv t \<Longrightarrow> tun_inv (pump_start now t)"
  by (simp add: pump_start_def)

lemma tun_inv_drain:
  assumes "tun_inv t"
  shows "tun_inv (pump_drain now t)"
proof -
  obtain r nx pb where d: "drain (recv t) (pumpNext t) (pbuf t) = (r, nx, pb)"
    by (metis prod_cases3)
  have "reasm_inv r"
    using reasm_inv_drain [of "recv t" "pumpNext t" "pbuf t"] assms d by (simp add: tun_inv_def aux_inv_def)
  then show ?thesis using tun_inv_recv [OF assms] by (simp add: pump_drain_def d Let_def)
qed

lemma tun_inv_stall: "tun_inv t \<Longrightarrow> tun_inv (pump_stall now t)"
  by (simp add: pump_stall_def Let_def)

lemma tun_inv_chans: "tun_inv t \<Longrightarrow> (\<And>i. cs i \<noteq> None \<Longrightarrow> chan_idx i) \<Longrightarrow> tun_inv (t\<lparr>chans := cs\<rparr>)"
  by (simp add: tun_inv_def aux_inv_def)

lemma tun_inv_route_data: "tun_inv t \<Longrightarrow> tun_inv (route_data ch d t)"
  by (auto simp: route_data_def Let_def tun_inv_def aux_inv_def split: option.splits)

lemma tun_inv_route_created:
  assumes "tun_inv t" "txSeq t \<noteq> - 1"
  shows "tun_inv (route_created now t)"
proof (cases "pendingV t")
  case (Some i)
  let ?p = "p2pConnectAddr (vo_idx (vheap t ! i)) (vo_port (vheap t ! i))"
  let ?t = "(sendReliable now t 0x02 0x01 (devConn t) ?p)\<lparr>pendingV := None\<rparr>"
  have "tun_inv ?t" using assms by (intro tun_inv_pending_None tun_inv_sendReliable)
  with tun_inv_vheap [of ?t "(vheap t ! i)\<lparr>vo_done := True\<rparr>" i] Some assms show ?thesis
    by (simp add: route_created_def Let_def)
qed (simp add: route_created_def assms)

text \<open>At most one message of a batch completes an open, so routing sends at most one frame.\<close>

lemma route_txSeq: "txSeq (route now m t) = txSeq t \<or> txSeq (route now m t) = txSeq t + 1 \<and> pendingV t \<noteq> None"
  by (auto simp: route_def route_data_def route_created_def Let_def split: option.splits)

lemma route_pending: "pendingV (route now m t) = pendingV t \<or> pendingV (route now m t) = None"
  by (auto simp: route_def route_data_def route_created_def Let_def split: option.splits)

lemma route_sent: "pendingV (route now m t) = pendingV t \<Longrightarrow> pendingV t \<noteq> None \<Longrightarrow> txSeq (route now m t) = txSeq t"
  by (auto simp: route_def route_data_def route_created_def Let_def split: option.splits if_splits)

lemma tun_inv_route: "tun_inv t \<Longrightarrow> txSeq t \<noteq> - 1 \<Longrightarrow> tun_inv (route now m t)"
  by (simp add: route_def tun_inv_route_data tun_inv_route_created)

lemma route_created_idle: "pendingV t = None \<Longrightarrow> txSeq (route now m t) = txSeq t \<and> pendingV (route now m t) = None"
  using route_txSeq [of now m t] route_pending [of now m t] by auto

lemma tun_inv_routes:
  assumes "tun_inv t" "unat (txSeq t) + (if pendingV t = None then 0 else 1) < 18446744073709551615"
  shows "tun_inv (fold (route now) ms t)"
  using assms
proof (induction ms arbitrary: t)
  case (Cons m ms)
  have ne: "txSeq t \<noteq> - 1" using Cons.prems(2) by (intro below_max) simp
  have "unat (txSeq (route now m t)) + (if pendingV (route now m t) = None then 0 else 1) < 18446744073709551615"
    using Cons.prems(2) route_txSeq [of now m t] route_pending [of now m t] route_sent [of now m t]
      unat_u64_Suc [OF ne] by (auto split: if_splits)
  with Cons ne show ?case by (simp add: tun_inv_route)
qed simp

lemma tun_inv_demux:
  assumes "tun_inv t" "roomy t"
  shows "tun_inv (pump_demux now t)"
proof -
  have "unat (txSeq t) + (if pendingV t = None then 0 else 1) < 18446744073709551615"
    using assms(2) by (simp add: roomy_def)
  with assms(1) show ?thesis
    by (auto simp: pump_demux_def Let_def tun_inv_routes split: prod.splits)
qed

lemma send_ack_fields [simp]:
  "txSeq (send_ack t) = txSeq t" "sendBase (send_ack t) = sendBase t" "inflight (send_ack t) = inflight t"
  "cwnd (send_ack t) = cwnd t"
  by (simp_all add: send_ack_def)

lemma send_ack_more: "gbn.more (send_ack t) = gbn.more t"
  by (simp add: send_ack_def)

lemmas send_ack_tun [simp] = tun_more [OF send_ack_more]

lemma pump_drain_txSeq [simp]: "txSeq (pump_drain now t) = txSeq t"
  by (auto simp: pump_drain_def Let_def split: prod.splits)

lemma pump_start_txSeq [simp]: "txSeq (pump_start now t) = txSeq t"
  by (simp add: pump_start_def)

lemma tun_inv_consume:
  assumes "tun_inv t" "roomy t"
  shows "tun_inv (pump_consume now t)"
  using assms tun_inv_start [OF assms(1), of now]
  by (simp add: pump_consume_def Let_def roomy_def tun_inv_stall tun_inv_demux tun_inv_drain)

section \<open>The operations of the clients keep it too\<close>

lemma tun_inv_set_rerr: "tun_inv t \<Longrightarrow> tun_inv (set_rerr e t)"
  by (simp add: set_rerr_def tun_inv_def aux_inv_def)

lemma tun_inv_fail: "tun_inv t \<Longrightarrow> tun_inv (fail e t)"
  by (simp add: fail_def closeT_def set_rerr_def tun_inv_def aux_inv_def)

lemma tun_inv_Close: "tun_inv t \<Longrightarrow> tun_inv (Close t)"
  by (simp add: Close_def closeT_def set_rerr_def tun_inv_def aux_inv_def)

lemma tun_inv_dropChan: "tun_inv t \<Longrightarrow> tun_inv (dropChan i t)"
  by (simp add: dropChan_def tun_inv_def aux_inv_def)

lemma tun_inv_Read: "tun_inv t \<Longrightarrow> tun_inv (fst (Read n t))"
  by (simp add: Read_def split: option.splits)

lemma tun_inv_chanConn_Read: "tun_inv t \<Longrightarrow> tun_inv (fst (chanConn_Read i n t))"
  by (auto simp: chanConn_Read_def tun_inv_def aux_inv_def split: option.splits)

lemma tun_inv_writeChan: "tun_inv t \<Longrightarrow> tun_inv (fst (writeChan pick i p t))"
  by (simp add: writeChan_def tun_inv_def aux_inv_def)

lemma tun_inv_SendTunnelCtrl: "tun_inv t \<Longrightarrow> tun_inv (fst (SendTunnelCtrl pick p t))"
  by (simp add: SendTunnelCtrl_def tun_inv_def aux_inv_def)

lemma tun_inv_finish: "tun_inv t \<Longrightarrow> tun_inv (fst (OpenChannel_finish pv oc t))"
  by (simp add: OpenChannel_finish_def Let_def tun_inv_dropChan tun_inv_pending_None split: open_outcome.split)

text \<open>Index allocation: the next index after \<open>i\<close>, cycling through 2 to 0xfe.\<close>

definition alloc_idx :: "byte \<Rightarrow> byte" where
  "alloc_idx n = (if n < 2 then 2 else n)"

definition succ_idx :: "byte \<Rightarrow> byte" where
  "succ_idx i = (if i + 1 = 0xff \<or> i + 1 < 2 then 2 else i + 1)"

lemma chan_idx_succ:
  assumes "chan_idx i"
  shows "chan_idx (succ_idx i)"
proof -
  have "unat (i + 1) = unat i + 1"
    using assms by (auto simp: chan_idx_def word_less_nat_alt unat_word_ariths)
  moreover have "i + 1 = 0xff \<longleftrightarrow> unat (i + 1) = 255"
    by (simp add: word_unat_eq_iff)
  ultimately show ?thesis
    using assms by (auto simp: succ_idx_def chan_idx_def word_le_nat_alt word_less_nat_alt)
qed

lemma OpenChannel_start_refused: "pendingV t \<noteq> None \<Longrightarrow> OpenChannel_start port t = (t, Inl OpenInProgress)"
  by (simp add: OpenChannel_start_def)

lemma OpenChannel_start_eq:
  "pendingV t = None \<Longrightarrow> OpenChannel_start port t =
     (t\<lparr>chans := (chans t)(alloc_idx (nextIdx t) \<mapsto> []),
        vheap := vheap t @ [\<lparr>vo_port = port, vo_idx = alloc_idx (nextIdx t), vo_sentPortConn = False,
                            vo_done = False\<rparr>],
        pendingV := Some (length (vheap t)), lastIdx := alloc_idx (nextIdx t),
        nextIdx := succ_idx (alloc_idx (nextIdx t))\<rparr>,
      Inr (length (vheap t)))"
  by (simp add: OpenChannel_start_def Let_def alloc_idx_def succ_idx_def)

lemma chan_idx_alloc: "n < 2 \<or> chan_idx n \<Longrightarrow> chan_idx (alloc_idx n)"
  by (auto simp: alloc_idx_def chan_idx_def)

lemma tun_inv_OpenChannel:
  assumes "tun_inv t"
  shows "tun_inv (fst (OpenChannel_start port t))"
proof (cases "pendingV t")
  case None
  have "chan_idx (alloc_idx (nextIdx t))"
    using assms by (intro chan_idx_alloc) (simp add: tun_inv_def aux_inv_def)
  then show ?thesis
    using assms chan_idx_succ by (auto simp: OpenChannel_start_eq [OF None] tun_inv_def aux_inv_def)
qed (simp add: OpenChannel_start_refused assms)

section \<open>Steps and reachable states\<close>

inductive tun_step :: "tun_cfg \<Rightarrow> Tunnel \<Rightarrow> Tunnel \<Rightarrow> bool" for c where
  st_keepalive: "tun_step c t (pump_keepalive now t)"
| st_open: "tun_step c t (pump_open now t)"
| st_ctrl: "tun_step c t (pump_ctrl now t)"
| st_accum: "tun_step c t (pump_accum c t)"
| st_frame: "tun_step c t (pump_frame c now t)"
| st_inbound: "tun_step c t (inbound1 now f t)"
| st_tick: "tun_step c t (fst (outboundTick now t))"
| st_consume: "tun_step c t (pump_consume now t)"
| st_fail: "tun_step c t (fail e t)"
| st_exit: "tun_step c t (pump_exit t)"
| st_OpenChannel: "tun_step c t (fst (OpenChannel_start port t))"
| st_finish: "tun_step c t (fst (OpenChannel_finish pv oc t))"
| st_SendTunnelCtrl: "tun_step c t (fst (SendTunnelCtrl pick p t))"
| st_dropChan: "tun_step c t (dropChan i t)"
| st_chanConn_Read: "tun_step c t (fst (chanConn_Read i n t))"
| st_Read: "tun_step c t (fst (Read n t))"
| st_writeChan: "tun_step c t (fst (writeChan pick i p t))"
| st_Close: "tun_step c t (Close t)"

inductive tun_run :: "tun_cfg \<Rightarrow> Tunnel \<Rightarrow> Tunnel \<Rightarrow> bool" for c where
  run_refl: "tun_run c t t"
| run_step: "tun_run c t u \<Longrightarrow> roomy u \<Longrightarrow> tun_step c u v \<Longrightarrow> tun_run c t v"

lemma tun_inv_step:
  assumes "tun_step c t u" "cfg_ok c" "roomy t" "tun_inv t"
  shows "tun_inv u"
  using assms
  by (induction rule: tun_step.induct)
    (simp_all add: tun_inv_keepalive tun_inv_open tun_inv_ctrl tun_inv_accum tun_inv_frame tun_inv_inbound1
      tun_inv_tick tun_inv_consume tun_inv_fail pump_exit_def tun_inv_set_rerr tun_inv_OpenChannel
      tun_inv_finish tun_inv_SendTunnelCtrl tun_inv_dropChan tun_inv_chanConn_Read tun_inv_Read
      tun_inv_writeChan tun_inv_Close)

lemma tun_inv_run: "tun_run c t u \<Longrightarrow> cfg_ok c \<Longrightarrow> tun_inv t \<Longrightarrow> tun_inv u"
  by (induction rule: tun_run.induct) (auto intro: tun_inv_step)

text \<open>What \<open>setup_tunnel\<close> and \<open>pump_init\<close> leave is a good starting state.\<close>

definition fresh :: "Tunnel \<Rightarrow> bool" where
  "fresh t \<longleftrightarrow> dupAcks t = 0 \<and> aux_inv t"

lemma fresh_newTunnel: "fresh newTunnel"
  by (simp add: fresh_def newTunnel_def aux_inv_def reasm_inv_New)

lemma tun_inv_pump_init: "fresh t \<Longrightarrow> tun_inv (pump_init now t)"
  by (simp add: fresh_def pump_init_def tun_inv_def gbn_inv_initGoBackN aux_inv_cong [OF initGoBackN_more])

lemma fresh_sendRDT [simp]: "fresh (sendRDT t ty b c s p) = fresh t"
  by (simp add: fresh_def)

lemma fresh_devConn [simp]: "fresh (t\<lparr>devConn := d\<rparr>) = fresh t"
  by (simp add: fresh_def aux_inv_def)

lemma fresh_txSeq [simp]: "fresh (t\<lparr>txSeq := n\<rparr>) = fresh t"
  by (simp add: fresh_def aux_inv_def)

lemma fresh_setup_frame: "fresh (su_t s) \<Longrightarrow> fresh (su_t (setup_frame port f s))"
  by (simp add: setup_frame_def setup_send_def Let_def)

lemma fresh_setup_frames: "fresh (su_t s) \<Longrightarrow> fresh (su_t (fold (setup_frame port) fs s))"
  by (induction fs arbitrary: s) (simp_all add: fresh_setup_frame)

lemma fresh_setup_loop: "fresh (su_t s) \<Longrightarrow> fresh (su_t (setup_loop port dl its s))"
  by (induction port dl its s rule: setup_loop.induct)
    (simp_all add: fresh_setup_frames setup_keepalive_def setup_send_def Let_def)

lemma fresh_setup:
  assumes "setup_tunnel now0 port its newTunnel = Inr t"
  shows "fresh t \<and> txSeq t = 3"
proof -
  have "fresh (su_t (setup_loop port dl its s))" if "su_t s = newTunnel" for s dl
    using that by (intro fresh_setup_loop) (simp add: fresh_newTunnel)
  then show ?thesis
    using assms by (auto simp: setup_tunnel_def Let_def split: if_splits)
qed

section \<open>The pump iteration is a sequence of steps\<close>

lemma run_trans: "tun_run c u v \<Longrightarrow> tun_run c t u \<Longrightarrow> tun_run c t v"
  by (induction rule: tun_run.induct) (auto intro: tun_run.intros)

lemma run_one: "roomy t \<Longrightarrow> tun_step c t u \<Longrightarrow> tun_run c t u"
  by (rule run_step [OF run_refl])

lemma txSeq_open: "txSeq t \<noteq> - 1 \<Longrightarrow> unat (txSeq (pump_open now t)) \<le> unat (txSeq t) + 1"
  by (auto simp: pump_open_def Let_def unat_u64_Suc split: option.splits)

lemma txSeq_fold: "unat (txSeq (fold (\<lambda>cb t. sendReliable now t ty b (devConn t) cb) ps t)) \<le> unat (txSeq t) + length ps"
proof (induction ps arbitrary: t)
  case (Cons p ps)
  have "unat (txSeq t + 1) \<le> unat (txSeq t) + 1"
    by (cases "txSeq t = - 1") (simp_all add: unat_u64_Suc)
  then show ?case using Cons [of "sendReliable now t ty b (devConn t) p"] by simp
qed simp

lemma txSeq_ctrl: "tun_inv t \<Longrightarrow> unat (txSeq (pump_ctrl now t)) \<le> unat (txSeq t) + 16"
  using txSeq_fold [of now 2 1 "ctrlCh t" t]
  by (simp add: pump_ctrl_def tun_inv_def aux_inv_def)

lemma txSeq_frame:
  assumes "tun_inv t" "cfg_ok c" "roomy t"
  shows "unat (txSeq (pump_frame c now t)) \<le> max (unat (txSeq t)) (unat (sendBase t) + nat (sendWindow c))
    \<and> sendBase (pump_frame c now t) = sendBase t"
proof -
  have sb: "unat (sendBase t) < 2 ^ 63" using assms tun_inv_base [OF assms(1)] by (simp add: roomy_def)
  from assms(1,2) sb have "unat (sendBase t) < 2 ^ 63 \<longrightarrow>
        unat (txSeq (pump_frame c now t)) \<le> max (unat (txSeq t)) (unat (sendBase t) + nat (sendWindow c)) \<and>
        sendBase (pump_frame c now t) = sendBase t"
  proof (rule pump_frame_induct [where P = "\<lambda>t u. unat (sendBase t) < 2 ^ 63 \<longrightarrow>
        unat (txSeq u) \<le> max (unat (txSeq t)) (unat (sendBase t) + nat (sendWindow c)) \<and>
        sendBase u = sendBase t" and now = now], goal_cases)
    case (2 t)
    then show ?case
      using frame_step_inv(2) [OF 2(1) assms(2) 2(3)] by (auto simp: unat_u64_Suc)
  qed simp
  with sb show ?thesis by blast
qed

lemma txSeq_inbound: "txSeq (pump_inbound now batch t) = txSeq t"
  by (induction batch arbitrary: t) (simp_all add: pump_inbound_def inbound1_def)

lemma inbound_run: "roomy t \<Longrightarrow> tun_run c t (pump_inbound now batch t)"
proof (induction batch arbitrary: t)
  case (Cons f batch)
  have "tun_run c t (inbound1 now f t)" by (rule run_one [OF Cons.prems st_inbound])
  moreover have "roomy (inbound1 now f t)" using Cons.prems by (simp add: roomy_def inbound1_def)
  ultimately show ?case using Cons.IH [of "inbound1 now f t"] by (auto simp: pump_inbound_def intro: run_trans)
qed (simp add: pump_inbound_def run_refl)

lemma txSeq_keepalive [simp]: "txSeq (pump_keepalive now t) = txSeq t"
  by (simp add: pump_keepalive_def Let_def)

lemma txSeq_accum [simp]: "txSeq (pump_accum c t) = txSeq t"
  by (simp add: pump_accum_def split: prod.splits)

lemma pump_send_run:
  assumes inv: "tun_inv t" and c: "cfg_ok c" and room: "unat (txSeq t) < 2 ^ 62"
  shows "tun_run c t (pump_send c now t) \<and> roomy (pump_send c now t)"
proof -
  let ?a = "pump_keepalive now t" let ?b = "pump_open now ?a" let ?d = "pump_ctrl now ?b"
  let ?e = "pump_accum c ?d"
  have a: "tun_inv ?a" using inv by (rule tun_inv_keepalive)
  have ra: "roomy t" "roomy ?a" using room by (simp_all add: roomy_def)
  have b: "tun_inv ?b" using a ra(2) by (rule tun_inv_open)
  have ub: "unat (txSeq ?b) \<le> unat (txSeq t) + 1" using txSeq_open [OF room_Suc [OF ra(2)]] by simp
  then have rb: "roomy ?b" using room by (simp add: roomy_def)
  have d: "tun_inv ?d" using b rb by (rule tun_inv_ctrl)
  have ud: "unat (txSeq ?e) \<le> unat (txSeq t) + 17" using txSeq_ctrl [OF b, of now] ub by simp
  then have rd: "roomy ?d" "roomy ?e" using room by (simp_all add: roomy_def)
  have e: "tun_inv ?e" using d by (rule tun_inv_accum)
  have "nat (sendWindow c) \<le> 2 ^ 32" using c by (simp add: cfg_ok_def nat_le_iff)
  then have "unat (txSeq (pump_send c now t)) \<le> unat (txSeq t) + 17 + 2 ^ 32"
    using txSeq_frame [OF e c rd(2), of now] tun_inv_base [OF e] ud unfolding pump_send_def by linarith
  then have "roomy (pump_send c now t)" using room by (simp add: roomy_def)
  moreover have "tun_run c t ?b"
    by (rule run_step [OF run_one [OF ra(1) st_keepalive] ra(2) st_open])
  then have "tun_run c t ?e"
    by (intro run_step [OF run_step [OF _ rb st_ctrl] rd(1) st_accum])
  then have "tun_run c t (pump_send c now t)"
    unfolding pump_send_def by (rule run_step [OF _ rd(2) st_frame])
  ultimately show ?thesis by simp
qed

lemma pump_iter_steps:
  assumes "tun_inv t" "cfg_ok c" "unat (txSeq t) < 2 ^ 62"
  shows "tun_run c t (fst (pump_iter c now rx batch t))"
proof -
  let ?u = "pump_inbound now batch (pump_send c now t)"
  have t: "roomy t" "\<And>e. roomy (fail e t)"
    using assms(3) by (simp_all add: roomy_def fail_def closeT_def set_rerr_def)
  have u: "roomy ?u" "tun_run c t ?u"
    using pump_send_run [OF assms, of now] run_trans [OF inbound_run [of "pump_send c now t" c now batch]]
    by (auto simp: roomy_def txSeq_inbound)
  have tick: "tun_run c t (fst (outboundTick now ?u))" "roomy (fst (outboundTick now ?u))"
    using u by (auto simp: roomy_def intro: run_step [OF _ _ st_tick])
  have f: "roomy (fail e v)" if "roomy v" for e v
    using that by (simp add: roomy_def fail_def closeT_def set_rerr_def)
  have ex: "tun_run c t (pump_exit (fail e v))" if "tun_run c t v" "roomy v" for e v
    using that f by (intro run_step [OF run_step [OF _ _ st_fail] _ st_exit]) auto
  show ?thesis
  proof (cases "tclosed t \<or> (livenessTimeout c > 0 \<and> rx > livenessTimeout c)")
    case True
    then show ?thesis
      using t ex [OF run_refl t(1)] by (auto simp: pump_iter_def intro: run_one st_exit)
  next
    case False
    then show ?thesis
      using tick ex [OF tick] run_step [OF tick st_consume]
      by (auto simp: pump_iter_def Let_def split: prod.splits option.splits)
  qed
qed

section \<open>Properties\<close>

text \<open>A concrete set-up exchange, for the instances below.\<close>

definition rdt_pkt :: "byte \<Rightarrow> u64 \<Rightarrow> bytes \<Rightarrow> RDTPacket" where
  "rdt_pkt ty s p = \<lparr>rp_Type = ty, rp_Seq = s, rp_B16 = 1, rp_ConnID = 7, rp_Payload = p\<rparr>"

definition demo_batches :: "(int \<times> RDTPacket list) list" where
  "demo_batches = [(1, [rdt_pkt 0x01 0 [], rdt_pkt 0x41 0 [], rdt_pkt 0x02 0 [8, 0], rdt_pkt 0x02 1 [0x0d, 0, 0, 0]])]"

definition demo_cfg :: tun_cfg where
  "demo_cfg = \<lparr>maxFrame = 1024, sendWindow = 256, livenessTimeout = 15 * second\<rparr>"

lemma demo_cfg_ok: "cfg_ok demo_cfg"
  by (simp add: cfg_ok_def demo_cfg_def)

lemma demo_setup: "\<exists>t. setup_tunnel 0 4700 demo_batches newTunnel = Inr t"
  by (simp add: setup_tunnel_def demo_batches_def rdt_pkt_def setup_frame_def setup_keepalive_def setup_send_def
      Let_def since_def dur_defs newTunnel_def)

text \<open>
  C2. The invariant of the running tunnel. Starting from any successful set-up, whatever the
  interleaving of pump phases, received frames, reads, writes, channel opens and closes, timeouts and
  shutdown: the retransmission buffer holds exactly the sent and unacknowledged sequence numbers, the
  timeout and the congestion window stay in range, the reassembly buffer lies between its base
  and its maximum, extra channels use only the indices 2 to 0xfe and never the control
  channel's, a pending open points to a live object, the queues respect their capacities, and a
  closed tunnel carries an error for its readers.
\<close>

theorem tunnel_invariant:
  assumes "setup_tunnel now0 port its newTunnel = Inr t0" "cfg_ok c" "tun_run c (pump_init now t0) t"
  shows "tun_inv t"
  using tun_inv_run [OF assms(3,2) tun_inv_pump_init] fresh_setup [OF assms(1)] by blast

theorem tunnel_invariant_witness:
  "\<exists>t0. setup_tunnel 0 4700 demo_batches newTunnel = Inr t0 \<and> tun_inv (Close (pump_init 2 t0))"
proof -
  obtain t0 where t0: "setup_tunnel 0 4700 demo_batches newTunnel = Inr t0" using demo_setup by blast
  have "roomy (pump_init 2 t0)"
    using fresh_setup [OF t0] by (simp add: roomy_def pump_init_def initGoBackN_def)
  from tunnel_invariant [OF t0 demo_cfg_ok run_one [OF this st_Close]] t0 show ?thesis by blast
qed

text \<open>
  C12. One iteration of the pump loop, on any batch of received packets, is a run of these steps and
  keeps the invariant; when the iteration ends the loop, the tunnel is closed, its error is set and no
  reader of the control channel stays blocked.
\<close>

theorem pump_iteration_sound:
  assumes "tun_inv t" "cfg_ok c" "unat (txSeq t) < 2 ^ 62"
  shows "tun_run c t (fst (pump_iter c now rx batch t)) \<and> tun_inv (fst (pump_iter c now rx batch t)) \<and>
     (snd (pump_iter c now rx batch t) \<or>
        tclosed (fst (pump_iter c now rx batch t)) \<and> rerr (fst (pump_iter c now rx batch t)) \<noteq> None \<and>
        snd (Read n (fst (pump_iter c now rx batch t))) \<noteq> Blocks)"
proof -
  note run = pump_iter_steps [OF assms, of now rx batch]
  have "tclosed (fst (pump_iter c now rx batch t)) \<and> rerr (fst (pump_iter c now rx batch t)) \<noteq> None"
    if "\<not> snd (pump_iter c now rx batch t)"
    using that by (auto simp: pump_iter_def pump_exit_def set_rerr_def fail_def closeT_def Let_def
        split: prod.splits option.splits if_splits)
  moreover have "snd (Read n u) \<noteq> Blocks" if "rerr u \<noteq> None" for u
    using that by (auto simp: Read_def)
  ultimately show ?thesis using run tun_inv_run [OF run assms(2,1)] by blast
qed

theorem pump_iteration_sound_witness:
  "tun_inv (fst (pump_iter demo_cfg 5 0 [rdt_pkt 0x46 2 [], rdt_pkt 0x02 9 [1]] (pump_init 2 newTunnel)))"
proof -
  have "tun_inv (pump_init 2 newTunnel)" by (rule tun_inv_pump_init [OF fresh_newTunnel])
  moreover have "unat (txSeq (pump_init 2 newTunnel)) < 2 ^ 62"
    by (simp add: pump_init_def initGoBackN_def newTunnel_def)
  ultimately show ?thesis
    using pump_iteration_sound [OF _ demo_cfg_ok, of "pump_init 2 newTunnel"] by blast
qed



end
