(* ===== verification/Tunnel_Outbound.thy ===== *)
theory Tunnel_Outbound
  imports Tunnel_Inv
begin

text \<open>
  What the pump sends: how the queued writes become the bytes of the reliable stream. The stream is
  read off the frames still in the window (\<open>unacked\<close>), so that the statements below are about
  exactly the frames that are both sent and kept for retransmission.
\<close>

definition data_key :: "Tunnel \<Rightarrow> bytes \<Rightarrow> byte \<times> byte \<times> byte \<times> bytes" where
  "data_key t p = (0x02, 0x01, devConn t, p)"

definition queued_bytes :: "(byte \<times> bytes) list \<Rightarrow> bytes" where
  "queued_bytes q = concat (map (\<lambda>(idx, p). chunk_bytes idx p) q)"

text \<open>Everything accepted from writers and not yet handed to the reliable layer.\<close>

definition backlog :: "Tunnel \<Rightarrow> bytes" where
  "backlog t = pend t @ queued_bytes (writeCh t)"

lemma data_key_frame_step [simp]: "data_key (frame_step c now t) = data_key t"
  by (rule ext) (simp add: data_key_def frame_step_def Let_def)

section \<open>Framing\<close>

lemma pump_frame_tun [simp]:
  "writeCh (pump_frame c now t) = writeCh t" "devConn (pump_frame c now t) = devConn t"
  by (induction c now t rule: pump_frame.induct; subst pump_frame.simps; simp add: frame_step_def Let_def)+

text \<open>
  The framing loop cuts a prefix of the pending bytes into non-empty frames of at most \<open>maxFrame\<close>
  bytes, in order, and stops only when nothing is pending or the congestion window is full.
\<close>

lemma pump_frame_segments:
  assumes "tun_inv t" "cfg_ok c" "roomy t"
  shows "\<exists>ps. unacked (pump_frame c now t) = unacked t @ map (data_key t) ps
      \<and> concat ps @ pend (pump_frame c now t) = pend t
      \<and> (\<forall>p\<in>set ps. 0 < length p \<and> length p \<le> maxFrame c)
      \<and> (pend (pump_frame c now t) = [] \<or> \<not> window_open c (pump_frame c now t))"
    (is "?S t (pump_frame c now t)")
proof -
  have sb: "unat (sendBase t) < 2 ^ 63" using assms tun_inv_base [OF assms(1)] by (simp add: roomy_def)
  from assms(1,2) sb show ?thesis
  proof (rule pump_frame_induct [where P = ?S and now = now], goal_cases)
    case (1 t)
    then show ?case by (intro exI [of _ "[]"]) auto
  next
    case (2 t)
    let ?n = "min (maxFrame c) (length (pend t))"
    from 2(6) obtain ps where ps:
      "unacked (pump_frame c now (frame_step c now t)) =
         unacked (frame_step c now t) @ map (data_key t) ps"
      "concat ps @ pend (pump_frame c now (frame_step c now t)) = drop ?n (pend t)"
      "\<forall>p\<in>set ps. 0 < length p \<and> length p \<le> maxFrame c"
      "pend (pump_frame c now (frame_step c now t)) = [] \<or>
        \<not> window_open c (pump_frame c now (frame_step c now t))"
      by auto
    have "unacked (frame_step c now t) = unacked t @ [data_key t (take ?n (pend t))]"
      using unacked_sendReliable [of t now 2 1 "devConn t" "take ?n (pend t)"] 2
      by (simp add: frame_step_def Let_def data_key_def tun_inv_def unacked_def)
    moreover have "take ?n (pend t) @ concat ps @ pend (pump_frame c now (frame_step c now t)) = pend t"
      unfolding ps(2) by (rule append_take_drop_id)
    moreover have "0 < length (take ?n (pend t))" using 2(2) assms(2) by (simp add: cfg_ok_def)
    ultimately show ?case
      using ps by (intro exI [of _ "take ?n (pend t) # ps"]) simp
  qed
qed

lemma accum_backlog: "fst (accum n b q) @ queued_bytes (snd (accum n b q)) = b @ queued_bytes q"
  by (induction n b q rule: accum.induct) (simp_all add: queued_bytes_def)

lemma backlog_accum [simp]: "backlog (pump_accum c t) = backlog t"
  using accum_backlog [of "nat (sendWindow c) * maxFrame c" "pend t" "writeCh t"]
  by (auto simp: backlog_def pump_accum_def split: prod.splits)

lemma backlog_writeChan:
  "writeChan pick i p t = (u, Returns n) \<Longrightarrow> backlog u = backlog t @ chunk_bytes i p \<and> n = length p"
  by (auto simp: writeChan_def backlog_def queued_bytes_def split: if_splits)

section \<open>What the peer's demultiplexer makes of it\<close>

definition chunk_msg :: "byte \<times> bytes \<Rightarrow> PTunMsg" where
  "chunk_msg w = \<lparr>pm_Type = 0x02, pm_Chan = fst w, pm_Data = snd w\<rparr>"

definition good_write :: "byte \<times> bytes \<Rightarrow> bool" where
  "good_write w \<longleftrightarrow> fst w \<noteq> 0 \<and> 0 < length (snd w) \<and> length (snd w) \<le> TunnelChunkMax"

lemma chunk_wire: "chunk_bytes i p = ptun_wire (chunk_msg (i, p))"
  by (simp add: chunk_bytes_def ptun_wire_def chunk_msg_def)

lemma good_write_valid: "good_write w \<Longrightarrow> valid_ptun (chunk_msg w)"
  by (simp add: good_write_def valid_ptun_def chunk_msg_def)

lemma demux_queued:
  assumes "list_all good_write q"
  shows "fst (demux (queued_bytes q)) = map chunk_msg q"
proof -
  have "queued_bytes q = concat (map ptun_wire (map chunk_msg q))"
    by (simp add: queued_bytes_def chunk_wire case_prod_unfold comp_def)
  moreover have "list_all valid_ptun (map chunk_msg q)"
    using assms by (auto simp: list_all_iff good_write_valid)
  ultimately show ?thesis using pt.parse_concat [of "map chunk_msg q"] by simp
qed

section \<open>The whole send side of an iteration\<close>

definition open_msgs :: "Tunnel \<Rightarrow> bytes list" where
  "open_msgs t = (case pendingV t of None \<Rightarrow> []
     | Some i \<Rightarrow> if vo_sentPortConn (vheap t ! i) then []
               else [p2pPortConnect (vo_idx (vheap t ! i)) (vo_port (vheap t ! i))])"

lemma unacked_more: "inflight u = inflight t \<Longrightarrow> sendBase u = sendBase t \<Longrightarrow> txSeq u = txSeq t \<Longrightarrow>
    devConn u = devConn t \<Longrightarrow> unacked u = unacked t \<and> data_key u = data_key t"
  by (auto simp: unacked_def data_key_def)

lemma keepalive_keeps [simp]:
  "inflight (pump_keepalive now t) = inflight t" "sendBase (pump_keepalive now t) = sendBase t"
  "devConn (pump_keepalive now t) = devConn t" "pendingV (pump_keepalive now t) = pendingV t"
  "vheap (pump_keepalive now t) = vheap t" "ctrlCh (pump_keepalive now t) = ctrlCh t"
  "pend (pump_keepalive now t) = pend t" "writeCh (pump_keepalive now t) = writeCh t"
  by (simp_all add: pump_keepalive_def Let_def)

lemma pump_open_keeps [simp]:
  "devConn (pump_open now t) = devConn t" "ctrlCh (pump_open now t) = ctrlCh t"
  "pend (pump_open now t) = pend t" "writeCh (pump_open now t) = writeCh t"
  by (simp_all add: pump_open_def Let_def split: option.splits)

lemma unacked_open:
  assumes "tun_inv t" "roomy t"
  shows "unacked (pump_open now t) = unacked t @ map (data_key t) (open_msgs t)"
  using unacked_sendReliable [OF _ room_Suc [OF assms(2)]] assms(1)
  by (auto simp: pump_open_def open_msgs_def Let_def data_key_def tun_inv_def unacked_def split: option.splits)

lemma fold_send_keeps:
  "devConn (fold (\<lambda>cb t. sendReliable now t ty b (devConn t) cb) ps t) = devConn t \<and>
   pend (fold (\<lambda>cb t. sendReliable now t ty b (devConn t) cb) ps t) = pend t \<and>
   writeCh (fold (\<lambda>cb t. sendReliable now t ty b (devConn t) cb) ps t) = writeCh t"
  for t :: Tunnel
  by (induction ps arbitrary: t) simp_all

lemma unacked_fold:
  fixes t :: Tunnel
  assumes "tun_inv t" "unat (txSeq t) + length ps < 2 ^ 64"
  shows "unacked (fold (\<lambda>cb t. sendReliable now t 2 1 (devConn t) cb) ps t) = unacked t @ map (data_key t) ps"
  using assms
proof (induction ps arbitrary: t)
  case (Cons p ps)
  have ne: "txSeq t \<noteq> - 1" using Cons.prems(2) by (intro below_max) simp
  let ?u = "sendReliable now t 2 1 (devConn t) p"
  have "data_key ?u = data_key t" by (rule ext) (simp add: data_key_def)
  moreover have "unacked ?u = unacked t @ [data_key t p]"
    using Cons.prems(1) ne by (simp add: unacked_sendReliable data_key_def tun_inv_def)
  moreover have "tun_inv ?u" by (rule tun_inv_sendReliable [OF Cons.prems(1) ne])
  ultimately show ?case
    using Cons.IH [of ?u] Cons.prems(2) by (simp add: unat_u64_Suc [OF ne])
qed simp

lemma unacked_ctrl:
  assumes "tun_inv t" "roomy t"
  shows "unacked (pump_ctrl now t) = unacked t @ map (data_key t) (ctrlCh t)"
    and "devConn (pump_ctrl now t) = devConn t" "pend (pump_ctrl now t) = pend t"
    and "writeCh (pump_ctrl now t) = writeCh t"
proof -
  have "length (ctrlCh t) \<le> 16" using assms(1) by (simp add: tun_inv_def aux_inv_def)
  then have "unat (txSeq t) + length (ctrlCh t) < 2 ^ 64" using assms(2) by (simp add: roomy_def)
  from unacked_fold [OF assms(1) this, of now]
  show "unacked (pump_ctrl now t) = unacked t @ map (data_key t) (ctrlCh t)"
    by (simp add: pump_ctrl_def unacked_def)
qed (use fold_send_keeps in \<open>simp_all add: pump_ctrl_def\<close>)

lemma pump_send_spec:
  assumes inv: "tun_inv t" and c: "cfg_ok c" and room: "unat (txSeq t) < 2 ^ 62"
  shows "\<exists>ps. unacked (pump_send c now t) =
        unacked t @ map (data_key t) (open_msgs t @ ctrlCh t @ ps)
      \<and> concat ps @ backlog (pump_send c now t) = backlog t
      \<and> (\<forall>p\<in>set ps. 0 < length p \<and> length p \<le> maxFrame c)
      \<and> (pend (pump_send c now t) = [] \<or> \<not> window_open c (pump_send c now t))"
proof -
  let ?a = "pump_keepalive now t" let ?b = "pump_open now ?a" let ?d = "pump_ctrl now ?b"
  let ?e = "pump_accum c ?d"
  have a: "tun_inv ?a" using inv by (rule tun_inv_keepalive)
  have ra: "roomy ?a" using room by (simp add: roomy_def)
  have b: "tun_inv ?b" using a ra by (rule tun_inv_open)
  have ub: "unat (txSeq ?b) \<le> unat (txSeq t) + 1" using txSeq_open [OF room_Suc [OF ra]] by simp
  then have rb: "roomy ?b" using room by (simp add: roomy_def)
  note d = unacked_ctrl [OF b rb, of now]
  have e: "tun_inv ?e" using b rb by (intro tun_inv_accum tun_inv_ctrl)
  have re: "roomy ?e" using txSeq_ctrl [OF b, of now] ub room by (simp add: roomy_def)
  have ue: "unacked ?e = unacked ?d" "data_key ?e = data_key t"
    using d(2) by (auto simp: pump_accum_def unacked_def data_key_def split: prod.splits)
  have ua: "unacked ?a = unacked t" "data_key ?a = data_key t" "open_msgs ?a = open_msgs t"
    by (auto simp: unacked_def data_key_def open_msgs_def split: option.splits)
  have kb: "data_key ?b = data_key t" by (rule ext) (simp add: data_key_def)
  have be: "backlog ?e = backlog t" using d(3,4) backlog_accum [of c ?d] by (simp add: backlog_def del: backlog_accum)
  obtain ps where ps: "unacked (pump_frame c now ?e) = unacked ?e @ map (data_key ?e) ps"
    "concat ps @ pend (pump_frame c now ?e) = pend ?e"
    "\<forall>p\<in>set ps. 0 < length p \<and> length p \<le> maxFrame c"
    "pend (pump_frame c now ?e) = [] \<or> \<not> window_open c (pump_frame c now ?e)"
    using pump_frame_segments [OF e c re] by blast
  have "concat ps @ backlog (pump_frame c now ?e) = backlog t"
    using be ps(2) [symmetric] by (simp add: backlog_def)
  moreover have "unacked ?e = unacked t @ map (data_key t) (open_msgs t @ ctrlCh t)"
    using unacked_open [OF a ra, of now] d(1) ue ua kb by simp
  ultimately show ?thesis
    using ps ue by (intro exI [of _ ps]) (simp add: pump_send_def)
qed

section \<open>Properties\<close>

text \<open>
  C4. The send side of a pump iteration. The frames added to the reliable stream are, in this order,
  the port-connect message of a waiting open, the queued control payloads, and a segmentation of the
  oldest backlog bytes into frames of 1 to \<open>maxFrame\<close> bytes; not a byte of the backlog is lost,
  repeated or reordered, and framing stops only when nothing is pending or the congestion window is full.
\<close>

theorem pump_sends_backlog:
  assumes "tun_inv t" "cfg_ok c" "unat (txSeq t) < 2 ^ 62"
  shows "\<exists>ps. unacked (pump_send c now t) =
        unacked t @ map (\<lambda>p. (0x02, 0x01, devConn t, p)) (open_msgs t @ ctrlCh t @ ps)
      \<and> concat ps @ backlog (pump_send c now t) = backlog t
      \<and> (\<forall>p\<in>set ps. 0 < length p \<and> length p \<le> maxFrame c)
      \<and> (pend (pump_send c now t) = [] \<or> \<not> txSeq (pump_send c now t) - sendBase (pump_send c now t)
           < cwndFrames (sendWindow c) (pump_send c now t))"
  using pump_send_spec [OF assms, of now] by (simp add: data_key_def [abs_def] window_open_def)

theorem pump_sends_backlog_witness:
  "\<exists>ps. unacked (pump_send demo_cfg 5 (pump_init 2 newTunnel)) =
     unacked (pump_init 2 newTunnel) @ map (\<lambda>p. (0x02, 0x01, devConn (pump_init 2 newTunnel), p))
       (open_msgs (pump_init 2 newTunnel) @ ctrlCh (pump_init 2 newTunnel) @ ps)"
proof -
  have "tun_inv (pump_init 2 newTunnel)" by (rule tun_inv_pump_init [OF fresh_newTunnel])
  moreover have "unat (txSeq (pump_init 2 newTunnel)) < 2 ^ 62"
    by (simp add: pump_init_def initGoBackN_def newTunnel_def)
  ultimately show ?thesis
    using pump_sends_backlog [OF _ demo_cfg_ok, of "pump_init 2 newTunnel" 5] by blast
qed

text \<open>
  Writes survive the trip: with writes of 1 to 8192 bytes queued and no control traffic, the bytes
  framed in an iteration followed by those still waiting are a stream that the tunnel's own
  demultiplexer splits into exactly these writes, each with its channel, in order.
\<close>

theorem writes_reach_peer:
  assumes "tun_inv t" "cfg_ok c" "unat (txSeq t) < 2 ^ 62" "pend t = []" "open_msgs t = []" "ctrlCh t = []"
    and "list_all good_write (writeCh t)"
  shows "\<exists>ps. unacked (pump_send c now t) = unacked t @ map (data_key t) ps \<and>
     demux (concat ps @ backlog (pump_send c now t)) = (map chunk_msg (writeCh t), [])"
proof -
  have "queued_bytes (writeCh t) = concat (map ptun_wire (map chunk_msg (writeCh t)))"
    by (simp add: queued_bytes_def chunk_wire case_prod_unfold comp_def)
  moreover have "list_all valid_ptun (map chunk_msg (writeCh t))"
    using assms(7) by (auto simp: list_all_iff good_write_valid)
  ultimately have "demux (backlog t) = (map chunk_msg (writeCh t), [])"
    unfolding backlog_def assms(4) append_Nil using demux_wires by presburger
  then show ?thesis using pump_send_spec [OF assms(1-3), of now] assms(5,6) by fastforce
qed

definition demo_written :: Tunnel where
  "demo_written = fst (Write False [65, 66] (pump_init 2 newTunnel))"

theorem writes_reach_peer_witness:
  "\<exists>ps. demux (concat ps @ backlog (pump_send demo_cfg 5 demo_written)) =
     ([\<lparr>pm_Type = 2, pm_Chan = 1, pm_Data = [65, 66]\<rparr>], [])"
proof -
  have inv: "tun_inv demo_written"
    unfolding demo_written_def Write_def by (rule tun_inv_writeChan [OF tun_inv_pump_init [OF fresh_newTunnel]])
  have f: "writeCh demo_written = [(1, [65, 66])]" "pend demo_written = []" "ctrlCh demo_written = []"
    "pendingV demo_written = None" "txSeq demo_written = 0"
    by (simp_all add: demo_written_def Write_def writeChan_def pump_init_def newTunnel_def initGoBackN_def)
  then have "unat (txSeq demo_written) < 2 ^ 62" "open_msgs demo_written = []"
    "list_all good_write (writeCh demo_written)"
    by (simp_all add: open_msgs_def good_write_def TunnelChunkMax_def)
  with writes_reach_peer [OF inv demo_cfg_ok, of 5] f show ?thesis by (auto simp: chunk_msg_def)
qed

definition split_cfg :: tun_cfg where
  "split_cfg = \<lparr>maxFrame = 4, sendWindow = 2, livenessTimeout = 0\<rparr>"

definition split_tunnel :: Tunnel where
  "split_tunnel = pump_send split_cfg 2 (fst (OpenChannel_start 4800
     (pump_send split_cfg 1 (fst (Write False [65, 66, 67, 68, 69, 70, 71, 72] (pump_init 0 newTunnel))))))"

lemma split_tunnel_sends:
  "concat (map (\<lambda>(_, p). rp_Payload p) (filter (\<lambda>(_, p). rp_Type p = 0x02) (wire split_tunnel))) =
     [2, 1, 8, 0, 65, 66, 67, 68, 0x0c, 0, 6, 0, 0xc7, 2, 0xc0, 0x12, 0, 0]"
  by code_simp

text \<open>
  A control message can cut a data chunk in two. Here a write of eight bytes is framed four
  bytes at a time under a window of two frames, so half of it is still pending when another
  channel is opened: the next iteration sends the port-connect message before the rest, and the
  demultiplexer reads its first bytes as the end of the chunk. The socket data is corrupted and
  the message is lost.
\<close>

theorem control_message_splits_chunk:
  "\<exists>rest. fst (demux (concat (map (\<lambda>(_, p). rp_Payload p) (filter (\<lambda>(_, p). rp_Type p = 0x02) (wire split_tunnel))))) =
     \<lparr>pm_Type = 2, pm_Chan = 1, pm_Data = [65, 66, 67, 68, 0x0c, 0x00, 0x06, 0x00]\<rparr> # rest"
proof -
  let ?m = "\<lparr>pm_Type = 2, pm_Chan = 1, pm_Data = [65, 66, 67, 68, 0x0c, 0x00, 0x06, 0x00]\<rparr>"
  have "valid_ptun ?m" by (simp add: valid_ptun_def TunnelChunkMax_def)
  moreover have "ptun_wire ?m @ [0xc7, 2, 0xc0, 0x12, 0, 0] =
      [2, 1, 8, 0, 65, 66, 67, 68, 0x0c, 0, 6, 0, 0xc7, 2, 0xc0, 0x12, 0, 0]"
    by (simp add: ptun_wire_def lo_byte_def hi_byte_def drop_bit_eq_div)
  ultimately show ?thesis
    unfolding split_tunnel_sends using demux_frame [of ?m "[0xc7, 2, 0xc0, 0x12, 0, 0]"] by simp
qed

end
