(* ===== verification/Tunnel_Inbound.thy ===== *)
theory Tunnel_Inbound
  imports Tunnel_Inv
begin

text \<open>
  What the pump delivers. The device's stream is a function \<open>pay\<close> from frame number to payload; the
  network may lose, repeat, reorder and delay its frames at will, and the clients of the tunnel may
  do anything in between. The bytes handed to the readers are exactly the demultiplexed
  contents of the frames consumed so far, in order and once.
\<close>

section \<open>Routing\<close>

definition chan_data :: "byte \<Rightarrow> PTunMsg list \<Rightarrow> bytes" where
  "chan_data i ms = concat (map pm_Data (filter (\<lambda>m. pm_Type m = 0x02 \<and> pm_Chan m = i) ms))"

lemma chan_data_simps [simp]:
  "chan_data i [] = []"
  "chan_data i (m # ms) = (if pm_Type m = 0x02 \<and> pm_Chan m = i then pm_Data m else []) @ chan_data i ms"
  "chan_data i (ms @ ns) = chan_data i ms @ chan_data i ns"
  by (simp_all add: chan_data_def)

lemma route_keeps [simp]:
  "ctrlIdx (route now m t) = ctrlIdx t" "pbuf (route now m t) = pbuf t" "recv (route now m t) = recv t"
  "pumpNext (route now m t) = pumpNext t" "pumpStarted (route now m t) = pumpStarted t"
  "rerr (route now m t) = rerr t" "tclosed (route now m t) = tclosed t"
  by (auto simp: route_def route_data_def route_created_def Let_def split: option.splits)

lemma routes_keep [simp]:
  "ctrlIdx (fold (route now) ms t) = ctrlIdx t" "pbuf (fold (route now) ms t) = pbuf t"
  "recv (fold (route now) ms t) = recv t" "pumpNext (fold (route now) ms t) = pumpNext t"
  "pumpStarted (fold (route now) ms t) = pumpStarted t" "rerr (fold (route now) ms t) = rerr t"
  "tclosed (fold (route now) ms t) = tclosed t"
  by (induction ms arbitrary: t) simp_all

lemma route_rbuf:
  "rbuf (route now m t) = rbuf t @ (if pm_Type m = 0x02 \<and> pm_Chan m = ctrlIdx t then pm_Data m else [])"
  by (auto simp: route_def route_data_def route_created_def Let_def split: option.splits)

lemma route_chans:
  "i \<noteq> ctrlIdx t \<Longrightarrow> chans (route now m t) i =
     map_option (\<lambda>b. b @ (if pm_Type m = 0x02 \<and> pm_Chan m = i then pm_Data m else [])) (chans t i)"
  by (auto simp: route_def route_data_def route_created_def Let_def split: option.splits)

lemma routes_rbuf: "rbuf (fold (route now) ms t) = rbuf t @ chan_data (ctrlIdx t) ms"
  by (induction ms arbitrary: t) (simp_all add: route_rbuf)

lemma routes_chans:
  "i \<noteq> ctrlIdx t \<Longrightarrow> chans (fold (route now) ms t) i = map_option (\<lambda>b. b @ chan_data i ms) (chans t i)"
  by (induction ms arbitrary: t) (auto simp: route_chans option.map_comp comp_def option.map_ident)

section \<open>Draining\<close>

lemma drain_keeps:
  assumes "drain r nx out = (r', nx', out')"
  shows "base r' = base r \<and> baseSet r' = baseSet r \<and> maxSeq r' = maxSeq r"
proof -
  have "(base r' = base r \<and> baseSet r' = baseSet r \<and> maxSeq r' = maxSeq r) \<and> frames r' nx' = None"
  proof (rule drain_induct [OF _ assms, where P = "\<lambda>q _ _. base q = base r \<and> baseSet q = baseSet r \<and>
        maxSeq q = maxSeq r"], goal_cases)
    case (2 q n out q' p)
    then show ?case using Take_keeps [of q n] by simp
  qed simp
  then show ?thesis by blast
qed

lemma drain_prefix: "drain r nx (a @ out) = apsnd (apsnd ((@) a)) (drain r nx out)"
proof (induction r nx out rule: drain.induct)
  case (1 r nx out)
  show ?case
    using "1.IH" by (subst drain.simps, subst (2) drain.simps) (auto split: prod.splits option.splits)
qed

lemma drain_from: "drain r nx [] = (r', nx', new) \<Longrightarrow> drain r nx a = (r', nx', a @ new)"
  using drain_prefix [of r nx a "[]"] by simp

section \<open>The inbound invariant\<close>

text \<open>
  \<open>rd\<close> are the bytes the readers of the control channel have already been given. The stream
  position is the tunnel's own: the first frame is \<open>base\<close>, the next one \<open>pumpNext\<close>.
\<close>

definition consumed_bytes :: "(nat \<Rightarrow> bytes) \<Rightarrow> Tunnel \<Rightarrow> bytes" where
  "consumed_bytes pay t = concat (map pay [unat (base (recv t))..<unat (pumpNext t)])"

definition in_inv :: "(nat \<Rightarrow> bytes) \<Rightarrow> bytes \<Rightarrow> Tunnel \<Rightarrow> bool" where
  "in_inv pay rd t \<longleftrightarrow>
     ctrlIdx t = 1 \<and> reasm_inv (recv t) \<and>
     (if pumpStarted t then
        unat (base (recv t)) < unat (pumpNext t) \<and> baseSet (recv t) \<and>
        rx_inv (frames (recv t)) (consumed_upto (recv t)) pay (unat (base (recv t))) (unat (pumpNext t))
          (consumed_bytes pay t) \<and>
        pbuf t = snd (demux (consumed_bytes pay t)) \<and>
        rd @ rbuf t = chan_data 1 (fst (demux (consumed_bytes pay t)))
      else
        (\<forall>s p. frames (recv t) s = Some p \<longrightarrow> unat s < 2 ^ 64 - 1 \<and> p = pay (unat s)) \<and>
        \<not> consumedSet (recv t) \<and> (baseSet (recv t) \<longrightarrow> frames (recv t) (base (recv t)) \<noteq> None) \<and>
        pbuf t = [] \<and> rbuf t = [] \<and> rd = [])"

definition genuine :: "(nat \<Rightarrow> bytes) \<Rightarrow> RDTPacket \<Rightarrow> bool" where
  "genuine pay f \<longleftrightarrow> rp_Type f = 0x02 \<longrightarrow>
     unat (rp_Seq f) < 2 ^ 64 - 1 \<and> rp_Payload f = pay (unat (rp_Seq f))"

lemma in_inv_same:
  assumes "in_inv pay rd t" "recv u = recv t" "pbuf u = pbuf t" "rbuf u = rbuf t"
    "pumpNext u = pumpNext t" "pumpStarted u = pumpStarted t" "ctrlIdx u = ctrlIdx t"
  shows "in_inv pay rd u"
proof -
  have cb: "consumed_bytes pay u = consumed_bytes pay t"
    using assms by (simp add: consumed_bytes_def)
  show ?thesis using assms(1) unfolding in_inv_def cb assms(2-) .
qed

lemma in_inv_Add_unstarted:
  assumes "in_inv pay rd t" "\<not> pumpStarted t" "unat s < 2 ^ 64 - 1"
  shows "in_inv pay rd (t\<lparr>recv := fst (Add (recv t) s (pay (unat s)))\<rparr>)"
proof (cases "snd (Add (recv t) s (pay (unat s)))")
  case True
  note b = Add_bounds [OF True]
  have "frames (recv t) s = None" "\<not> consumedSet (recv t)"
    using True assms by (auto simp: Add_new_iff in_inv_def)
  then show ?thesis
    using assms b reasm_inv_Add [of "recv t"]
    by (auto simp: in_inv_def Add_frames min_def split: if_splits)
next
  case False
  then have "fst (Add (recv t) s (pay (unat s))) = recv t" by (auto simp: Add_def Let_def)
  then show ?thesis using assms by simp
qed

lemma in_inv_Add_started:
  assumes inv: "in_inv pay rd t" and st: "pumpStarted t" and s: "unat s < 2 ^ 64 - 1"
  shows "in_inv pay rd (t\<lparr>recv := fst (Add (recv t) s (pay (unat s)))\<rparr>)"
proof -
  let ?r = "recv t" let ?b = "unat (base (recv t))" let ?n = "unat (pumpNext t)"
  let ?r' = "fst (Add (recv t) s (pay (unat s)))"
  have bn: "?b < ?n" and bs: "baseSet ?r"
    and rx: "rx_inv (frames ?r) (consumed_upto ?r) pay ?b ?n (consumed_bytes pay t)"
    using inv st by (auto simp: in_inv_def)
  have wm: "consumed_upto ?r = Some (word_of_nat (?n - 1))"
    using rx bn by (simp add: rx_inv_def)
  have acc: "?n \<le> unat s" if "snd (Add ?r s (pay (unat s)))"
  proof -
    have "\<not> s \<le> word_of_nat (?n - 1)"
      using that wm by (auto simp: Add_new_iff consumed_upto_def split: if_splits)
    then show ?thesis using rx_inv_pred [OF rx] by (simp add: word_le_nat_alt)
  qed
  show ?thesis
  proof (cases "snd (Add ?r s (pay (unat s)))")
    case True
    have base: "base ?r' = base ?r" "baseSet ?r'"
      using Add_bounds [OF True] acc [OF True] bn bs by (simp_all add: min_def word_le_nat_alt)
    have "rx_inv (frames ?r') (consumed_upto ?r') pay ?b ?n (consumed_bytes pay t)"
      using rb.add_rx_inv [OF rx, of "unat s"] acc [OF True] bn s by simp
    then show ?thesis
      using inv st base reasm_inv_Add [of ?r] by (simp add: in_inv_def consumed_bytes_def)
  next
    case False
    then have "?r' = ?r" by (auto simp: Add_def Let_def)
    then show ?thesis using inv by simp
  qed
qed

lemma in_inv_inbound1:
  assumes "in_inv pay rd t" "genuine pay f"
  shows "in_inv pay rd (inbound1 now f t)"
  using assms in_inv_Add_started [of pay rd t "rp_Seq f"] in_inv_Add_unstarted [of pay rd t "rp_Seq f"]
  by (cases "pumpStarted t") (auto simp: inbound1_def genuine_def intro: in_inv_same)

section \<open>Consumption\<close>

text \<open>One round of draining, from a state in which the frame at \<open>n\<close> may or may not be there.\<close>

lemma pump_drain_fields:
  assumes "drain (recv t) (pumpNext t) [] = (r, nx, new)"
  shows "recv (pump_drain now t) = r" "pumpNext (pump_drain now t) = nx"
    "pbuf (pump_drain now t) = pbuf t @ new" "rbuf (pump_drain now t) = rbuf t"
    "pumpStarted (pump_drain now t) = pumpStarted t" "ctrlIdx (pump_drain now t) = ctrlIdx t"
    "chans (pump_drain now t) = chans t"
  using drain_from [OF assms, of "pbuf t"] by (simp_all add: pump_drain_def Let_def)

lemma pump_demux_eq:
  "pump_demux now t = (fold (route now) (fst (demux (pbuf t))) t)\<lparr>pbuf := snd (demux (pbuf t))\<rparr>"
  by (auto simp: pump_demux_def demux_def Let_def split: prod.splits)

lemma pump_stall_keeps [simp]:
  "recv (pump_stall now t) = recv t" "pbuf (pump_stall now t) = pbuf t" "rbuf (pump_stall now t) = rbuf t"
  "pumpNext (pump_stall now t) = pumpNext t" "pumpStarted (pump_stall now t) = pumpStarted t"
  "ctrlIdx (pump_stall now t) = ctrlIdx t" "chans (pump_stall now t) = chans t"
  by (auto simp: pump_stall_def Let_def)

lemma drain_step:
  assumes "frames r nx = Some p"
  shows "\<exists>r1. Take r nx = (r1, Some p) \<and> drain r nx out = drain r1 (nx + 1) (out @ p)"
proof -
  have "snd (Take r nx) = Some p" using assms by (simp add: Take_result)
  then show ?thesis by (metis (no_types, lifting) drain.simps option.simps(5) prod.collapse prod.simps(2))
qed

lemma rx_drain:
  assumes rx: "rx_inv (frames r) (consumed_upto r) pay b n (concat (map pay [b..<n]))"
    and d: "drain r (word_of_nat n) [] = (r', nx', new)"
    and go: "b < n \<or> frames r (word_of_nat n) \<noteq> None"
  shows "b < unat nx' \<and>
    rx_inv (frames r') (consumed_upto r') pay b (unat nx') (concat (map pay [b..<unat nx'])) \<and>
    concat (map pay [b..<n]) @ new = concat (map pay [b..<unat nx'])"
proof -
  let ?o = "concat (map pay [b..<n])"
  have d': "drain r (word_of_nat n) ?o = (r', nx', ?o @ new)" by (rule drain_from [OF d])
  have res: "unat nx' = m \<and> rx_inv (frames r') (consumed_upto r') pay b m (?o @ new)"
    if "nx' = word_of_nat m" "rx_inv (frames r') (consumed_upto r') pay b m (?o @ new)" for m
    using that by (simp add: rx_inv_def)
  obtain m where m: "nx' = word_of_nat m" "rx_inv (frames r') (consumed_upto r') pay b m (?o @ new)" "b < m"
  proof (cases "frames r (word_of_nat n)")
    case None
    then have "b < n" using go by simp
    moreover obtain m where "nx' = word_of_nat m" "n \<le> m"
      "rx_inv (frames r') (consumed_upto r') pay b m (?o @ new)"
      using drain_rx_inv [OF rx d'] by blast
    ultimately show ?thesis using that [of m] by simp
  next
    case (Some p)
    from drain_step [OF Some, of ?o] obtain r1 where
      r1: "Take r (word_of_nat n) = (r1, Some p)" "drain r1 (word_of_nat n + 1) (?o @ p) = (r', nx', ?o @ new)"
      using d' by auto
    have rx1: "rx_inv (frames r1) (consumed_upto r1) pay b (Suc n) (?o @ p)"
      by (rule rb.take_rx_inv [OF rx r1(1)])
    have "drain r1 (word_of_nat (Suc n)) (?o @ p) = (r', nx', ?o @ new)"
      using r1(2) by (simp add: add.commute)
    from drain_rx_inv [OF rx1 this] obtain m where "nx' = word_of_nat m" "Suc n \<le> m"
      "rx_inv (frames r') (consumed_upto r') pay b m (?o @ new)" by blast
    moreover have "b \<le> n" using rx by (simp add: rx_inv_def)
    ultimately show ?thesis using that [of m] by simp
  qed
  from res [OF m(1,2)] m(3) show ?thesis by (auto simp: rx_inv_def)
qed

text \<open>The same for a whole consumption, from the moment the pump knows where the stream starts.\<close>

lemma in_inv_consume_started:
  assumes ci: "ctrlIdx t = 1" and ri: "reasm_inv (recv t)" and bs: "baseSet (recv t)" and st: "pumpStarted t"
    and rx: "rx_inv (frames (recv t)) (consumed_upto (recv t)) pay (unat (base (recv t))) (unat (pumpNext t))
      (consumed_bytes pay t)"
    and go: "unat (base (recv t)) < unat (pumpNext t) \<or> frames (recv t) (pumpNext t) \<noteq> None"
    and pb: "pbuf t = snd (demux (consumed_bytes pay t))"
    and rd: "rd @ rbuf t = chan_data 1 (fst (demux (consumed_bytes pay t)))"
  shows "in_inv pay rd (pump_stall now (pump_demux now (pump_drain now t)))"
proof -
  obtain r nx new where d: "drain (recv t) (pumpNext t) [] = (r, nx, new)" by (metis prod_cases3)
  note f = pump_drain_fields [OF d, of now]
  let ?b = "unat (base (recv t))" let ?c = "consumed_bytes pay t"
  let ?u = "pump_stall now (pump_demux now (pump_drain now t))"
  have k: "base r = base (recv t)" "baseSet r" using drain_keeps [OF d] bs by simp_all
  have c: "?b < unat nx" "rx_inv (frames r) (consumed_upto r) pay ?b (unat nx) (concat (map pay [?b..<unat nx]))"
    "?c @ new = concat (map pay [?b..<unat nx])"
    using rx_drain [OF rx [unfolded consumed_bytes_def], of r nx new] d go by (auto simp: consumed_bytes_def)
  have dm: "demux (?c @ new) = apfst ((@) (fst (demux ?c))) (demux (snd (demux ?c) @ new))"
    by (rule demux_append)
  have u: "recv ?u = r" "pumpNext ?u = nx" "pumpStarted ?u" "ctrlIdx ?u = 1"
    "pbuf ?u = snd (demux (?c @ new))" "rd @ rbuf ?u = chan_data 1 (fst (demux (?c @ new)))"
    using f st ci rd pb by (simp_all add: pump_demux_eq routes_rbuf dm)
  have "consumed_bytes pay ?u = ?c @ new" using u k c(3) by (simp add: consumed_bytes_def)
  moreover have "reasm_inv r" using reasm_inv_drain [OF ri, of "pumpNext t" "[]"] d by simp
  ultimately show ?thesis
    using u k c unfolding in_inv_def by simp
qed

lemma in_inv_consume:
  assumes inv: "in_inv pay rd t"
  shows "in_inv pay rd (pump_consume now t)"
proof (cases "pumpStarted t")
  case True
  then have "pump_start now t = t" by (simp add: pump_start_def)
  then have "pump_consume now t = pump_stall now (pump_demux now (pump_drain now t))"
    using True by (simp add: pump_consume_def Let_def)
  moreover have "in_inv pay rd (pump_stall now (pump_demux now (pump_drain now t)))"
    using inv True by (intro in_inv_consume_started) (simp_all add: in_inv_def)
  ultimately show ?thesis by simp
next
  case False
  note inv' = inv [unfolded in_inv_def, simplified False]
  show ?thesis
  proof (cases "baseSet (recv t)")
    case bs: True
    let ?t = "t\<lparr>pumpNext := base (recv t), pumpStarted := True, lastAdvance := now\<rparr>"
    have held: "frames (recv t) (base (recv t)) \<noteq> None" using inv' bs by simp
    have "rx_inv (frames (recv t)) None pay (unat (base (recv t))) (unat (base (recv t))) []"
      using inv' unsigned_less [of "base (recv t)", where ?'a = nat]
      by (auto simp: rx_inv_def reasm_inv_def word_le_nat_alt)
    moreover have "consumed_upto (recv t) = None" using inv' by (simp add: consumed_upto_def)
    ultimately have "in_inv pay rd (pump_stall now (pump_demux now (pump_drain now ?t)))"
      using inv' bs held
      by (intro in_inv_consume_started) (simp_all add: consumed_bytes_def demux_nil)
    then show ?thesis
      using False bs by (simp add: pump_consume_def pump_start_def Started_def Base_def Let_def)
  next
    case bs: False
    then show ?thesis
      using inv False by (simp add: pump_consume_def pump_start_def Started_def Let_def)
  qed
qed

section \<open>Runs with an adversarial network\<close>

definition in_same :: "Tunnel \<Rightarrow> Tunnel \<Rightarrow> bool" where
  "in_same t u \<longleftrightarrow> recv u = recv t \<and> pbuf u = pbuf t \<and> rbuf u = rbuf t \<and> pumpNext u = pumpNext t \<and>
     pumpStarted u = pumpStarted t \<and> ctrlIdx u = ctrlIdx t"

lemma in_inv_in_same: "in_inv pay rd t \<Longrightarrow> in_same t u \<Longrightarrow> in_inv pay rd u"
  unfolding in_same_def by (rule in_inv_same) auto

text \<open>Everything that does not read from the device or from \<open>rbuf\<close>.\<close>

inductive quiet_step :: "tun_cfg \<Rightarrow> Tunnel \<Rightarrow> Tunnel \<Rightarrow> bool" for c where
  qs_keepalive: "quiet_step c t (pump_keepalive now t)"
| qs_open: "quiet_step c t (pump_open now t)"
| qs_ctrl: "quiet_step c t (pump_ctrl now t)"
| qs_accum: "quiet_step c t (pump_accum c t)"
| qs_frame: "quiet_step c t (pump_frame c now t)"
| qs_tick: "quiet_step c t (fst (outboundTick now t))"
| qs_fail: "quiet_step c t (fail e t)"
| qs_exit: "quiet_step c t (pump_exit t)"
| qs_OpenChannel: "quiet_step c t (fst (OpenChannel_start port t))"
| qs_finish: "quiet_step c t (fst (OpenChannel_finish pv oc t))"
| qs_SendTunnelCtrl: "quiet_step c t (fst (SendTunnelCtrl pick p t))"
| qs_dropChan: "quiet_step c t (dropChan i t)"
| qs_chanConn_Read: "quiet_step c t (fst (chanConn_Read i n t))"
| qs_writeChan: "quiet_step c t (fst (writeChan pick i p t))"
| qs_Close: "quiet_step c t (Close t)"

lemma in_same_fold: "in_same t (fold (\<lambda>cb t. sendReliable now t ty b (devConn t) cb) ps t)"
proof -
  have "in_same t u \<Longrightarrow> in_same t (fold (\<lambda>cb t. sendReliable now t ty b (devConn t) cb) ps u)" for u
    by (induction ps arbitrary: u) (simp_all add: in_same_def)
  then show ?thesis by (simp add: in_same_def)
qed

lemma in_same_frame: "in_same t (pump_frame c now t)"
proof (induction c now t rule: pump_frame.induct)
  case (1 c now t)
  then show ?case by (subst pump_frame.simps) (auto simp: in_same_def frame_step_def Let_def)
qed

lemma quiet_in_same: "quiet_step c t u \<Longrightarrow> in_same t u"
proof (induction rule: quiet_step.induct)
  case (qs_ctrl t now)
  then show ?case using in_same_fold [of t now 2 1 "ctrlCh t"] by (simp add: pump_ctrl_def in_same_def)
next
  case (qs_frame t now)
  show ?case by (rule in_same_frame)
next
  case (qs_OpenChannel t port)
  then show ?case by (simp add: OpenChannel_start_def in_same_def Let_def)
qed (auto simp: in_same_def pump_keepalive_def pump_open_def pump_accum_def fail_def closeT_def set_rerr_def
    pump_exit_def OpenChannel_finish_def SendTunnelCtrl_def dropChan_def chanConn_Read_def writeChan_def
    Close_def Let_def split: option.splits prod.splits open_outcome.splits)

lemma quiet_tun_step: "quiet_step c t u \<Longrightarrow> tun_step c t u"
  by (induction rule: quiet_step.induct) (rule tun_step.intros)+

text \<open>
  \<open>in_run pay c rd t\<close>: the tunnel can be in state \<open>t\<close> with \<open>rd\<close> handed to its readers, the network
  having delivered whatever frames of the stream \<open>pay\<close> it liked, in any order and number.
\<close>

inductive in_run :: "(nat \<Rightarrow> bytes) \<Rightarrow> tun_cfg \<Rightarrow> bytes \<Rightarrow> Tunnel \<Rightarrow> bool" for pay c where
  in_start: "ctrlIdx t = 1 \<Longrightarrow> recv t = NewReassembler \<Longrightarrow> pbuf t = [] \<Longrightarrow> rbuf t = [] \<Longrightarrow>
    \<not> pumpStarted t \<Longrightarrow> in_run pay c [] t"
| in_frame: "in_run pay c rd t \<Longrightarrow> genuine pay f \<Longrightarrow> in_run pay c rd (inbound1 now f t)"
| in_consume: "in_run pay c rd t \<Longrightarrow> in_run pay c rd (pump_consume now t)"
| in_read: "in_run pay c rd t \<Longrightarrow> Read n t = (u, Returns bs) \<Longrightarrow> in_run pay c (rd @ bs) u"
| in_quiet: "in_run pay c rd t \<Longrightarrow> quiet_step c t u \<Longrightarrow> in_run pay c rd u"

lemma in_inv_Read:
  "in_inv pay rd t \<Longrightarrow> Read n t = (u, Returns bs) \<Longrightarrow> in_inv pay (rd @ bs) u"
  by (auto simp: Read_def in_inv_def consumed_bytes_def split: if_splits option.splits)

lemma in_run_inv: "in_run pay c rd t \<Longrightarrow> in_inv pay rd t"
proof (induction rule: in_run.induct)
  case (in_start t)
  then show ?case
    using reasm_inv_New by (simp add: in_inv_def) (simp add: NewReassembler_def)
next
  case (in_quiet rd t u)
  then show ?case by (blast intro: in_inv_in_same quiet_in_same)
qed (blast intro: in_inv_inbound1 in_inv_consume in_inv_Read)+

section \<open>Properties\<close>

text \<open>
  C1. In-order, exactly-once delivery to the control channel. Let the device's reliable stream be any
  function from frame number to payload. Whatever subset of its frames arrives, in whatever order
  and however often, cut into batches anywhere and interleaved with any other activity of the tunnel,
  the bytes returned by \<open>Read\<close> so far followed by those still buffered are exactly the control
  channel's data in the demultiplexed concatenation of the frames from the first one accepted up to
  \<open>pumpNext\<close>; and what is not yet parsed is exactly the incomplete tail.
\<close>

theorem inbound_exactly_once:
  assumes "in_run pay c rd t" "pumpStarted t"
  shows "rd @ rbuf t =
       chan_data 1 (fst (demux (concat (map pay [unat (base (recv t))..<unat (pumpNext t)])))) \<and>
     pbuf t = snd (demux (concat (map pay [unat (base (recv t))..<unat (pumpNext t)]))) \<and>
     unat (base (recv t)) < unat (pumpNext t)"
  using in_run_inv [OF assms(1)] assms(2) by (simp add: in_inv_def consumed_bytes_def)

theorem inbound_exactly_once_witness:
  "let pay = (\<lambda>k. if k = 4 then [2, 1, 3, 0, 65] else if k = 5 then [66, 67] else []);
       f = (\<lambda>k. rdt_pkt 2 (word_of_nat k) (pay k));
       t = pump_consume 7 (inbound1 6 (f 5) (inbound1 6 (f 4) (inbound1 6 (f 5) (pump_init 2 newTunnel))))
   in rbuf t = chan_data 1 (fst (demux (concat (map pay [unat (base (recv t))..<unat (pumpNext t)]))))"
proof -
  define pay :: "nat \<Rightarrow> bytes" where
    "pay = (\<lambda>k. if k = 4 then [2, 1, 3, 0, 65] else if k = 5 then [66, 67] else [])"
  define f where "f k = rdt_pkt 2 (word_of_nat k) (pay k)" for k
  define t where "t = pump_consume 7 (inbound1 6 (f 5) (inbound1 6 (f 4) (inbound1 6 (f 5) (pump_init 2 newTunnel))))"
  have s: "in_run pay demo_cfg [] (pump_init 2 newTunnel)"
    by (rule in_start) (simp_all add: pump_init_def newTunnel_def)
  have g: "genuine pay (f k)" if "k < 6" for k
    using that by (simp add: genuine_def f_def rdt_pkt_def)
  have r: "in_run pay demo_cfg [] t"
    unfolding t_def by (intro in_consume in_frame s g) simp_all
  have "pumpStarted t"
    by (simp add: t_def pump_consume_def pump_start_def inbound1_def f_def rdt_pkt_def Started_def Let_def
        pump_init_def newTunnel_def Add_def NewReassembler_def pump_demux_eq pump_drain_def split: prod.splits)
  from inbound_exactly_once [OF r this] show ?thesis
    unfolding Let_def by (simp add: t_def f_def pay_def)
qed

text \<open>
  What \<open>inbound_exactly_once\<close> does not promise: the pump takes the lowest sequence number of its first
  batch for the start of the stream. A frame below it that was delayed or lost is never delivered:
  when it arrives it is dropped as already consumed, and every acknowledgement the pump sends covers
  it, so the device does not send it again either.
\<close>

theorem early_frame_lost:
  assumes run: "in_run pay c rd t" and st: "pumpStarted t"
    and p: "rp_Type p = 0x02" "rp_Seq p < base (recv t)"
  shows "inbound1 now p t = t \<and>
    (\<exists>a. wire (send_ack t) = wire t @ [(appSeq t, a)] \<and> rp_Type a = 0x46 \<and> rp_Seq p < rp_Seq a)"
proof -
  let ?r = "recv t" and ?b = "unat (base (recv t))" and ?n = "unat (pumpNext t)"
  have inv: "in_inv pay rd t" by (rule in_run_inv [OF run])
  have bn: "?b < ?n" and rx: "rx_inv (frames ?r) (consumed_upto ?r) pay ?b ?n (consumed_bytes pay t)"
    using inv st by (auto simp: in_inv_def)
  have c: "consumedSet ?r" "consumed ?r = word_of_nat (?n - 1)"
    using rx bn by (auto simp: rx_inv_def consumed_upto_def split: if_splits)
  have n1: "unat (word_of_nat (?n - 1) :: u64) = ?n - 1" by (rule rx_inv_pred [OF rx])
  have "pumpNext t \<noteq> 0" using bn by auto
  then have pn: "unat (pumpNext t - 1) = ?n - 1" by (simp add: unat_minus_one)
  have "rp_Seq p \<le> consumed ?r" "rp_Seq p < pumpNext t - 1"
    using p(2) bn c(2) n1 pn by (simp_all add: word_le_nat_alt word_less_nat_alt)
  then show ?thesis
    using p(1) Add_stale [OF c(1)] by (simp add: inbound1_def send_ack_def)
qed

theorem early_frame_lost_witness:
  "let f = (\<lambda>k. rdt_pkt 2 k [2, 1, 1, 0, 65]);
       t = pump_consume 7 (inbound1 6 (f 5) (pump_init 2 newTunnel))
   in pumpStarted t \<and> inbound1 8 (f 4) t = t"
proof -
  define f where "f k = rdt_pkt 2 k [2, 1, 1, 0, 65 :: byte]" for k
  define t where "t = pump_consume 7 (inbound1 6 (f 5) (pump_init 2 newTunnel))"
  have s: "in_run (\<lambda>k. [2, 1, 1, 0, 65]) demo_cfg [] (pump_init 2 newTunnel)"
    by (rule in_start) (simp_all add: pump_init_def newTunnel_def)
  have g: "genuine (\<lambda>k. [2, 1, 1, 0, 65]) (f 5)"
    by (simp add: genuine_def f_def rdt_pkt_def)
  have r: "in_run (\<lambda>k. [2, 1, 1, 0, 65]) demo_cfg [] t"
    unfolding t_def by (intro in_consume in_frame s g)
  have u: "recv (inbound1 6 (f 5) (pump_init 2 newTunnel)) = fst (Add NewReassembler 5 [2, 1, 1, 0, 65])"
    "\<not> pumpStarted (inbound1 6 (f 5) (pump_init 2 newTunnel))"
    by (simp_all add: inbound1_def f_def rdt_pkt_def pump_init_def newTunnel_def initGoBackN_def)
  have st: "pumpStarted t \<and> base (recv t) = 5"
    using u drain_keeps
    by (simp add: t_def pump_consume_def pump_start_def Started_def Let_def Base_def
        Add_def NewReassembler_def pump_demux_eq pump_drain_def split: prod.splits)
  then have "inbound1 8 (f 4) t = t"
    using early_frame_lost [OF r, of "f 4" 8] by (simp add: f_def rdt_pkt_def)
  with st show ?thesis by (simp add: Let_def t_def f_def)
qed

end
