(* ===== verification/Link.thy ===== *)
theory Link
  imports Gobackn Reassembler Ptunnel "HOL-Library.Sublist"
begin

text \<open>
  The outbound layer of \<open>kalay/gobackn.go\<close> composed with a receiver over a network that may lose,
  duplicate, delay and reorder everything it carries, in both directions. The receiver is the
  receiving half of the pump of \<open>kalay/tunnelconn.go\<close>: it adds what arrives to a \<open>Reassembler\<close>,
  consumes the contiguous prefix, acknowledges the last consumed frame when it advances, and
  repeats that acknowledgement when nothing moves. (The device's firmware is not in the repository;
  what is composed here is the sender with the receiver of the same protocol that the repository
  has.) The composition starts when the stream is set up: sender and receiver agree on the next
  sequence number.

  \<^item> \<open>lk_net\<close> holds every frame sent that may still arrive; delivering one leaves it there, so it may
    arrive again, at any time and in any order, until the network loses it.
  \<^item> \<open>lk_acks\<close> holds the acknowledgements in the same way.
  \<^item> \<open>link_step\<close> is one event of the composed system and is executable; \<open>link_run\<close> is a schedule.
\<close>

section \<open>The composed system\<close>

record link =
  lk_tx :: gbn
  lk_net :: "RDTPacket list"
  lk_acks :: "u64 list"
  lk_rx :: Reassembler
  lk_next :: u64
  lk_out :: bytes

datatype link_ev =
    Ev_Send int bytes
  | Ev_Tick int
  | Ev_Deliver nat
  | Ev_Consume
  | Ev_Reack
  | Ev_Ack int nat
  | Ev_Lose nat
  | Ev_LoseAck nat

text \<open>What an operation of the sender adds to \<open>wire\<close> enters the network.\<close>

definition on_tx :: "(gbn \<Rightarrow> gbn) \<Rightarrow> link \<Rightarrow> link" where
  "on_tx f L = (let g = f (lk_tx L) in
     L\<lparr>lk_tx := g, lk_net := lk_net L @ map snd (drop (length (wire (lk_tx L))) (wire g))\<rparr>)"

definition lk_deliver :: "RDTPacket \<Rightarrow> link \<Rightarrow> link" where
  "lk_deliver p L = L\<lparr>lk_rx := fst (Add (lk_rx L) (rp_Seq p) (rp_Payload p))\<rparr>"

definition lk_reack :: "link \<Rightarrow> link" where
  "lk_reack L = (if lk_next L > 0 then L\<lparr>lk_acks := lk_acks L @ [lk_next L - 1]\<rparr> else L)"

definition lk_consume :: "link \<Rightarrow> link" where
  "lk_consume L = (case drain (lk_rx L) (lk_next L) (lk_out L) of (r, nx, out) \<Rightarrow>
     (let L' = L\<lparr>lk_rx := r, lk_next := nx, lk_out := out\<rparr>
      in if nx \<noteq> lk_next L then L'\<lparr>lk_acks := lk_acks L @ [nx - 1]\<rparr> else L'))"

definition drop_at :: "nat \<Rightarrow> 'a list \<Rightarrow> 'a list" where
  "drop_at i xs = take i xs @ drop (Suc i) xs"

fun link_step :: "byte \<Rightarrow> link_ev \<Rightarrow> link \<Rightarrow> link" where
  "link_step conn (Ev_Send now p) L = on_tx (\<lambda>g. sendReliable now g 2 1 conn p) L"
| "link_step conn (Ev_Tick now) L = on_tx (\<lambda>g. fst (outboundTick now g)) L"
| "link_step conn (Ev_Deliver i) L = (if i < length (lk_net L) then lk_deliver (lk_net L ! i) L else L)"
| "link_step conn Ev_Consume L = lk_consume L"
| "link_step conn Ev_Reack L = lk_reack L"
| "link_step conn (Ev_Ack now i) L =
     (if i < length (lk_acks L) then on_tx (\<lambda>g. ackOutbound now g (lk_acks L ! i)) L else L)"
| "link_step conn (Ev_Lose i) L = L\<lparr>lk_net := drop_at i (lk_net L)\<rparr>"
| "link_step conn (Ev_LoseAck i) L = L\<lparr>lk_acks := drop_at i (lk_acks L)\<rparr>"

definition link_run :: "byte \<Rightarrow> link_ev list \<Rightarrow> link \<Rightarrow> link" where
  "link_run conn = fold (link_step conn)"

fun payloads :: "link_ev list \<Rightarrow> bytes list" where
  "payloads [] = []"
| "payloads (Ev_Send now p # es) = p # payloads es"
| "payloads (_ # es) = payloads es"

definition link_start :: "gbn \<Rightarrow> link" where
  "link_start g = \<lparr>lk_tx = g, lk_net = [], lk_acks = [], lk_rx = NewReassembler,
     lk_next = txSeq g, lk_out = []\<rparr>"

text \<open>Work that needs neither a new frame nor a timer of the sender.\<close>

fun untimed :: "link_ev \<Rightarrow> bool" where
  "untimed (Ev_Send now p) = False"
| "untimed (Ev_Tick now) = False"
| "untimed (Ev_Lose i) = False"
| "untimed (Ev_LoseAck i) = False"
| "untimed _ = True"

section \<open>Invariant\<close>

definition lk_genuine :: "(nat \<Rightarrow> bytes) \<Rightarrow> nat \<Rightarrow> u64 \<Rightarrow> RDTPacket \<Rightarrow> bool" where
  "lk_genuine pay b tx p \<longleftrightarrow>
     b \<le> unat (rp_Seq p) \<and> rp_Seq p < tx \<and> rp_Payload p = pay (unat (rp_Seq p))"

definition tx_ok :: "(nat \<Rightarrow> bytes) \<Rightarrow> nat \<Rightarrow> gbn \<Rightarrow> bool" where
  "tx_ok pay b g \<longleftrightarrow> gbn_inv g \<and> 1 \<le> b \<and> b \<le> unat (sendBase g) \<and>
     (\<forall>s f. inflight g s = Some f \<longrightarrow> of_payload f = pay (unat s))"

definition rx_ok :: "(nat \<Rightarrow> bytes) \<Rightarrow> nat \<Rightarrow> gbn \<Rightarrow> Reassembler \<Rightarrow> u64 \<Rightarrow> bytes \<Rightarrow> bool" where
  "rx_ok pay b g r nx out \<longleftrightarrow> rx_inv (frames r) (consumed_upto r) pay b (unat nx) out \<and>
     (\<forall>s. frames r s \<noteq> None \<longrightarrow> s < txSeq g) \<and> sendBase g \<le> nx \<and> nx \<le> txSeq g"

definition link_inv :: "(nat \<Rightarrow> bytes) \<Rightarrow> nat \<Rightarrow> link \<Rightarrow> bool" where
  "link_inv pay b L \<longleftrightarrow> tx_ok pay b (lk_tx L) \<and>
     (\<forall>p\<in>set (lk_net L). lk_genuine pay b (txSeq (lk_tx L)) p) \<and>
     rx_ok pay b (lk_tx L) (lk_rx L) (lk_next L) (lk_out L) \<and>
     (\<forall>a\<in>set (lk_acks L). a < lk_next L)"

lemma set_drop_at: "set (drop_at i xs) \<subseteq> set xs"
  by (auto simp: drop_at_def dest: in_set_takeD in_set_dropD)

lemma link_inv_start:
  assumes "gbn_inv g" "sendBase g = txSeq g" "0 < txSeq g"
  shows "link_inv pay (unat (txSeq g)) (link_start g)"
proof -
  have "inflight g s = None" for s
    using gbn_inv_dom [OF assms(1), of s] assms(2) by auto
  moreover have "1 \<le> unat (txSeq g)"
    using assms(3) by (simp add: word_less_nat_alt)
  moreover have "unat (txSeq g) < 2 ^ 64"
    using unsigned_less [of "txSeq g", where ?'a = nat] by simp
  ultimately show ?thesis
    using assms
    by (simp add: link_inv_def link_start_def tx_ok_def rx_ok_def rx_inv_def NewReassembler_def
        consumed_upto_def)
qed

text \<open>An operation of the sender that sends no new frame keeps the composition's invariant.\<close>

lemma lk_genuine_resend:
  assumes "tx_ok pay b g" "sendBase g < txSeq g"
  shows "lk_genuine pay b (txSeq g) (frame_packet (sendBase g) (the (inflight g (sendBase g))))"
  using assms gbn_inv_dom [of g "sendBase g"] by (auto simp: tx_ok_def lk_genuine_def frame_packet_def)

lemma tx_ok_mark:
  assumes "inflight u = inflight g \<or> inflight u = mark_retx (sendBase g) (inflight g)"
    and "tx_ok pay b g" "gbn_inv u" "sendBase u = sendBase g"
  shows "tx_ok pay b u"
  using assms unfolding tx_ok_def mark_retx_def by (auto split: option.splits if_splits)

lemma link_inv_on_tx:
  assumes inv: "link_inv pay b L" and tx: "tx_ok pay b (f (lk_tx L))"
    and seq: "txSeq (lk_tx L) \<le> txSeq (f (lk_tx L))" "sendBase (f (lk_tx L)) \<le> lk_next L"
    and w: "wire (f (lk_tx L)) = wire (lk_tx L) @ ws"
      "\<forall>q\<in>set ws. lk_genuine pay b (txSeq (f (lk_tx L))) (snd q)"
  shows "link_inv pay b (on_tx f L)"
proof -
  have "lk_genuine pay b (txSeq (f (lk_tx L))) p" if "lk_genuine pay b (txSeq (lk_tx L)) p" for p
    using that seq(1) by (auto simp: lk_genuine_def)
  moreover have "rx_ok pay b (f (lk_tx L)) (lk_rx L) (lk_next L) (lk_out L)"
    using inv seq unfolding link_inv_def rx_ok_def by (meson order_less_le_trans order_trans)
  ultimately show ?thesis
    using inv tx w by (auto simp: link_inv_def on_tx_def Let_def)
qed

lemma link_inv_send:
  assumes inv: "link_inv pay b L" and room: "txSeq (lk_tx L) \<noteq> - 1"
    and p: "p = pay (unat (txSeq (lk_tx L)))"
  shows "link_inv pay b (on_tx (\<lambda>g. sendReliable now g 2 1 conn p) L)"
proof (rule link_inv_on_tx [OF inv, where ws = "[(appSeq (lk_tx L), \<lparr>rp_Type = 2, rp_Seq = txSeq (lk_tx L),
     rp_B16 = 1, rp_ConnID = conn, rp_Payload = p\<rparr>)]"])
  let ?g = "lk_tx L"
  have g: "tx_ok pay b ?g" "sendBase ?g \<le> txSeq ?g" "sendBase ?g \<le> lk_next L"
    using inv by (auto simp: link_inv_def tx_ok_def gbn_inv_def rx_ok_def)
  have less: "txSeq ?g < txSeq ?g + 1"
    using room by (simp add: word_less_nat_alt unat_u64_Suc)
  show "tx_ok pay b (sendReliable now ?g 2 1 conn p)"
    using g(1) p gbn_inv_sendReliable [OF _ room] by (auto simp: tx_ok_def split: if_splits)
  show "txSeq ?g \<le> txSeq (sendReliable now ?g 2 1 conn p)"
    using less by simp
  show "sendBase (sendReliable now ?g 2 1 conn p) \<le> lk_next L"
    using g by simp
  have "b \<le> unat (txSeq ?g)"
    using g unfolding tx_ok_def word_le_nat_alt by linarith
  then show "\<forall>q\<in>set [(appSeq ?g, \<lparr>rp_Type = 2, rp_Seq = txSeq ?g, rp_B16 = 1, rp_ConnID = conn,
      rp_Payload = p\<rparr>)]. lk_genuine pay b (txSeq (sendReliable now ?g 2 1 conn p)) (snd q)"
    using less p by (simp add: lk_genuine_def)
qed simp

lemma link_inv_tick:
  assumes inv: "link_inv pay b L"
  shows "link_inv pay b (on_tx (\<lambda>g. fst (outboundTick now g)) L)"
proof -
  let ?g = "lk_tx L"
  have g: "tx_ok pay b ?g" "gbn_inv ?g" "sendBase ?g \<le> lk_next L"
    using inv by (auto simp: link_inv_def tx_ok_def rx_ok_def)
  show ?thesis
    by (rule link_inv_on_tx [where f = "\<lambda>g. fst (outboundTick now g)", OF inv _ _ _ outboundTick_wire [OF g(2)]])
      (use g in \<open>auto simp: rto_expired_def gbn_inv_outboundTick lk_genuine_resend
        intro!: tx_ok_mark [OF outboundTick_inflight]\<close>)
qed

lemma link_inv_ack:
  assumes inv: "link_inv pay b L" and a: "a < lk_next L"
  shows "link_inv pay b (on_tx (\<lambda>g. ackOutbound now g a) L)"
proof -
  let ?g = "lk_tx L" and ?u = "ackOutbound now (lk_tx L) a"
  have g: "tx_ok pay b ?g" "gbn_inv ?g" "sendBase ?g \<le> lk_next L" "gbn_inv ?u"
    using inv by (auto simp: link_inv_def tx_ok_def rx_ok_def gbn_inv_ackOutbound)
  have "unat (sendBase ?g) \<le> unat (a + 1)" "a + 1 \<le> lk_next L" if "advances ?g a"
    using that a by (auto simp: advances_iff word_Suc_le unat_u64_Suc word_le_nat_alt word_less_nat_alt)
  then have "sendBase ?u \<le> lk_next L" "b \<le> unat (sendBase ?u)"
    using g by (auto simp: tx_ok_def ackOutbound_sendBase)
  moreover have "of_payload f = pay (unat s)" if "inflight ?u s = Some f" for s f
    using that g(1) by (auto simp: tx_ok_def ackOutbound_inflight mark_retx_def
        split: if_splits option.splits)
  ultimately have u: "tx_ok pay b ?u" "sendBase ?u \<le> lk_next L"
    using g by (auto simp: tx_ok_def)
  have "third_dup ?g a \<Longrightarrow>
      lk_genuine pay b (txSeq ?g) (frame_packet (sendBase ?g) (the (inflight ?g (sendBase ?g))))"
    by (rule lk_genuine_resend [OF g(1)]) (simp add: third_dup_def)
  then have "\<forall>q\<in>set (if third_dup ?g a then case inflight ?g (sendBase ?g) of None \<Rightarrow> []
      | Some f \<Rightarrow> [(appSeq ?g, frame_packet (sendBase ?g) f)] else []). lk_genuine pay b (txSeq ?u) (snd q)"
    by (cases "third_dup ?g a"; cases "inflight ?g (sendBase ?g)") simp_all
  moreover have "txSeq ?g \<le> txSeq ?u" by simp
  ultimately show ?thesis
    using link_inv_on_tx [where f = "\<lambda>g. ackOutbound now g a", OF inv u(1) _ u(2) ackOutbound_wire]
    by blast
qed

text \<open>The receiver's side.\<close>

lemma link_inv_deliver:
  assumes inv: "link_inv pay b L" and p: "p \<in> set (lk_net L)"
  shows "link_inv pay b (lk_deliver p L)"
proof -
  let ?g = "lk_tx L" and ?k = "unat (rp_Seq p)"
  have gen: "b \<le> ?k" "rp_Seq p < txSeq ?g" "rp_Payload p = pay ?k"
    using inv p by (auto simp: link_inv_def lk_genuine_def)
  have "?k < 2 ^ 64 - 1"
    using gen(2) unsigned_less [of "txSeq ?g", where ?'a = nat] by (simp add: word_less_nat_alt)
  then have "rx_inv (frames (fst (Add (lk_rx L) (rp_Seq p) (rp_Payload p))))
      (consumed_upto (fst (Add (lk_rx L) (rp_Seq p) (rp_Payload p)))) pay b (unat (lk_next L)) (lk_out L)"
    using inv rb.add_rx_inv [of "lk_rx L" pay b "unat (lk_next L)" "lk_out L" ?k] gen
    by (simp add: link_inv_def rx_ok_def)
  moreover have "s < txSeq ?g" if "frames (fst (Add (lk_rx L) (rp_Seq p) (rp_Payload p))) s \<noteq> None" for s
    using that inv gen(2) by (auto simp: Add_frames link_inv_def rx_ok_def split: if_splits)
  ultimately show ?thesis
    using inv by (simp add: link_inv_def rx_ok_def lk_deliver_def)
qed

lemma drain_below:
  assumes "drain r nx out = (r', nx', out')" and "nx \<le> m" "\<forall>s. frames r s \<noteq> None \<longrightarrow> s < m"
  shows "nx' \<le> m \<and> (\<forall>s. frames r' s \<noteq> None \<longrightarrow> s < m)"
proof -
  have "(nx' \<le> m \<and> (\<forall>s. frames r' s \<noteq> None \<longrightarrow> s < m)) \<and> frames r' nx' = None"
  proof (rule drain_induct [where P = "\<lambda>r nx out. nx \<le> m \<and> (\<forall>s. frames r s \<noteq> None \<longrightarrow> s < m)", OF _ assms(1)])
    fix r nx out r1 p
    assume P: "nx \<le> m \<and> (\<forall>s. frames r s \<noteq> None \<longrightarrow> s < m)" and t: "Take r nx = (r1, Some p)"
    then have f: "frames r nx = Some p" "frames r1 = (frames r)(nx := None)"
      using Take_result [of r nx] Take_frames [of r nx] by auto
    then have "nx < m" using P by simp
    then have "nx + 1 \<le> m" by (rule inc_le)
    then show "nx + 1 \<le> m \<and> (\<forall>s. frames r1 s \<noteq> None \<longrightarrow> s < m)"
      using P f(2) by simp
  qed (use assms(2,3) in blast)
  then show ?thesis by blast
qed

lemma link_inv_consume:
  assumes inv: "link_inv pay b L"
  shows "link_inv pay b (lk_consume L) \<and> lk_next L \<le> lk_next (lk_consume L) \<and>
     frames (lk_rx (lk_consume L)) (lk_next (lk_consume L)) = None"
proof -
  let ?n = "unat (lk_next L)"
  obtain r nx out where d: "drain (lk_rx L) (lk_next L) (lk_out L) = (r, nx, out)"
    by (cases "drain (lk_rx L) (lk_next L) (lk_out L)")
  have ok: "rx_ok pay b (lk_tx L) (lk_rx L) (lk_next L) (lk_out L)" and tx: "tx_ok pay b (lk_tx L)"
    using inv by (simp_all add: link_inv_def)
  obtain m where m: "nx = word_of_nat m" "?n \<le> m" "rx_inv (frames r) (consumed_upto r) pay b m out"
    "frames r nx = None"
    using drain_rx_inv [of "lk_rx L" pay b ?n "lk_out L" r nx out] ok d by (auto simp: rx_ok_def)
  have "m < 2 ^ 64" using m(3) by (simp add: rx_inv_def)
  then have mn: "unat nx = m" using m(1) by simp
  have le: "lk_next L \<le> nx" using m(2) mn by (simp add: word_le_nat_alt)
  have "rx_ok pay b (lk_tx L) r nx out"
    using ok m(3) mn le drain_below [OF d, of "txSeq (lk_tx L)"] unfolding rx_ok_def by auto
  moreover have "a < nx" if "a \<in> set (lk_acks L)" for a
    using that inv le by (auto simp: link_inv_def)
  moreover have "nx - 1 < nx" if "nx \<noteq> lk_next L"
    using that le by (simp add: word_less_nat_alt unat_dec) (metis unat_dec word_not_simps(1) antisym_conv2 order_le_less)
  ultimately show ?thesis
    using inv m(4) le d by (auto simp: link_inv_def lk_consume_def Let_def)
qed

lemma link_next_pos: "link_inv pay b L \<Longrightarrow> lk_next L \<noteq> 0 \<and> lk_next L - 1 < lk_next L"
proof -
  assume "link_inv pay b L"
  then have "1 \<le> unat (lk_next L)" by (auto simp: link_inv_def rx_ok_def rx_inv_def tx_ok_def)
  then have "lk_next L \<noteq> 0" by auto
  then show ?thesis using unat_dec [of "lk_next L"] by (simp add: word_less_nat_alt)
qed

lemma link_inv_reack: "link_inv pay b L \<Longrightarrow> link_inv pay b (lk_reack L)"
  using link_next_pos [of pay b L] by (auto simp: link_inv_def lk_reack_def)

lemma link_inv_lose: "link_inv pay b L \<Longrightarrow> set net \<subseteq> set (lk_net L) \<Longrightarrow> set acks \<subseteq> set (lk_acks L) \<Longrightarrow>
    link_inv pay b (L\<lparr>lk_net := net, lk_acks := acks\<rparr>)"
  by (auto simp: link_inv_def)

lemma link_inv_step:
  assumes inv: "link_inv pay b L"
    and send: "\<And>now p. e = Ev_Send now p \<Longrightarrow> txSeq (lk_tx L) \<noteq> - 1 \<and> p = pay (unat (txSeq (lk_tx L)))"
  shows "link_inv pay b (link_step conn e L)"
proof (cases e)
  case (Ev_Send now p)
  then show ?thesis using link_inv_send [OF inv] send by simp
next
  case (Ev_Ack now i)
  have "lk_acks L ! i < lk_next L" if "i < length (lk_acks L)"
    using inv nth_mem [OF that] by (simp add: link_inv_def)
  then show ?thesis using Ev_Ack inv link_inv_ack [OF inv] by simp
next
  case (Ev_Lose i)
  then show ?thesis using link_inv_lose [OF inv set_drop_at [of i "lk_net L"] order_refl] by simp
next
  case (Ev_LoseAck i)
  then show ?thesis using link_inv_lose [OF inv order_refl set_drop_at [of i "lk_acks L"]] by simp
qed (use inv in \<open>simp_all add: link_inv_tick link_inv_deliver link_inv_consume link_inv_reack\<close>)

text \<open>Only a send moves \<open>txSeq\<close>.\<close>

lemma link_step_txSeq:
  "txSeq (lk_tx (link_step conn e L)) = txSeq (lk_tx L) + (case e of Ev_Send now p \<Rightarrow> 1 | _ \<Rightarrow> 0)"
  by (cases e) (auto simp: on_tx_def Let_def lk_deliver_def lk_consume_def lk_reack_def split: prod.splits)

lemma payloads_Cons: "payloads (e # es) = (case e of Ev_Send now p \<Rightarrow> [p] | _ \<Rightarrow> []) @ payloads es"
  by (cases e) simp_all

lemma link_inv_run:
  assumes "link_inv pay b L"
    and "unat (txSeq (lk_tx L)) + length (payloads es) < 2 ^ 64"
    and "\<forall>i<length (payloads es). payloads es ! i = pay (unat (txSeq (lk_tx L)) + i)"
  shows "link_inv pay b (link_run conn es L) \<and>
     unat (txSeq (lk_tx (link_run conn es L))) = unat (txSeq (lk_tx L)) + length (payloads es)"
  using assms
proof (induction es arbitrary: L)
  case Nil
  then show ?case by (simp add: link_run_def)
next
  case (Cons e es)
  let ?L = "link_step conn e L" and ?t = "txSeq (lk_tx L)" and ?d = "case e of Ev_Send now p \<Rightarrow> 1 | _ \<Rightarrow> 0"
  have send: "?t \<noteq> - 1 \<and> p = pay (unat ?t)" if "e = Ev_Send now p" for now p
    using that Cons.prems(2) Cons.prems(3) [rule_format, of 0] by (auto simp: unsigned_minus_1_eq_mask mask_eq_exp_minus_1)
  have t: "unat (txSeq (lk_tx ?L)) = unat ?t + ?d"
    using send unat_u64_Suc [of ?t] by (auto simp: link_step_txSeq split: link_ev.splits)
  have "payloads es ! i = pay (unat (txSeq (lk_tx ?L)) + i)" if "i < length (payloads es)" for i
    using Cons.prems(3) [rule_format, of "?d + i"] that unfolding t payloads_Cons
    by (auto split: link_ev.splits)
  moreover have "length (payloads (e # es)) = ?d + length (payloads es)"
    by (auto simp: payloads_Cons split: link_ev.splits)
  ultimately show ?case
    using Cons.IH [of ?L] link_inv_step [OF Cons.prems(1) send] Cons.prems(2) t
    by (simp add: link_run_def)
qed

section \<open>Delivery after loss\<close>

text \<open>
  \<open>quietly L L'\<close>: some schedule of receiver work and acknowledgements alone, with no new frame and
  no timer of the sender, leads from \<open>L\<close> to \<open>L'\<close>.
\<close>

definition quietly :: "byte \<Rightarrow> link \<Rightarrow> link \<Rightarrow> bool" where
  "quietly conn L L' \<longleftrightarrow> (\<exists>es. list_all untimed es \<and> L' = link_run conn es L)"

lemma quietly_refl: "quietly conn L L"
  unfolding quietly_def by (rule exI [of _ "[]"]) (simp add: link_run_def)

lemma quietly_step: "untimed e \<Longrightarrow> quietly conn L (link_step conn e L)"
  unfolding quietly_def by (rule exI [of _ "[e]"]) (simp add: link_run_def)

lemma quietly_trans:
  assumes "quietly conn L M" "quietly conn M N"
  shows "quietly conn L N"
proof -
  obtain es fs where "list_all untimed es" "M = link_run conn es L" "list_all untimed fs" "N = link_run conn fs M"
    using assms unfolding quietly_def by blast
  then have "list_all untimed (es @ fs) \<and> N = link_run conn (es @ fs) L" by (simp add: link_run_def)
  then show ?thesis unfolding quietly_def by blast
qed

lemma untimed_txSeq: "untimed e \<Longrightarrow> txSeq (lk_tx (link_step conn e L)) = txSeq (lk_tx L)"
  unfolding link_step_txSeq by (cases e) simp_all

lemma quietly_keeps:
  assumes "quietly conn L L'" "link_inv pay b L"
  shows "link_inv pay b L' \<and> txSeq (lk_tx L') = txSeq (lk_tx L)"
proof -
  have "link_inv pay b (link_run conn es L) \<and> txSeq (lk_tx (link_run conn es L)) = txSeq (lk_tx L)"
    if "list_all untimed es" for es
    using that assms(2)
  proof (induction es arbitrary: L)
    case (Cons e es)
    then have "link_inv pay b (link_step conn e L)" by (intro link_inv_step) auto
    with Cons show ?case by (simp add: link_run_def untimed_txSeq)
  qed (simp add: link_run_def)
  with assms(1) show ?thesis unfolding quietly_def by blast
qed

text \<open>The receiver repeats its acknowledgement and the sender gets it.\<close>

definition nudge :: "int \<Rightarrow> link \<Rightarrow> link" where
  "nudge now L = on_tx (\<lambda>g. ackOutbound now g (lk_next L - 1)) (lk_reack L)"

lemma quietly_nudge:
  assumes "link_inv pay b L"
  shows "quietly conn L (nudge now L)"
proof -
  have "lk_next L > 0" using link_next_pos [OF assms] by (simp add: word_neq_0_conv)
  then have "nudge now L = link_step conn (Ev_Ack now (length (lk_acks L))) (link_step conn Ev_Reack L)"
    by (simp add: nudge_def lk_reack_def)
  then show ?thesis
    using quietly_trans [OF quietly_step quietly_step, of Ev_Reack "Ev_Ack now (length (lk_acks L))"] by simp
qed

lemma nudge_fields:
  assumes "link_inv pay b L"
  shows "lk_tx (nudge now L) = ackOutbound now (lk_tx L) (lk_next L - 1)" "lk_next (nudge now L) = lk_next L"
    "lk_net (nudge now L) = lk_net L @
       map snd (drop (length (wire (lk_tx L))) (wire (ackOutbound now (lk_tx L) (lk_next L - 1))))"
  by (simp_all add: nudge_def on_tx_def Let_def lk_reack_def)

text \<open>An acknowledgement of frames the sender still holds frees them.\<close>

lemma nudge_advances:
  assumes inv: "link_inv pay b L" and "sendBase (lk_tx L) < lk_next L"
  shows "sendBase (lk_tx (nudge now L)) = lk_next L"
proof -
  have pos: "lk_next L \<noteq> 0" "lk_next L - 1 < lk_next L" using link_next_pos [OF inv] by auto
  have le: "lk_next L \<le> txSeq (lk_tx L)" using inv by (simp add: link_inv_def rx_ok_def)
  have "sendBase (lk_tx L) \<le> lk_next L - 1"
    using assms(2) pos(1) by (simp add: word_le_nat_alt word_less_nat_alt unat_minus_one)
  moreover have "lk_next L - 1 \<noteq> - 1" using pos(1) by (metis diff_add_cancel add.left_inverse)
  ultimately have "advances (lk_tx L) (lk_next L - 1)"
    using pos(2) le by (simp add: advances_iff)
  then show ?thesis by (simp add: nudge_fields [OF inv] ackOutbound_sendBase)
qed

lemma ackOutbound_dup:
  assumes "\<not> advances t a" "sendBase t < txSeq t" "a = lastAckSeq t" "dupAcks t < 2"
  shows "dupAcks (ackOutbound now t a) = dupAcks t + 1"
  using assms by (auto simp: ackOutbound_def advances_def Let_def)

text \<open>When the receiver waits for the oldest unacknowledged frame, repeating its acknowledgement makes
  the sender send that frame again.\<close>

lemma waiting_not_advances:
  assumes inv: "link_inv pay b L" and "sendBase (lk_tx L) = lk_next L"
  shows "\<not> advances (lk_tx L) (lk_next L - 1)"
  using link_next_pos [OF inv] assms(2) by (auto simp: advances_iff)

definition resent :: "link \<Rightarrow> bool" where
  "resent L \<longleftrightarrow> (\<exists>p\<in>set (lk_net L). rp_Seq p = lk_next L)"

lemma nudge_waiting:
  assumes inv: "link_inv pay b L" and base: "sendBase (lk_tx L) = lk_next L" and open1: "lk_next L < txSeq (lk_tx L)"
  shows "lk_next (nudge now L) = lk_next L" "sendBase (lk_tx (nudge now L)) = lk_next L"
    "lastAckSeq (lk_tx (nudge now L)) = lk_next L - 1"
    "lastAckSeq (lk_tx L) = lk_next L - 1 \<Longrightarrow>
       resent (nudge now L) \<or> dupAcks (lk_tx (nudge now L)) = dupAcks (lk_tx L) + 1"
proof -
  let ?g = "lk_tx L" and ?a = "lk_next L - 1"
  note na = waiting_not_advances [OF inv base]
  show "lk_next (nudge now L) = lk_next L" "sendBase (lk_tx (nudge now L)) = lk_next L"
    "lastAckSeq (lk_tx (nudge now L)) = ?a"
    using na base by (simp_all add: nudge_fields [OF inv] ackOutbound_sendBase)
  assume last: "lastAckSeq ?g = ?a"
  show "resent (nudge now L) \<or> dupAcks (lk_tx (nudge now L)) = dupAcks ?g + 1"
  proof (cases "third_dup ?g ?a")
    case True
    have "gbn_inv ?g" using inv by (simp add: link_inv_def tx_ok_def)
    then obtain f where "inflight ?g (sendBase ?g) = Some f"
      using gbn_inv_dom [of ?g "sendBase ?g"] base open1 by auto
    then have "frame_packet (sendBase ?g) f \<in> set (lk_net (nudge now L))"
      using True by (simp add: nudge_fields [OF inv] ackOutbound_wire)
    then have "resent (nudge now L)"
      unfolding resent_def nudge_fields(2) [OF inv] by (rule bexI [rotated]) (simp add: frame_packet_def base)
    then show ?thesis ..
  next
    case False
    then have "dupAcks ?g < 2" using na base open1 last by (simp add: third_dup_def)
    then show ?thesis
      using ackOutbound_dup [OF na, of now] base open1 last by (simp add: nudge_fields [OF inv])
  qed
qed

lemma dup_acks_resend:
  assumes "link_inv pay b L" "sendBase (lk_tx L) = lk_next L" "lk_next L < txSeq (lk_tx L)"
    and "lastAckSeq (lk_tx L) = lk_next L - 1"
  shows "\<exists>L'. quietly conn L L' \<and> resent L' \<and> lk_next L' = lk_next L \<and> sendBase (lk_tx L') = lk_next L"
  using assms
proof (induction "3 - dupAcks (lk_tx L)" arbitrary: L rule: less_induct)
  case less
  let ?M = "nudge now L"
  note w = nudge_waiting [OF less.prems(1-3), of now]
  have q: "quietly conn L ?M" by (rule quietly_nudge [OF less.prems(1)])
  then have M: "link_inv pay b ?M" "txSeq (lk_tx ?M) = txSeq (lk_tx L)"
    using quietly_keeps less.prems(1) by auto
  show ?case
  proof (cases "resent ?M")
    case True
    with q w(1,2) show ?thesis by blast
  next
    case False
    then have d: "dupAcks (lk_tx ?M) = dupAcks (lk_tx L) + 1" using w(4) less.prems(4) by blast
    have "dupAcks (lk_tx L) < 3" using less.prems(1) by (simp add: link_inv_def tx_ok_def gbn_inv_def)
    then have "3 - dupAcks (lk_tx ?M) < 3 - dupAcks (lk_tx L)" using d by simp
    then obtain L' where "quietly conn ?M L'" "resent L'" "lk_next L' = lk_next ?M" "sendBase (lk_tx L') = lk_next ?M"
      using less.hyps [of ?M] M w less.prems(3) by auto
    then show ?thesis using quietly_trans [OF q] w(1) by auto
  qed
qed

lemma add_awaited:
  assumes "rx_inv (frames r) (consumed_upto r) pay b (unat n) out"
  shows "frames (fst (Add r n p)) n \<noteq> None"
proof -
  have "\<not> (consumedSet r \<and> n \<le> consumed r)"
  proof
    assume c: "consumedSet r \<and> n \<le> consumed r"
    then have "b < unat n" "consumed r = word_of_nat (unat n - 1)"
      using assms by (auto simp: rx_inv_def consumed_upto_def split: if_splits)
    then have "unat (consumed r) < unat n" using rx_inv_pred [OF assms] by simp
    with c show False by (simp add: word_le_nat_alt)
  qed
  then show ?thesis by (auto simp: Add_frames)
qed

lemma consume_awaited:
  assumes inv: "link_inv pay b L" and held: "frames (lk_rx L) (lk_next L) \<noteq> None"
  shows "lk_next L < lk_next (lk_consume L)"
proof -
  let ?n = "unat (lk_next L)"
  have rx: "rx_inv (frames (lk_rx L)) (consumed_upto (lk_rx L)) pay b ?n (lk_out L)"
    using inv by (simp add: link_inv_def rx_ok_def)
  obtain r p where t: "Take (lk_rx L) (lk_next L) = (r, Some p)"
    using held Take_result [of "lk_rx L" "lk_next L"] by (metis option.exhaust prod.collapse)
  then have "rx_inv (frames r) (consumed_upto r) pay b (Suc ?n) (lk_out L @ p)"
    using rb.take_rx_inv [OF rx, of r p] by simp
  moreover obtain r' nx out where d: "drain (lk_rx L) (lk_next L) (lk_out L) = (r', nx, out)"
    by (cases "drain (lk_rx L) (lk_next L) (lk_out L)")
  moreover have "drain r (word_of_nat (Suc ?n)) (lk_out L @ p) = (r', nx, out)"
    using d t by (simp add: drain.simps [of "lk_rx L"] add.commute)
  ultimately obtain m where "nx = word_of_nat m" "Suc ?n \<le> m"
      "rx_inv (frames r') (consumed_upto r') pay b m out"
    using drain_rx_inv by blast
  moreover from this(3) have "m < 2 ^ 64" by (simp add: rx_inv_def)
  ultimately have "?n < unat nx" by simp
  then show ?thesis using d by (auto simp: lk_consume_def Let_def word_less_nat_alt)
qed

text \<open>The awaited frame arrives: the receiver moves on.\<close>

lemma resent_delivers:
  assumes inv: "link_inv pay b L" and "resent L"
  shows "\<exists>L'. quietly conn L L' \<and> lk_next L < lk_next L' \<and> lk_tx L' = lk_tx L"
proof -
  obtain i where i: "i < length (lk_net L)" "rp_Seq (lk_net L ! i) = lk_next L"
    using assms(2) by (auto simp: resent_def in_set_conv_nth)
  let ?M = "link_step conn (Ev_Deliver i) L"
  have M: "link_inv pay b ?M" by (rule link_inv_step [OF inv]) simp
  have "rx_inv (frames (lk_rx L)) (consumed_upto (lk_rx L)) pay b (unat (lk_next L)) (lk_out L)"
    using inv by (simp add: link_inv_def rx_ok_def)
  from add_awaited [OF this] have "frames (lk_rx ?M) (lk_next ?M) \<noteq> None"
    using i by (simp add: lk_deliver_def)
  then have "lk_next ?M < lk_next (lk_consume ?M)" by (rule consume_awaited [OF M])
  moreover have "quietly conn L (lk_consume ?M)"
    using quietly_trans [OF quietly_step quietly_step, of "Ev_Deliver i" Ev_Consume] by simp
  moreover have "lk_next ?M = lk_next L" "lk_tx (lk_consume ?M) = lk_tx L"
    using i(1) by (simp_all add: lk_deliver_def lk_consume_def Let_def split: prod.splits)
  ultimately show ?thesis by metis
qed

lemma link_progress:
  assumes inv: "link_inv pay b L" and "sendBase (lk_tx L) < txSeq (lk_tx L)"
  shows "\<exists>L'. quietly conn L L' \<and> sendBase (lk_tx L) < sendBase (lk_tx L')"
proof (cases "sendBase (lk_tx L) < lk_next L")
  case True
  then show ?thesis
    using nudge_advances [OF inv True, of 0] quietly_nudge [OF inv, of conn 0] by auto
next
  case False
  moreover have "sendBase (lk_tx L) \<le> lk_next L" using inv by (simp add: link_inv_def rx_ok_def)
  ultimately have base: "sendBase (lk_tx L) = lk_next L" by simp
  let ?M = "nudge 0 L"
  note w = nudge_waiting [OF inv base, of 0, unfolded base [symmetric], OF assms(2)]
  have LM: "quietly conn L ?M" by (rule quietly_nudge [OF inv])
  then have M: "link_inv pay b ?M" "txSeq (lk_tx ?M) = txSeq (lk_tx L)" using quietly_keeps inv by auto
  obtain N where N: "quietly conn ?M N" "resent N" "lk_next N = lk_next L" "sendBase (lk_tx N) = lk_next L"
    using dup_acks_resend [OF M(1), of conn] w M(2) assms(2) base by auto
  then have "link_inv pay b N" using quietly_keeps M(1) by blast
  then obtain K where K: "quietly conn N K" "lk_next N < lk_next K" "lk_tx K = lk_tx N"
    using resent_delivers N(2) by blast
  then have k: "link_inv pay b K" using quietly_keeps \<open>link_inv pay b N\<close> by blast
  have "sendBase (lk_tx K) < lk_next K" using K N by simp
  then have "sendBase (lk_tx (nudge 0 K)) = lk_next K" by (rule nudge_advances [OF k])
  moreover have "quietly conn L (nudge 0 K)"
    by (intro quietly_trans [OF LM] quietly_trans [OF N(1)] quietly_trans [OF K(1)] quietly_nudge [OF k])
  ultimately show ?thesis using K(2) N(3) base by (intro exI [of _ "nudge 0 K"]) simp
qed

lemma link_drains:
  assumes "link_inv pay b L"
  shows "\<exists>L'. quietly conn L L' \<and> sendBase (lk_tx L') = txSeq (lk_tx L')"
  using assms
proof (induction "unat (txSeq (lk_tx L)) - unat (sendBase (lk_tx L))" arbitrary: L rule: less_induct)
  case less
  have le: "sendBase (lk_tx L) \<le> txSeq (lk_tx L)"
    using less.prems by (simp add: link_inv_def tx_ok_def gbn_inv_def)
  show ?case
  proof (cases "sendBase (lk_tx L) = txSeq (lk_tx L)")
    case True
    then show ?thesis using quietly_refl by blast
  next
    case False
    then have lt: "sendBase (lk_tx L) < txSeq (lk_tx L)" using le by simp
    then obtain M where M: "quietly conn L M" "sendBase (lk_tx L) < sendBase (lk_tx M)"
      using link_progress [OF less.prems] by blast
    then have k: "link_inv pay b M" "txSeq (lk_tx M) = txSeq (lk_tx L)"
      using quietly_keeps less.prems by auto
    have "unat (txSeq (lk_tx M)) - unat (sendBase (lk_tx M)) < unat (txSeq (lk_tx L)) - unat (sendBase (lk_tx L))"
      using M(2) k(2) lt by (auto simp: word_less_nat_alt intro: diff_less_mono2)
    then show ?thesis using less.hyps [OF _ k(1)] quietly_trans [OF M(1)] by blast
  qed
qed

section \<open>Properties\<close>

definition unacked_bytes :: "gbn \<Rightarrow> bytes list" where
  "unacked_bytes g = map (\<lambda>(ty, b16, c, p). p) (unacked g)"

lemma map_nth_upt:
  assumes "b \<le> m" "m \<le> n" "n \<le> b + length xs"
  shows "map (\<lambda>k. xs ! (k - b)) [m..<n] = take (n - m) (drop (m - b) xs)"
  using assms by (auto intro!: nth_equalityI)

lemma link_inv_unacked:
  assumes "link_inv pay b L"
  shows "unacked_bytes (lk_tx L) = map pay [unat (sendBase (lk_tx L))..<unat (txSeq (lk_tx L))]"
proof -
  let ?g = "lk_tx L"
  have "of_payload (the (inflight ?g (word_of_nat k))) = pay k"
    if lim: "unat (sendBase ?g) \<le> k" "k < unat (txSeq ?g)" for k
  proof -
    have k: "unat (word_of_nat k :: u64) = k"
      using lim(2) unsigned_less [of "txSeq ?g", where ?'a = nat] by simp
    have inv: "gbn_inv ?g" using assms by (simp add: link_inv_def tx_ok_def)
    obtain f where "inflight ?g (word_of_nat k) = Some f"
      using gbn_inv_dom [OF inv, of "word_of_nat k"] lim k by (auto simp: word_le_nat_alt word_less_nat_alt)
    then show ?thesis using assms k by (auto simp: link_inv_def tx_ok_def)
  qed
  then show ?thesis by (simp add: unacked_bytes_def unacked_def frame_key_def)
qed

lemma link_run_inv:
  assumes "gbn_inv g" "sendBase g = txSeq g" "0 < txSeq g"
    and "unat (txSeq g) + length (payloads es) < 2 ^ 64"
  defines "pay \<equiv> \<lambda>k. payloads es ! (k - unat (txSeq g))"
  shows "link_inv pay (unat (txSeq g)) (link_run conn es (link_start g))"
    "unat (txSeq (lk_tx (link_run conn es (link_start g)))) = unat (txSeq g) + length (payloads es)"
proof -
  have "link_inv pay (unat (txSeq g)) (link_run conn es (link_start g)) \<and>
    unat (txSeq (lk_tx (link_run conn es (link_start g)))) = unat (txSeq (lk_tx (link_start g))) + length (payloads es)"
    using assms(4) by (intro link_inv_run link_inv_start assms(1-3)) (simp_all add: link_start_def pay_def)
  then show "link_inv pay (unat (txSeq g)) (link_run conn es (link_start g))"
    "unat (txSeq (lk_tx (link_run conn es (link_start g)))) = unat (txSeq g) + length (payloads es)"
    by (simp_all add: link_start_def)
qed

lemma link_out_take:
  fixes conn :: byte
  assumes "gbn_inv g" "sendBase g = txSeq g" "0 < txSeq g"
    and "unat (txSeq g) + length (payloads es) < 2 ^ 64"
  defines "L \<equiv> link_run conn es (link_start g)"
  defines "j \<equiv> unat (lk_next L) - unat (txSeq g)" and "k \<equiv> unat (sendBase (lk_tx L)) - unat (txSeq g)"
  shows "lk_out L = concat (take j (payloads es)) \<and> unacked_bytes (lk_tx L) = drop k (payloads es) \<and>
    k \<le> j \<and> j \<le> length (payloads es)"
proof -
  let ?b = "unat (txSeq g)" and ?ps = "payloads es"
  note inv = link_run_inv [OF assms(1-4), of conn, folded L_def]
  have ord: "?b \<le> unat (sendBase (lk_tx L))" "unat (sendBase (lk_tx L)) \<le> unat (lk_next L)"
    "unat (lk_next L) \<le> ?b + length ?ps"
    using inv by (auto simp: link_inv_def tx_ok_def rx_ok_def word_le_nat_alt)
  have "lk_out L = concat (map (\<lambda>k. ?ps ! (k - ?b)) [?b..<unat (lk_next L)])"
    using inv(1) by (simp add: link_inv_def rx_ok_def rx_inv_def)
  then have "lk_out L = concat (take j ?ps)"
    using map_nth_upt [of ?b ?b "unat (lk_next L)" ?ps] ord by (simp add: j_def)
  moreover have "unacked_bytes (lk_tx L) = drop k ?ps"
    using map_nth_upt [of ?b "unat (sendBase (lk_tx L))" "?b + length ?ps" ?ps] ord
      link_inv_unacked [OF inv(1)] inv(2) by (simp add: k_def)
  moreover have "k \<le> j" "j \<le> length ?ps" using ord unfolding j_def k_def by linarith+
  ultimately show ?thesis by simp
qed

text \<open>
  C7. Over a network that loses, duplicates, delays and reorders frames and acknowledgements at
  will, the receiver never gets anything but a prefix of what was written, in order and without
  repetition; and the sender never forgets a frame that the receiver does not have: its
  retransmission buffer is a suffix of what was written that overlaps or meets that prefix. This
  holds after every schedule, timers and acknowledgements at any moment included.
\<close>

theorem link_safe:
  assumes "gbn_inv g" "sendBase g = txSeq g" "0 < txSeq g"
    and "unat (txSeq g) + length (payloads es) < 2 ^ 64"
  shows "\<exists>j k. k \<le> j \<and> j \<le> length (payloads es) \<and>
     lk_out (link_run conn es (link_start g)) = concat (take j (payloads es)) \<and>
     unacked_bytes (lk_tx (link_run conn es (link_start g))) = drop k (payloads es)"
  using link_out_take [OF assms, of conn] by blast

text \<open>A schedule in which the first of two frames is lost and the second arrives twice.\<close>

definition link_tx0 :: gbn where "link_tx0 = initGoBackN 0 zero_gbn"

definition lossy :: "link_ev list" where
  "lossy = [Ev_Send 1 [65, 66], Ev_Send 2 [67], Ev_Lose 0, Ev_Deliver 0, Ev_Deliver 0, Ev_Consume, Ev_Reack, Ev_Ack 3 0]"

lemma link_tx0_start: "gbn_inv link_tx0" "sendBase link_tx0 = txSeq link_tx0" "txSeq link_tx0 = 3"
  "payloads lossy = [[65, 66], [67]]"
  unfolding link_tx0_def lossy_def
  by (rule gbn_inv_initGoBackN) (simp_all add: zero_gbn_def initGoBackN_def)

theorem link_safe_witness:
  "payloads lossy = [[65, 66], [67]] \<and> 0 < txSeq link_tx0 \<and>
   (\<exists>j k. k \<le> j \<and> j \<le> length (payloads lossy) \<and>
     lk_out (link_run 9 lossy (link_start link_tx0)) = concat (take j (payloads lossy)) \<and>
     unacked_bytes (lk_tx (link_run 9 lossy (link_start link_tx0))) = drop k (payloads lossy))"
  using link_safe [OF link_tx0_start(1,2), of lossy 9] by (simp add: link_tx0_start)

text \<open>
  The composition is never stuck. Whatever happened before, and even if everything in transit is
  lost at this moment, there is a continuation without any new frame and without the sender's
  timers (the receiver's repeated acknowledgements reach the sender and what that makes the sender
  send again arrives) after which the receiver has everything that was written and the sender's
  buffer is empty.
\<close>

theorem link_never_stuck:
  assumes "gbn_inv g" "sendBase g = txSeq g" "0 < txSeq g"
    and "unat (txSeq g) + length (payloads es) < 2 ^ 64"
  shows "\<exists>fs. list_all untimed fs \<and>
     lk_out (link_run conn fs ((link_run conn es (link_start g))\<lparr>lk_net := [], lk_acks := []\<rparr>))
       = concat (payloads es) \<and>
     unacked_bytes (lk_tx (link_run conn fs ((link_run conn es (link_start g))\<lparr>lk_net := [], lk_acks := []\<rparr>))) = []"
proof -
  let ?L = "(link_run conn es (link_start g))\<lparr>lk_net := [], lk_acks := []\<rparr>"
  let ?b = "unat (txSeq g)" and ?ps = "payloads es"
  note inv = link_run_inv [OF assms, of conn]
  have L: "link_inv (\<lambda>k. ?ps ! (k - ?b)) ?b ?L" using link_inv_lose [OF inv(1), of "[]" "[]"] by simp
  then obtain L' where L': "quietly conn ?L L'" "sendBase (lk_tx L') = txSeq (lk_tx L')"
    using link_drains by blast
  then have inv': "link_inv (\<lambda>k. ?ps ! (k - ?b)) ?b L'" "txSeq (lk_tx L') = txSeq (lk_tx ?L)"
    using quietly_keeps [OF L'(1) L] by auto
  have "lk_next L' = txSeq (lk_tx L')"
    using inv'(1) L'(2) by (auto simp: link_inv_def rx_ok_def intro: antisym)
  then have "unat (lk_next L') = ?b + length ?ps" using inv'(2) inv(2) by simp
  then have "lk_out L' = concat ?ps"
    using inv'(1) map_nth_upt [of ?b ?b "?b + length ?ps" ?ps]
    by (simp add: link_inv_def rx_ok_def rx_inv_def)
  moreover have "unacked_bytes (lk_tx L') = []"
    using link_inv_unacked [OF inv'(1)] L'(2) by simp
  ultimately show ?thesis using L'(1) unfolding quietly_def by blast
qed

lemma demux_prefix:
  assumes "demux (a @ b) = (ms, [])"
  shows "prefix (fst (demux a)) ms"
  using demux_append [of a b] assms by (cases "demux (snd (demux a) @ b)") (auto simp: prefix_def)



end
