(* ===== verification/Tunnel_Pair.thy ===== *)
theory Tunnel_Pair
  imports Tunnel_Inbound Tunnel_Outbound Link
begin

text \<open>
  Two tunnels connected by a network. \<open>A\<close> and \<open>B\<close> are two states of the whole \<open>Tunnel\<close> of \<open>kalay/tunnelconn.go\<close>,
  each with its pump and its clients. What \<open>B\<close> receives is any packet that \<open>A\<close> has ever put on the wire, at any time, any number of
  times and in any order; what \<open>A\<close> receives is arbitrary, forged acknowledgements included. The result is the
  contract of a byte stream between the \<open>Write\<close> calls at \<open>A\<close> and the \<open>Read\<close> calls at \<open>B\<close>.

  \<^item> \<open>tx_hist H b t\<close>: \<open>H\<close> are the payloads that \<open>t\<close> has handed to its reliable layer since sequence number \<open>b\<close>; everything
    of type 0x02 on the wire and everything kept for retransmission is one of them, under its number.
  \<^item> \<open>flow\<close> is the composed system. The writes that \<open>A\<close> has accepted and the bytes that \<open>B\<close> has handed out are part of its state.
\<close>

section \<open>The history of a sender\<close>

definition tx_hist :: "bytes list \<Rightarrow> nat \<Rightarrow> Tunnel \<Rightarrow> bool" where
  "tx_hist H b t \<longleftrightarrow> unat (txSeq t) = b + length H \<and>
     (\<forall>q\<in>set (wire t). rp_Type (snd q) = 0x02 \<longrightarrow> b \<le> unat (rp_Seq (snd q)) \<and>
        unat (rp_Seq (snd q)) < b + length H \<and> rp_Payload (snd q) = H ! (unat (rp_Seq (snd q)) - b)) \<and>
     (\<forall>s f. inflight t s = Some f \<longrightarrow> b \<le> unat s \<and> unat s < b + length H \<and> of_payload f = H ! (unat s - b))"

definition in_hist :: "bytes list \<Rightarrow> nat \<Rightarrow> u64 \<Rightarrow> bytes \<Rightarrow> bool" where
  "in_hist H b s p \<longleftrightarrow> b \<le> unat s \<and> unat s < b + length H \<and> p = H ! (unat s - b)"

lemma tx_hist_iff:
  "tx_hist H b t \<longleftrightarrow> unat (txSeq t) = b + length H \<and>
     (\<forall>q\<in>set (wire t). rp_Type (snd q) = 0x02 \<longrightarrow> in_hist H b (rp_Seq (snd q)) (rp_Payload (snd q))) \<and>
     (\<forall>s f. inflight t s = Some f \<longrightarrow> in_hist H b s (of_payload f))"
  by (simp add: tx_hist_def in_hist_def)

lemma in_hist_append: "in_hist H b s p \<Longrightarrow> in_hist (H @ ps) b s p"
  by (auto simp: in_hist_def nth_append)

text \<open>An operation that sends nothing new: it may put packets of other types on the wire and frames that are in flight.\<close>

lemma tx_hist_resend:
  assumes h: "tx_hist H b t" and "txSeq u = txSeq t" and w: "wire u = wire t @ ws"
    and ws: "\<forall>q\<in>set ws. rp_Type (snd q) = 0x02 \<longrightarrow>
      (\<exists>f. inflight t (rp_Seq (snd q)) = Some f \<and> rp_Payload (snd q) = of_payload f)"
    and i: "\<forall>s f. inflight u s = Some f \<longrightarrow> (\<exists>g. inflight t s = Some g \<and> of_payload f = of_payload g)"
  shows "tx_hist H b u"
proof -
  have infl: "in_hist H b s (of_payload f)" if "inflight t s = Some f" for s f
    using h that by (simp add: tx_hist_iff)
  have "in_hist H b (rp_Seq (snd q)) (rp_Payload (snd q))" if q: "q \<in> set (wire u)" "rp_Type (snd q) = 0x02" for q
  proof (cases "q \<in> set (wire t)")
    case True
    then show ?thesis using h q(2) by (simp add: tx_hist_iff)
  next
    case False
    then have "q \<in> set ws" using q(1) w by simp
    then obtain f where "inflight t (rp_Seq (snd q)) = Some f" "rp_Payload (snd q) = of_payload f"
      using ws q(2) by blast
    then show ?thesis using infl by simp
  qed
  moreover have "in_hist H b s (of_payload f)" if "inflight u s = Some f" for s f
    using i infl that by metis
  ultimately show ?thesis using h assms(2) by (simp add: tx_hist_iff)
qed

lemma tx_hist_same:
  assumes "tx_hist H b t" "txSeq u = txSeq t" "wire u = wire t" "inflight u = inflight t"
  shows "tx_hist H b u"
  using assms by (simp add: tx_hist_def)

lemma tx_hist_sendRDT: "tx_hist H b t \<Longrightarrow> ty \<noteq> 0x02 \<Longrightarrow> tx_hist H b (sendRDT t ty b16 c s p)"
  by (rule tx_hist_resend [where t = t]) auto

lemma tx_hist_send_ack: "tx_hist H b t \<Longrightarrow> tx_hist H b (send_ack t)"
  by (simp add: send_ack_def tx_hist_sendRDT)

lemma tx_hist_sendReliable:
  assumes h: "tx_hist H b t" and room: "txSeq t \<noteq> - 1"
  shows "tx_hist (H @ [p]) b (sendReliable now t ty b16 c p)"
proof -
  have n: "unat (txSeq t) = b + length H" using h by (simp add: tx_hist_def)
  then have "in_hist (H @ [p]) b (txSeq t) p" by (simp add: in_hist_def)
  then show ?thesis
    using h n unat_u64_Suc [OF room] in_hist_append by (simp add: tx_hist_iff)
qed

lemma resent_payload:
  assumes "inflight u = inflight t \<or> inflight u = mark_retx (sendBase t) (inflight t)" "inflight u s = Some f"
  shows "\<exists>g. inflight t s = Some g \<and> of_payload f = of_payload g"
  using assms by (auto simp: mark_retx_def split: option.splits if_splits)

lemma tx_hist_ack:
  assumes "tx_hist H b t"
  shows "tx_hist H b (ackOutbound now t a)"
proof (rule tx_hist_resend [OF assms _ ackOutbound_wire])
  show "\<forall>q\<in>set (if third_dup t a then case inflight t (sendBase t) of None \<Rightarrow> []
      | Some f \<Rightarrow> [(appSeq t, frame_packet (sendBase t) f)] else []). rp_Type (snd q) = 0x02 \<longrightarrow>
      (\<exists>f. inflight t (rp_Seq (snd q)) = Some f \<and> rp_Payload (snd q) = of_payload f)"
    by (cases "third_dup t a"; cases "inflight t (sendBase t)") (simp_all add: frame_packet_def)
  show "\<forall>s f. inflight (ackOutbound now t a) s = Some f \<longrightarrow>
      (\<exists>g. inflight t s = Some g \<and> of_payload f = of_payload g)"
  proof (cases "advances t a")
    case True
    then show ?thesis by (simp add: ackOutbound_inflight)
  next
    case False
    then show ?thesis
      using resent_payload [of "ackOutbound now t a" t] by (simp add: ackOutbound_inflight)
  qed
qed simp

lemma tx_hist_tick:
  assumes "tx_hist H b t" "gbn_inv t"
  shows "tx_hist H b (fst (outboundTick now t))"
proof (rule tx_hist_resend [OF assms(1) _ outboundTick_wire [OF assms(2)]])
  have "\<exists>f. inflight t (sendBase t) = Some f" if "rto_expired now t"
    using that gbn_inv_dom [OF assms(2), of "sendBase t"] by (auto simp: rto_expired_def)
  then show "\<forall>q\<in>set (if rto_expired now t then [(appSeq t, frame_packet (sendBase t) (the (inflight t (sendBase t))))] else []).
      rp_Type (snd q) = 0x02 \<longrightarrow> (\<exists>f. inflight t (rp_Seq (snd q)) = Some f \<and> rp_Payload (snd q) = of_payload f)"
    by (auto simp: frame_packet_def)
  show "\<forall>s f. inflight (fst (outboundTick now t)) s = Some f \<longrightarrow>
      (\<exists>g. inflight t s = Some g \<and> of_payload f = of_payload g)"
    using resent_payload [OF outboundTick_inflight] by blast
qed simp

text \<open>The framing loop extends the history by what it cuts from the pending bytes.\<close>

lemma tx_hist_frame:
  assumes "tun_inv t" "cfg_ok c" "roomy t" "tx_hist H b t"
  shows "\<exists>ps. tx_hist (H @ ps) b (pump_frame c now t) \<and> concat ps @ pend (pump_frame c now t) = pend t"
proof -
  have sb: "unat (sendBase t) < 2 ^ 63" using assms tun_inv_base [OF assms(1)] by (simp add: roomy_def)
  have "\<forall>H. tx_hist H b t \<longrightarrow>
      (\<exists>ps. tx_hist (H @ ps) b (pump_frame c now t) \<and> concat ps @ pend (pump_frame c now t) = pend t)"
    (is "?P t (pump_frame c now t)")
    using assms(1,2) sb
  proof (rule pump_frame_induct [where P = ?P and now = now], goal_cases)
    case (1 t)
    show ?case by (auto intro!: exI [of _ "[]"])
  next
    case (2 t)
    let ?n = "min (maxFrame c) (length (pend t))" and ?u = "frame_step c now t"
    show ?case
    proof (intro allI impI)
      fix H assume h: "tx_hist H b t"
      have "tx_hist (H @ [take ?n (pend t)]) b ?u"
        unfolding frame_step_def Let_def
        by (rule tx_hist_same [OF tx_hist_sendReliable [OF h 2(4)]]) simp_all
      with 2(6) obtain ps where "tx_hist ((H @ [take ?n (pend t)]) @ ps) b (pump_frame c now ?u)"
        "concat ps @ pend (pump_frame c now ?u) = pend ?u" by blast
      then show "\<exists>ps. tx_hist (H @ ps) b (pump_frame c now ?u) \<and> concat ps @ pend (pump_frame c now ?u) = pend t"
        by (intro exI [of _ "take ?n (pend t) # ps"]) simp
    qed
  qed
  then show ?thesis using assms(4) by blast
qed

section \<open>The steps of the sending side\<close>

text \<open>
  Everything \<open>A\<close> can do except opening channels and sending control messages, which may
  cut a chunk in two (\<open>control_message_splits_chunk\<close>). The list is the writes that the step accepts.
\<close>

definition idle :: "Tunnel \<Rightarrow> bool" where
  "idle t \<longleftrightarrow> pendingV t = None \<and> ctrlCh t = []"

inductive sender_step :: "tun_cfg \<Rightarrow> Tunnel \<Rightarrow> (byte \<times> bytes) list \<Rightarrow> Tunnel \<Rightarrow> bool" for c where
  sd_keepalive: "sender_step c t [] (pump_keepalive now t)"
| sd_open: "sender_step c t [] (pump_open now t)"
| sd_ctrl: "sender_step c t [] (pump_ctrl now t)"
| sd_accum: "sender_step c t [] (pump_accum c t)"
| sd_frame: "sender_step c t [] (pump_frame c now t)"
| sd_inbound: "sender_step c t [] (inbound1 now f t)"
| sd_tick: "sender_step c t [] (fst (outboundTick now t))"
| sd_consume: "sender_step c t [] (pump_consume now t)"
| sd_fail: "sender_step c t [] (fail e t)"
| sd_exit: "sender_step c t [] (pump_exit t)"
| sd_finish: "sender_step c t [] (fst (OpenChannel_finish pv oc t))"
| sd_dropChan: "sender_step c t [] (dropChan i t)"
| sd_chanConn_Read: "sender_step c t [] (fst (chanConn_Read i n t))"
| sd_Read: "sender_step c t [] (fst (Read n t))"
| sd_Close: "sender_step c t [] (Close t)"
| sd_write: "writeChan pick i p t = (u, Returns n) \<Longrightarrow> sender_step c t [(i, p)] u"

lemma sender_tun_step: "sender_step c t ws u \<Longrightarrow> tun_step c t u"
proof (induction rule: sender_step.induct)
  case (sd_write pick i p t u n)
  then show ?case using st_writeChan [of c t pick i p] by simp
qed (rule tun_step.intros)+

text \<open>A step of the pump or of a client that hands nothing to the reliable layer.\<close>

definition out_same :: "Tunnel \<Rightarrow> Tunnel \<Rightarrow> bool" where
  "out_same t u \<longleftrightarrow> txSeq u = txSeq t \<and> inflight u = inflight t \<and> pend u = pend t \<and> writeCh u = writeCh t \<and>
     ctrlCh u = ctrlCh t \<and> pendingV u = pendingV t \<and>
     (\<exists>ws. wire u = wire t @ ws \<and> (\<forall>q\<in>set ws. rp_Type (snd q) \<noteq> 0x02))"

lemma out_same_plain:
  "txSeq u = txSeq t \<Longrightarrow> inflight u = inflight t \<Longrightarrow> pend u = pend t \<Longrightarrow> writeCh u = writeCh t \<Longrightarrow>
   ctrlCh u = ctrlCh t \<Longrightarrow> pendingV u = pendingV t \<Longrightarrow> wire u = wire t \<Longrightarrow> out_same t u"
  by (simp add: out_same_def)

lemma out_same_refl: "out_same t t"
  by (simp add: out_same_def)

lemma out_same_trans: "out_same t u \<Longrightarrow> out_same u v \<Longrightarrow> out_same t v"
  by (auto simp: out_same_def)

lemma out_same_send_ack: "out_same t (send_ack t)"
  by (simp add: out_same_def send_ack_def)

lemma out_same_keepalive: "out_same t (pump_keepalive now t)"
  by (auto simp: out_same_def pump_keepalive_def send_ack_def Let_def)

lemma out_same_route: "pendingV t = None \<Longrightarrow> out_same t (route now m t)"
  by (auto simp: out_same_def route_def route_data_def route_created_def Let_def split: option.splits)

lemma out_same_routes: "pendingV t = None \<Longrightarrow> out_same t (fold (route now) ms t)"
proof (induction ms arbitrary: t)
  case (Cons m ms)
  from out_same_route [OF Cons.prems, of now m] Cons.prems Cons.IH [of "route now m t"]
  show ?case by (auto simp: out_same_def)
qed (simp add: out_same_refl)

lemma out_same_drain: "out_same t (pump_drain now t)"
  by (auto simp: out_same_def pump_drain_def send_ack_def Let_def split: prod.splits)

lemma out_same_stall: "out_same t (pump_stall now t)"
  by (auto simp: out_same_def pump_stall_def send_ack_def Let_def)

lemma out_same_demux: "pendingV t = None \<Longrightarrow> out_same t (pump_demux now t)"
  using out_same_routes [of t now "fst (demux (pbuf t))"] by (simp add: pump_demux_eq out_same_def)

lemma out_same_consume:
  assumes "pendingV t = None"
  shows "out_same t (pump_consume now t)"
proof (cases "pumpStarted (pump_start now t)")
  case True
  let ?s = "pump_start now t" let ?d = "pump_drain now ?s"
  have s: "out_same t ?s" by (rule out_same_plain) (simp_all add: pump_start_def)
  note d = out_same_trans [OF s out_same_drain [of ?s now]]
  then have "pendingV ?d = None" using assms by (simp add: out_same_def)
  from out_same_trans [OF out_same_trans [OF d out_same_demux [OF this]] out_same_stall] True
  show ?thesis by (simp add: pump_consume_def)
next
  case False
  then have "pump_consume now t = t" by (auto simp: pump_consume_def pump_start_def Let_def)
  then show ?thesis by (simp add: out_same_refl)
qed

lemma out_same_client:
  "out_same t (fail e t)" "out_same t (pump_exit t)" "out_same t (dropChan i t)" "out_same t (fst (chanConn_Read i n t))"
  "out_same t (fst (Read n t))" "out_same t (Close t)"
  by (simp_all add: out_same_def fail_def closeT_def set_rerr_def pump_exit_def dropChan_def chanConn_Read_def
      Read_def Close_def split: option.split)

lemma out_same_finish: "idle t \<Longrightarrow> out_same t (fst (OpenChannel_finish pv oc t))"
  by (simp add: out_same_def OpenChannel_finish_def Let_def dropChan_def idle_def split: open_outcome.split)

lemma out_same_hist: "tx_hist H b t \<Longrightarrow> out_same t u \<Longrightarrow> tx_hist H b u"
  unfolding tx_hist_iff out_same_def by (elim conjE exE) (simp add: ball_Un)

lemma out_same_idle: "idle t \<Longrightarrow> out_same t u \<Longrightarrow> idle u \<and> backlog u = backlog t"
  by (simp add: out_same_def idle_def backlog_def)

text \<open>Whatever the step, the history grows by a segmentation of the oldest bytes accepted and not yet sent.\<close>

definition sends :: "bytes list \<Rightarrow> nat \<Rightarrow> Tunnel \<Rightarrow> (byte \<times> bytes) list \<Rightarrow> Tunnel \<Rightarrow> bool" where
  "sends H b t ws u \<longleftrightarrow> idle u \<and> (\<exists>ps. tx_hist (H @ ps) b u \<and> concat ps @ backlog u = backlog t @ queued_bytes ws)"

lemma sends_same: "tx_hist H b t \<Longrightarrow> idle t \<Longrightarrow> out_same t u \<Longrightarrow> sends H b t [] u"
  using out_same_hist [of H b t u] out_same_idle [of t u]
  by (auto simp: sends_def queued_bytes_def intro!: exI [of _ "[]"])

lemma sends_kept:
  "tx_hist H b u \<Longrightarrow> idle t \<Longrightarrow> pend u = pend t \<Longrightarrow> writeCh u = writeCh t \<Longrightarrow> ctrlCh u = ctrlCh t \<Longrightarrow>
   pendingV u = pendingV t \<Longrightarrow> sends H b t [] u"
  by (auto simp: sends_def idle_def backlog_def queued_bytes_def intro!: exI [of _ "[]"])

lemma sends_inbound: "tx_hist H b t \<Longrightarrow> idle t \<Longrightarrow> sends H b t [] (inbound1 now f t)"
  by (rule sends_kept) (auto simp: inbound1_def intro: tx_hist_ack tx_hist_same)

lemma sends_accum:
  assumes "tx_hist H b t" "idle t"
  shows "sends H b t [] (pump_accum c t)"
proof -
  have "tx_hist H b (pump_accum c t)"
    by (rule tx_hist_same [OF assms(1)]) (simp_all add: pump_accum_def split: prod.splits)
  moreover have "idle (pump_accum c t)" using assms(2) by (simp add: idle_def pump_accum_def split: prod.splits)
  ultimately show ?thesis by (auto simp: sends_def queued_bytes_def intro!: exI [of _ "[]"])
qed

lemma sends_frame:
  assumes "tx_hist H b t" "idle t" "tun_inv t" "cfg_ok c" "roomy t"
  shows "sends H b t [] (pump_frame c now t)"
proof -
  have "pendingV (pump_frame c now t) = pendingV t \<and> ctrlCh (pump_frame c now t) = ctrlCh t"
    by (induction c now t rule: pump_frame.induct) (subst (1 2) pump_frame.simps, simp add: frame_step_def Let_def)
  moreover obtain ps where "tx_hist (H @ ps) b (pump_frame c now t)" "concat ps @ pend (pump_frame c now t) = pend t"
    using tx_hist_frame [OF assms(3,4,5,1)] by blast
  ultimately show ?thesis
    using assms(2) by (auto simp: sends_def idle_def backlog_def queued_bytes_def intro!: exI [of _ ps])
qed

lemma sender_sends:
  assumes "sender_step c t ws u" "cfg_ok c" "roomy t" "tun_inv t" "idle t" "tx_hist H b t"
  shows "sends H b t ws u"
  using assms
proof (induction rule: sender_step.induct)
  case (sd_open t now)
  then show ?case by (intro sends_same) (simp_all add: idle_def pump_open_def out_same_refl)
next
  case (sd_ctrl t now)
  then show ?case by (intro sends_same) (simp_all add: idle_def pump_ctrl_def out_same_def)
next
  case (sd_tick t now)
  then show ?case by (intro sends_kept tx_hist_tick) (simp_all add: tun_inv_def)
next
  case (sd_consume t now)
  then show ?case by (intro sends_same out_same_consume) (simp_all add: idle_def)
next
  case (sd_write pick i p t u n)
  then have w: "u = t\<lparr>writeCh := writeCh t @ [(i, p)]\<rparr>" by (auto simp: writeChan_def split: if_splits)
  then have "tx_hist H b u" by (intro tx_hist_same [OF sd_write(6)]) simp_all
  then show ?case
    using backlog_writeChan [OF sd_write(1)] sd_write(5) w
    by (auto simp: sends_def idle_def queued_bytes_def intro!: exI [of _ "[]"])
qed (blast intro: sends_same sends_inbound sends_accum sends_frame out_same_keepalive out_same_client out_same_finish)+

section \<open>The pair\<close>

text \<open>
  \<open>flow c b A ws B rd\<close>: the two tunnels can be in the states \<open>A\<close> and \<open>B\<close> after \<open>A\<close> has accepted the writes \<open>ws\<close>
  (channel and bytes) and \<open>B\<close> has handed \<open>rd\<close> to the readers of its control channel. \<open>b\<close> is the sequence
  number at which the stream starts; \<open>wire A\<close> is everything sent since then.
\<close>

inductive flow :: "tun_cfg \<Rightarrow> nat \<Rightarrow> Tunnel \<Rightarrow> (byte \<times> bytes) list \<Rightarrow> Tunnel \<Rightarrow> bytes \<Rightarrow> bool" for c b where
  fl_start: "tun_inv A \<Longrightarrow> wire A = [] \<Longrightarrow> sendBase A = txSeq A \<Longrightarrow> unat (txSeq A) = b \<Longrightarrow> backlog A = [] \<Longrightarrow> idle A \<Longrightarrow>
    ctrlIdx B = 1 \<Longrightarrow> recv B = NewReassembler \<Longrightarrow> pbuf B = [] \<Longrightarrow> rbuf B = [] \<Longrightarrow> \<not> pumpStarted B \<Longrightarrow> flow c b A [] B []"
| fl_send: "flow c b A ws B rd \<Longrightarrow> roomy A \<Longrightarrow> sender_step c A vs A' \<Longrightarrow> flow c b A' (ws @ vs) B rd"
| fl_deliver: "flow c b A ws B rd \<Longrightarrow> (n, p) \<in> set (wire A) \<Longrightarrow> flow c b A ws (inbound1 now p B) rd"
| fl_other: "flow c b A ws B rd \<Longrightarrow> rp_Type p \<noteq> 0x02 \<Longrightarrow> flow c b A ws (inbound1 now p B) rd"
| fl_consume: "flow c b A ws B rd \<Longrightarrow> flow c b A ws (pump_consume now B) rd"
| fl_read: "flow c b A ws B rd \<Longrightarrow> Read n B = (B', Returns bs) \<Longrightarrow> flow c b A ws B' (rd @ bs)"
| fl_quiet: "flow c b A ws B rd \<Longrightarrow> quiet_step c B B' \<Longrightarrow> flow c b A ws B' rd"

text \<open>The receiver is never ahead of the sender, and its stream does not begin before \<open>b\<close>.\<close>

definition rx_window :: "nat \<Rightarrow> u64 \<Rightarrow> Tunnel \<Rightarrow> bool" where
  "rx_window b m B \<longleftrightarrow> (\<forall>s. frames (recv B) s \<noteq> None \<longrightarrow> s < m) \<and> (pumpStarted B \<longrightarrow> pumpNext B \<le> m) \<and>
     (baseSet (recv B) \<longrightarrow> b \<le> unat (base (recv B)))"

lemma rx_window_mono: "rx_window b m B \<Longrightarrow> m \<le> m' \<Longrightarrow> rx_window b m' B"
  unfolding rx_window_def by (meson order.strict_trans2 order.trans)

lemma rx_window_same: "rx_window b m B \<Longrightarrow> in_same B B' \<Longrightarrow> rx_window b m B'"
  by (simp add: rx_window_def in_same_def)

lemma rx_window_inbound1:
  assumes w: "rx_window b m B" and p: "rp_Type p = 0x02 \<Longrightarrow> rp_Seq p < m \<and> b \<le> unat (rp_Seq p)"
  shows "rx_window b m (inbound1 now p B)"
proof (cases "rp_Type p = 0x02 \<and> snd (Add (recv B) (rp_Seq p) (rp_Payload p))")
  case True
  then show ?thesis
    using w p Add_bounds [of "recv B" "rp_Seq p" "rp_Payload p"]
    by (auto simp: rx_window_def inbound1_def Add_frames min_def)
next
  case False
  then have "recv (inbound1 now p B) = recv B" by (auto simp: inbound1_def Add_def Let_def)
  then show ?thesis using w by (simp add: rx_window_def inbound1_def)
qed

lemma rx_window_consume:
  assumes w: "rx_window b m B" and inv: "in_inv pay rd B"
  shows "rx_window b m (pump_consume now B)"
proof (cases "pumpStarted (pump_start now B)")
  case True
  let ?s = "pump_start now B"
  obtain r nx new where d: "drain (recv ?s) (pumpNext ?s) [] = (r, nx, new)" by (metis prod_cases3)
  note f = pump_drain_fields [OF d, of now]
  have s: "recv ?s = recv B" by (simp add: pump_start_def)
  have "pumpNext ?s \<le> m"
  proof (cases "pumpStarted B")
    case True
    then show ?thesis using w by (simp add: rx_window_def pump_start_def)
  next
    case False
    then have "baseSet (recv B)" "pumpNext ?s = base (recv B)"
      using True by (auto simp: pump_start_def Started_def Base_def split: if_splits)
    then show ?thesis using w inv False by (auto simp: rx_window_def in_inv_def intro: order.strict_implies_order)
  qed
  from drain_below [OF d this] w s drain_keeps [OF d] show ?thesis
    using True f by (simp add: rx_window_def pump_consume_def Let_def pump_demux_eq)
next
  case False
  then have "pump_consume now B = B" by (auto simp: pump_consume_def pump_start_def Let_def)
  then show ?thesis using w by simp
qed

text \<open>
  What the two sides have in common: \<open>H\<close> is the sender's history, and the receiver works for every extension of it, since
  later frames are not yet there to be received.
\<close>

definition hist_pay :: "bytes list \<Rightarrow> nat \<Rightarrow> nat \<Rightarrow> bytes" where
  "hist_pay H b k = H ! (k - b)"

definition pair_inv :: "nat \<Rightarrow> bytes list \<Rightarrow> Tunnel \<Rightarrow> (byte \<times> bytes) list \<Rightarrow> Tunnel \<Rightarrow> bool" where
  "pair_inv b H A ws B \<longleftrightarrow> tun_inv A \<and> idle A \<and> tx_hist H b A \<and> concat H @ backlog A = queued_bytes ws \<and> rx_window b (txSeq A) B"

lemma pair_send:
  assumes inv: "pair_inv b H A ws B" and "sender_step c A vs A'" "roomy A" "cfg_ok c"
  shows "\<exists>ps. pair_inv b (H @ ps) A' (ws @ vs) B"
proof -
  have t: "tun_inv A" "idle A" "tx_hist H b A" using inv by (simp_all add: pair_inv_def)
  have A': "tun_inv A'" by (rule tun_inv_step [OF sender_tun_step [OF assms(2)] assms(4,3) t(1)])
  obtain ps where ps: "tx_hist (H @ ps) b A'" "concat ps @ backlog A' = backlog A @ queued_bytes vs" "idle A'"
    using sender_sends [OF assms(2,4,3) t] by (auto simp: sends_def)
  have "txSeq A \<le> txSeq A'" using t(3) ps(1) by (simp add: tx_hist_def word_le_nat_alt)
  then have "rx_window b (txSeq A') B" using inv rx_window_mono unfolding pair_inv_def by blast
  moreover have "concat (H @ ps) @ backlog A' = queued_bytes (ws @ vs)"
    using inv ps(2) by (simp add: pair_inv_def queued_bytes_def)
  ultimately show ?thesis using A' ps unfolding pair_inv_def by blast
qed

lemma pair_recv: "pair_inv b H A ws B \<Longrightarrow> rx_window b (txSeq A) B' \<Longrightarrow> pair_inv b H A ws B'"
  by (simp add: pair_inv_def)

lemma pair_inbound:
  assumes inv: "pair_inv b H A ws B" and p: "(n, p) \<in> set (wire A) \<or> rp_Type p \<noteq> 0x02"
  shows "pair_inv b H A ws (inbound1 now p B)" and "prefix H H' \<Longrightarrow> genuine (hist_pay H' b) p"
proof -
  have h: "unat (txSeq A) = b + length H" "rp_Type p = 0x02 \<Longrightarrow> in_hist H b (rp_Seq p) (rp_Payload p)"
    using inv p by (auto simp: pair_inv_def tx_hist_iff)
  have lt: "rp_Seq p < txSeq A \<and> b \<le> unat (rp_Seq p)" if "rp_Type p = 0x02"
    using h that by (simp add: in_hist_def word_less_nat_alt)
  show "genuine (hist_pay H' b) p" if "prefix H H'"
    using that h lt unsigned_less [of "txSeq A", where ?'a = nat]
    by (auto simp: genuine_def hist_pay_def in_hist_def word_less_nat_alt prefix_def nth_append)
  show "pair_inv b H A ws (inbound1 now p B)"
    using inv lt by (intro pair_recv [OF inv] rx_window_inbound1) (simp_all add: pair_inv_def)
qed

lemma pair_consume: "pair_inv b H A ws B \<Longrightarrow> in_inv pay rd B \<Longrightarrow> pair_inv b H A ws (pump_consume now B)"
  by (rule pair_recv, assumption) (simp add: pair_inv_def rx_window_consume)

lemma pair_same: "pair_inv b H A ws B \<Longrightarrow> in_same B B' \<Longrightarrow> pair_inv b H A ws B'"
  by (rule pair_recv, assumption) (auto simp: pair_inv_def intro: rx_window_same)

lemma pair_Read: "pair_inv b H A ws B \<Longrightarrow> Read n B = (B', Returns bs) \<Longrightarrow> pair_inv b H A ws B'"
  by (rule pair_recv, assumption)
    (auto simp: pair_inv_def rx_window_def Read_def split: if_splits option.splits)

definition flow_inv :: "tun_cfg \<Rightarrow> nat \<Rightarrow> bytes list \<Rightarrow> Tunnel \<Rightarrow> (byte \<times> bytes) list \<Rightarrow> Tunnel \<Rightarrow> bytes \<Rightarrow> bool" where
  "flow_inv c b H A ws B rd \<longleftrightarrow> pair_inv b H A ws B \<and> (\<forall>H'. prefix H H' \<longrightarrow> in_run (hist_pay H' b) c rd B)"

lemma flow_has_inv: "flow c b A ws B rd \<Longrightarrow> cfg_ok c \<Longrightarrow> \<exists>H. flow_inv c b H A ws B rd"
proof (induction rule: flow.induct)
  case (fl_start A B)
  have "inflight A s = None" for s
    using fl_start(1,3) gbn_inv_dom [of A s] by (auto simp: tun_inv_def)
  then have "tx_hist [] b A" using fl_start by (simp add: tx_hist_def)
  moreover have "in_run pay c [] B" for pay by (rule in_start) (use fl_start in simp_all)
  ultimately have "flow_inv c b [] A [] B []"
    using fl_start by (simp add: flow_inv_def pair_inv_def rx_window_def queued_bytes_def NewReassembler_def)
  then show ?case by blast
next
  case (fl_send A ws B rd vs A')
  then obtain H where H: "pair_inv b H A ws B" "\<forall>H'. prefix H H' \<longrightarrow> in_run (hist_pay H' b) c rd B"
    by (auto simp: flow_inv_def)
  then obtain ps where "pair_inv b (H @ ps) A' (ws @ vs) B" using pair_send fl_send by blast
  then show ?case using H(2) append_prefixD unfolding flow_inv_def by blast
next
  case (fl_deliver A ws B rd n p now)
  then show ?case unfolding flow_inv_def by (meson in_frame pair_inbound)
next
  case (fl_other A ws B rd p now)
  then show ?case unfolding flow_inv_def by (meson in_frame pair_inbound)
next
  case (fl_consume A ws B rd now)
  then show ?case unfolding flow_inv_def by (meson in_consume in_run_inv pair_consume prefix_order.refl)
next
  case (fl_read A ws B rd n B' bs)
  then show ?case unfolding flow_inv_def by (meson in_read pair_Read)
next
  case (fl_quiet A ws B rd B')
  then show ?case unfolding flow_inv_def by (meson in_quiet pair_same quiet_in_same)
qed

text \<open>What the receiver has consumed, in terms of the sender's history.\<close>

lemma consumed_take:
  assumes inv: "pair_inv b H A ws B" "in_inv pay rd B" and st: "pumpStarted B" "unat (base (recv B)) = b"
    and pay: "prefix H H'" "pay = hist_pay H' b"
  shows "consumed_bytes pay B = concat (take (unat (pumpNext B) - b) H)"
proof -
  let ?n = "unat (pumpNext B)"
  have n: "?n \<le> b + length H"
    using inv(1) st(1) by (simp add: pair_inv_def rx_window_def tx_hist_def word_le_nat_alt)
  have "b \<le> ?n" using inv(2) st by (simp add: in_inv_def)
  then have "map (\<lambda>k. H ! (k - b)) [b..<?n] = take (?n - b) H"
    using map_nth_upt [of b b ?n H] n by simp
  moreover have "map (hist_pay H' b) [b..<?n] = map (\<lambda>k. H ! (k - b)) [b..<?n]"
    using n pay(1) by (auto simp: hist_pay_def prefix_def nth_append)
  ultimately show ?thesis by (simp add: consumed_bytes_def st(2) pay(2))
qed

text \<open>The messages routed so far are the first writes.\<close>

lemma chan_data_chunks: "chan_data i (map chunk_msg ws) = concat (map snd (filter (\<lambda>w. fst w = i) ws))"
  by (induction ws) (simp_all add: chunk_msg_def)

lemma chan_data_prefix: "prefix ms ns \<Longrightarrow> prefix (chan_data i ms) (chan_data i ns)"
  by (auto simp: prefix_def)

lemma demux_queued_all: "list_all good_write ws \<Longrightarrow> demux (queued_bytes ws) = (map chunk_msg ws, [])"
  using demux_wires [of "map chunk_msg ws"]
  by (simp add: queued_bytes_def chunk_wire case_prod_unfold comp_def list_all_iff good_write_valid)

lemma routed_writes:
  assumes inv: "pair_inv b H A ws B" "in_inv (hist_pay H b) rd B" and st: "pumpStarted B" "unat (base (recv B)) = b"
    and ws: "list_all good_write ws"
  shows "prefix (fst (demux (consumed_bytes (hist_pay H b) B))) (map chunk_msg ws)"
    and "pumpNext B = txSeq A \<Longrightarrow> backlog A = [] \<Longrightarrow> fst (demux (consumed_bytes (hist_pay H b) B)) = map chunk_msg ws"
proof -
  let ?k = "unat (pumpNext B) - b"
  note take = consumed_take [OF inv st prefix_order.refl refl]
  have all: "concat H @ backlog A = queued_bytes ws" using inv(1) by (simp add: pair_inv_def)
  have "demux (concat (take ?k H) @ concat (drop ?k H) @ backlog A) = (map chunk_msg ws, [])"
    using demux_queued_all [OF ws] all by (metis append_assoc append_take_drop_id concat_append)
  from demux_prefix [OF this] show "prefix (fst (demux (consumed_bytes (hist_pay H b) B))) (map chunk_msg ws)"
    by (simp add: take)
  assume "pumpNext B = txSeq A" "backlog A = []"
  moreover from this have "?k = length H" using inv(1) by (simp add: pair_inv_def tx_hist_def)
  ultimately show "fst (demux (consumed_bytes (hist_pay H b) B)) = map chunk_msg ws"
    using all demux_queued_all [OF ws] by (simp add: take)
qed

section \<open>Properties\<close>


text \<open>A write of two bytes, cut into two frames; the second arrives before the first, and twice.\<close>

definition demo_tx :: Tunnel where
  "demo_tx = pump_frame split_cfg 3 (pump_accum split_cfg demo_written)"

definition demo_in :: Tunnel where
  "demo_in = fold (inbound1 4) (map (\<lambda>i. snd (wire demo_tx ! i)) [1, 0, 1]) (pump_init 2 newTunnel)"

lemma split_cfg_ok: "cfg_ok split_cfg"
  by (simp add: cfg_ok_def split_cfg_def)

lemma demo_sent:
  "map (\<lambda>q. (rp_Type (snd q), rp_Seq (snd q), rp_Payload (snd q))) (wire demo_tx) = [(2, 0, [2, 1, 2, 0]), (2, 1, [65, 66])]"
  "backlog demo_tx = []" "txSeq demo_tx = 2"
  by code_simp+

lemma demo_wire:
  "length (wire demo_tx) = 2"
  "rp_Type (snd (wire demo_tx ! 0)) = 2" "rp_Seq (snd (wire demo_tx ! 0)) = 0" "rp_Payload (snd (wire demo_tx ! 0)) = [2, 1, 2, 0]"
  "rp_Type (snd (wire demo_tx ! Suc 0)) = 2" "rp_Seq (snd (wire demo_tx ! Suc 0)) = 1"
  "rp_Payload (snd (wire demo_tx ! Suc 0)) = [65, 66]"
  using demo_sent(1) by (auto simp: map_eq_Cons_conv)

lemma demo_in_fields:
  "frames (recv demo_in) = [1 \<mapsto> [65, 66], 0 \<mapsto> [2, 1, 2, 0]]" "base (recv demo_in) = 0" "baseSet (recv demo_in)"
  "\<not> pumpStarted demo_in"
  by (simp_all add: demo_in_def inbound1_def demo_wire pump_init_def newTunnel_def initGoBackN_def Add_def
      NewReassembler_def Let_def)

text \<open>Two frames that are there from the start are consumed together.\<close>

lemma two_frames_consumed:
  assumes t: "frames (recv t) = [1 \<mapsto> q, 0 \<mapsto> p]" "base (recv t) = 0" "baseSet (recv t)" "\<not> pumpStarted t"
  shows "pumpStarted (pump_consume now t)" "pumpNext (pump_consume now t) = 2" "base (recv (pump_consume now t)) = 0"
proof -
  let ?s = "pump_start now t"
  have s: "recv ?s = recv t" "pumpNext ?s = 0" "pumpStarted ?s"
    using t by (simp_all add: pump_start_def Started_def Base_def)
  obtain r1 where r1: "Take (recv t) 0 = (r1, Some p)" "drain (recv t) 0 [] = drain r1 1 p"
    using drain_step [of "recv t" 0 p "[]"] t(1) by auto
  then have f1: "frames r1 = [1 \<mapsto> q]" using Take_frames [of "recv t" 0] t(1) by simp
  obtain r2 where r2: "Take r1 1 = (r2, Some q)" "drain r1 1 p = drain r2 2 (p @ q)"
    using drain_step [of r1 1 q p] f1 by auto
  then have "Take r2 2 = (r2, None)" using Take_frames [of r1 1] f1 by (intro Take_missing) simp
  then have d: "drain (recv ?s) (pumpNext ?s) [] = (r2, 2, p @ q)"
    using s r1(2) r2(2) by (simp add: drain.simps [of r2])
  have "base r2 = 0" using drain_keeps [OF d] s(1) t(2) by simp
  then show "pumpStarted (pump_consume now t)" "pumpNext (pump_consume now t) = 2" "base (recv (pump_consume now t)) = 0"
    using pump_drain_fields [OF d, of now] s(3) by (simp_all add: pump_consume_def Let_def pump_demux_eq)
qed

lemmas demo_rx_fields = two_frames_consumed [OF demo_in_fields]

lemma demo_flow: "flow split_cfg 0 demo_tx [(1, [65, 66])] (pump_consume 5 demo_in) []"
proof -
  let ?t = "pump_init 2 newTunnel"
  have 0: "flow split_cfg 0 ?t [] ?t []"
    by (rule fl_start [OF tun_inv_pump_init [OF fresh_newTunnel]])
      (simp_all add: pump_init_def newTunnel_def initGoBackN_def backlog_def queued_bytes_def idle_def)
  have w: "writeChan False 1 [65, 66] ?t = (demo_written, Returns 2)"
    by (simp add: demo_written_def Write_def writeChan_def pump_init_def newTunnel_def initGoBackN_def)
  have r: "roomy ?t" "roomy demo_written" "roomy (pump_accum split_cfg demo_written)"
    by (simp_all add: roomy_def demo_written_def Write_def writeChan_def pump_init_def newTunnel_def initGoBackN_def)
  have "flow split_cfg 0 demo_written [(1, [65, 66])] ?t []"
    using fl_send [OF 0 r(1) sd_write [OF w]] by simp
  from fl_send [OF fl_send [OF this r(2) sd_accum] r(3) sd_frame [of _ _ 3]]
  have tx: "flow split_cfg 0 demo_tx [(1, [65, 66])] ?t []" by (simp add: demo_tx_def)
  have p: "(fst (wire demo_tx ! i), snd (wire demo_tx ! i)) \<in> set (wire demo_tx)" if "i < 2" for i
    using that demo_wire(1) by simp
  show ?thesis
    using fl_consume [OF fl_deliver [OF fl_deliver [OF fl_deliver [OF tx p [of 1]] p [of 0]] p [of 1]], of 5 4 4 4]
    by (simp add: demo_in_def)
qed


end
