(* ===== verification/Netip.thy ===== *)
theory Netip
  imports Kalay_Prelude
begin

unbundle bit_operations_syntax

text \<open>
  What the program uses of Go's \<open>net\<close> addresses. A \<open>net.IP\<close> is its byte slice: nil is the empty list,
  an IPv4 address has 4 bytes or is the 16-byte IPv4-in-IPv6 form that \<open>net.IPv4\<close> returns. A
  \<open>*net.UDPAddr\<close> is an address and a port.
\<close>

type_synonym ip = bytes

record UDPAddr =
  ua_IP :: ip
  ua_Port :: nat

definition v4InV6Prefix :: bytes where
  "v4InV6Prefix = replicate 10 0 @ [0xff, 0xff]"

definition IPv4 :: "byte \<Rightarrow> byte \<Rightarrow> byte \<Rightarrow> byte \<Rightarrow> ip" where
  "IPv4 a b c d = v4InV6Prefix @ [a, b, c, d]"

definition To4 :: "ip \<Rightarrow> ip" where
  "To4 x = (if length x = 4 then x
     else if length x = 16 \<and> take 12 x = v4InV6Prefix then drop 12 x else [])"

definition ip_Equal :: "ip \<Rightarrow> ip \<Rightarrow> bool" where
  "ip_Equal a b \<longleftrightarrow>
     (if length a = length b then a = b
      else if length a = 4 \<and> length b = 16 then take 12 b = v4InV6Prefix \<and> a = drop 12 b
      else if length a = 16 \<and> length b = 4 then take 12 a = v4InV6Prefix \<and> drop 12 a = b
      else False)"

definition IsPrivate :: "ip \<Rightarrow> bool" where
  "IsPrivate x \<longleftrightarrow>
     (let q = To4 x in
      if q \<noteq> [] then q ! 0 = 10 \<or> (q ! 0 = 172 \<and> q ! 1 AND 0xf0 = 16) \<or> (q ! 0 = 192 \<and> q ! 1 = 168)
      else length x = 16 \<and> x ! 0 AND 0xfe = 0xfc)"

definition IsUnspecified :: "ip \<Rightarrow> bool" where
  "IsUnspecified x \<longleftrightarrow> ip_Equal x (IPv4 0 0 0 0) \<or> x = replicate 16 0"

lemma length_IPv4 [simp]: "length (IPv4 a b c d) = 16"
  by (simp add: IPv4_def v4InV6Prefix_def)

lemma To4_IPv4 [simp]: "To4 (IPv4 a b c d) = [a, b, c, d]"
  by (simp add: To4_def IPv4_def v4InV6Prefix_def)

lemma IPv4_not_nil [simp]: "IPv4 a b c d \<noteq> []"
  by (simp add: IPv4_def)

lemma To4_nil [simp]: "To4 [] = []"
  by (simp add: To4_def)

lemma length_To4: "To4 x \<noteq> [] \<Longrightarrow> length (To4 x) = 4"
  by (auto simp: To4_def split: if_splits)

lemma To4_To4 [simp]: "To4 (To4 x) = To4 x"
  using length_To4 [of x] by (cases "To4 x = []") (simp_all add: To4_def)

lemma ip_Equal_refl [simp]: "ip_Equal a a"
  by (simp add: ip_Equal_def)

lemma ip_Equal_sym: "ip_Equal a b \<longleftrightarrow> ip_Equal b a"
  by (auto simp: ip_Equal_def)

end
