(* ===== verification/Socket.thy ===== *)
theory Socket
  imports Netip
begin

text \<open>
  The UDP socket the session set-up works on, and its two loop shapes. \<open>Dial\<close> and the functions
  it calls share one socket; each of their loops reads the clock, sends, sets a read deadline and then
  reads datagrams until the deadline or until one of them ends the phase.

  \<^item> The world is a list of rounds: one loop iteration takes the next round, the clock value it
    reads and the datagrams that arrive before its read deadline. Datagrams left unread stay in
    \<open>sk_queue\<close> for the next read.
  \<^item> \<open>sk_out\<close> is the log of datagrams written, with their time and destination.
  \<^item> \<open>round_loop\<close> is \<open>for time.Now().Before(deadline) && !done\<close>, \<open>read_all\<close> the inner
    \<open>for { ReadFrom \<dots> }\<close> that a read error ends.
\<close>

type_synonym datagram = "bytes \<times> UDPAddr"
type_synonym round = "int \<times> datagram list"

record sock =
  sk_out :: "(int \<times> bytes \<times> UDPAddr) list"
  sk_queue :: "datagram list"
  sk_now :: int
  sk_open :: bool

definition sk_send :: "int \<Rightarrow> bytes \<Rightarrow> UDPAddr \<Rightarrow> 'a sock_scheme \<Rightarrow> 'a sock_scheme" where
  "sk_send now pkt a k = k\<lparr>sk_out := sk_out k @ [(now, pkt, a)]\<rparr>"

definition sk_tick :: "int \<Rightarrow> datagram list \<Rightarrow> 'a sock_scheme \<Rightarrow> 'a sock_scheme" where
  "sk_tick now arr k = k\<lparr>sk_now := now, sk_queue := sk_queue k @ arr\<rparr>"

definition clock :: "round list \<Rightarrow> 'a sock_scheme \<Rightarrow> int" where
  "clock rs k = (case rs of [] \<Rightarrow> sk_now k | (now, _) # _ \<Rightarrow> now)"

fun round_loop ::
  "(int \<Rightarrow> 'a sock_scheme \<Rightarrow> 'a sock_scheme \<times> 'r option) \<Rightarrow> int \<Rightarrow> round list \<Rightarrow> 'a sock_scheme \<Rightarrow>
     'a sock_scheme \<times> 'r option \<times> round list" where
  "round_loop body deadline [] k = (k, None, [])"
| "round_loop body deadline ((now, arr) # rs) k =
     (if now < deadline then
        (case body now (sk_tick now arr k) of
           (k, Some r) \<Rightarrow> (k, Some r, rs)
         | (k, None) \<Rightarrow> round_loop body deadline rs k)
      else (k, None, (now, arr) # rs))"

fun read_from ::
  "(datagram \<Rightarrow> 'k \<Rightarrow> 'k \<times> 'r option) \<Rightarrow> datagram list \<Rightarrow> 'k \<Rightarrow> 'k \<times> 'r option \<times> datagram list" where
  "read_from h [] k = (k, None, [])"
| "read_from h (x # q) k =
     (case h x k of
        (k, Some r) \<Rightarrow> (k, Some r, q)
      | (k, None) \<Rightarrow> read_from h q k)"

definition read_all ::
  "(datagram \<Rightarrow> 'a sock_scheme \<Rightarrow> 'a sock_scheme \<times> 'r option) \<Rightarrow> 'a sock_scheme \<Rightarrow> 'a sock_scheme \<times> 'r option" where
  "read_all h k = (let (k', r, q) = read_from h (sk_queue k) k in (k'\<lparr>sk_queue := q\<rparr>, r))"

lemma sk_send_fields [simp]:
  "sk_out (sk_send now p a k) = sk_out k @ [(now, p, a)]" "sk_queue (sk_send now p a k) = sk_queue k"
  "sk_now (sk_send now p a k) = sk_now k" "sk_open (sk_send now p a k) = sk_open k"
  "sock.more (sk_send now p a k) = sock.more k"
  by (simp_all add: sk_send_def)

lemma sk_tick_fields [simp]:
  "sk_out (sk_tick now arr k) = sk_out k" "sk_queue (sk_tick now arr k) = sk_queue k @ arr"
  "sk_now (sk_tick now arr k) = now" "sk_open (sk_tick now arr k) = sk_open k"
  "sock.more (sk_tick now arr k) = sock.more k"
  by (simp_all add: sk_tick_def)

section \<open>What a phase keeps and what it finds\<close>

definition arrivals :: "round list \<Rightarrow> datagram set" where
  "arrivals rs = (\<Union>(now, arr)\<in>set rs. set arr)"

lemma arrivals_Nil [simp]: "arrivals [] = {}"
  by (simp add: arrivals_def)

lemma arrivals_Cons [simp]: "arrivals ((now, arr) # rs) = set arr \<union> arrivals rs"
  by (simp add: arrivals_def)

text \<open>
  A handler of single datagrams: \<open>I A k\<close> is what holds of the state when the datagrams \<open>A\<close> have
  arrived, and \<open>R A r\<close> what holds of a result. The law is one step; the lemma is the reading loop.
\<close>

locale reader =
  fixes h :: "datagram \<Rightarrow> 'a sock_scheme \<Rightarrow> 'a sock_scheme \<times> 'r option"
    and I :: "datagram set \<Rightarrow> 'a sock_scheme \<Rightarrow> bool"
    and R :: "datagram set \<Rightarrow> 'r \<Rightarrow> bool"
  assumes step: "I A k \<Longrightarrow> x \<in> A \<Longrightarrow> I A (fst (h x k)) \<and> (\<forall>r. snd (h x k) = Some r \<longrightarrow> R A r)"
    and queue: "I A k \<Longrightarrow> I A (k\<lparr>sk_queue := q\<rparr>) \<longleftrightarrow> set q \<subseteq> A"
    and queued: "I A k \<Longrightarrow> set (sk_queue k) \<subseteq> A"
begin

lemma read_from_inv:
  assumes "I A k" "set q \<subseteq> A" "read_from h q k = (k', r, q')"
  shows "I A k' \<and> (\<forall>x. r = Some x \<longrightarrow> R A x) \<and> set q' \<subseteq> set q"
  using assms
proof (induction q arbitrary: k)
  case (Cons x q)
  obtain k1 r1 where h: "h x k = (k1, r1)" by fastforce
  have "I A k1" "\<forall>r. r1 = Some r \<longrightarrow> R A r"
    using step [OF Cons.prems(1), of x] Cons.prems(2) h by simp_all
  then show ?case using Cons h by (cases r1) auto
qed simp

lemma read_all_inv:
  assumes "I A k"
  shows "I A (fst (read_all h k)) \<and> (\<forall>x. snd (read_all h k) = Some x \<longrightarrow> R A x)"
proof -
  obtain k' r q where e: "read_from h (sk_queue k) k = (k', r, q)" by (rule prod_cases3)
  from read_from_inv [OF assms queued [OF assms] e]
  have "I A k'" "\<forall>x. r = Some x \<longrightarrow> R A x" "set q \<subseteq> A" using queued [OF assms] by auto
  then show ?thesis by (simp add: read_all_def e queue)
qed

end

text \<open>A phase: its body is one round.\<close>

locale phase =
  fixes body :: "int \<Rightarrow> 'a sock_scheme \<Rightarrow> 'a sock_scheme \<times> 'r option"
    and I :: "datagram set \<Rightarrow> 'a sock_scheme \<Rightarrow> bool"
    and R :: "datagram set \<Rightarrow> 'r \<Rightarrow> bool"
  assumes round: "I A k \<Longrightarrow> I A (fst (body now k)) \<and> (\<forall>r. snd (body now k) = Some r \<longrightarrow> R A r)"
    and tick: "I A k \<Longrightarrow> I (A \<union> set arr) (sk_tick now arr k)"
    and mono: "I A k \<Longrightarrow> A \<subseteq> B \<Longrightarrow> I B k" "R A r \<Longrightarrow> A \<subseteq> B \<Longrightarrow> R B r"
begin

lemma loop_inv:
  assumes "I A k" "round_loop body dl rs k = (k', r, rs')"
  shows "I (A \<union> arrivals rs) k' \<and> (\<forall>x. r = Some x \<longrightarrow> R (A \<union> arrivals rs) x) \<and> (\<exists>pre. rs = pre @ rs')"
  using assms
proof (induction rs arbitrary: A k)
  case (Cons e rs)
  obtain now arr where e: "e = (now, arr)" by fastforce
  obtain k1 r1 where b: "body now (sk_tick now arr k) = (k1, r1)" by fastforce
  have I1: "I (A \<union> set arr) k1" "\<forall>x. r1 = Some x \<longrightarrow> R (A \<union> set arr) x"
    using round [OF tick [OF Cons.prems(1)], of arr now now] b by simp_all
  have sub: "A \<union> set arr \<subseteq> A \<union> arrivals (e # rs)" "A \<union> set arr \<union> arrivals rs = A \<union> arrivals (e # rs)"
    by (auto simp: e)
  show ?case
  proof (cases "now < dl")
    case False
    then show ?thesis using Cons.prems mono(1) [OF Cons.prems(1)] by (auto simp: e)
  next
    case True
    show ?thesis
    proof (cases r1)
      case None
      then have "round_loop body dl rs k1 = (k', r, rs')" using Cons.prems(2) True b by (simp add: e)
      from Cons.IH [OF I1(1) this] show ?thesis unfolding sub(2) by (metis append_Cons)
    next
      case (Some x)
      then have "k' = k1" "r = Some x" "rs' = rs" using Cons.prems(2) True b by (simp_all add: e)
      then show ?thesis
        using I1 Some mono(1) [OF I1(1) sub(1)] mono(2) [OF _ sub(1)] by (metis append_Cons append_Nil)
    qed
  qed
qed (auto simp: mono)

end

text \<open>A phase that prepares its sends and then reads: the reader's law gives the phase's.\<close>

locale reading_phase = reader h I R
  for h :: "datagram \<Rightarrow> 'a sock_scheme \<Rightarrow> 'a sock_scheme \<times> 'r option" and I and R +
  fixes body :: "int \<Rightarrow> 'a sock_scheme \<Rightarrow> 'a sock_scheme \<times> 'r option"
    and prepare :: "int \<Rightarrow> 'a sock_scheme \<Rightarrow> 'a sock_scheme"
  assumes body: "body now k = read_all h (prepare now k)"
    and prepare: "I A k \<Longrightarrow> I A (prepare now k)"
    and ticks: "I A k \<Longrightarrow> I (A \<union> set arr) (sk_tick now arr k)"
    and monoI: "I A k \<Longrightarrow> A \<subseteq> B \<Longrightarrow> I B k"
    and monoR: "R A r \<Longrightarrow> A \<subseteq> B \<Longrightarrow> R B r"

sublocale reading_phase \<subseteq> phase body I R
proof
  fix A k now
  assume "I A k"
  then show "I A (fst (body now k)) \<and> (\<forall>r. snd (body now k) = Some r \<longrightarrow> R A r)"
    unfolding body by (intro read_all_inv prepare)
qed (auto intro: ticks monoI monoR)

end
