(* ===== verification/Relay.thy ===== *)
theory Relay
  imports Socket Dtls
begin

unbundle bit_operations_syntax

text \<open>
  The relay coordination of \<open>internal/tnauth\<close>: the address records and the 0408 set-up
  (\<open>coordpkt.go\<close>, \<open>coord.go\<close>), the three relay set-up messages (\<open>relaypkt.go\<close>) and the encrypted
  51cc channel (\<open>relay.go\<close>). The authenticated encryption (AES-128-GCM of the Go library) under the
  channel's key is the parameter pair \<open>sl\<close>, \<open>op\<close>, keyed by their first argument; the key
  agreement of \<open>build0202\<close> enters as its result, the shared secret and the public point.
\<close>

section \<open>Address records and the 0408\<close>

definition coordHeaderLen :: nat where "coordHeaderLen = 16"
definition coordUIDLen :: nat where "coordUIDLen = 20"
definition coordTokenLen :: nat where "coordTokenLen = 8"
definition coordAddrLen :: nat where "coordAddrLen = 16"
definition coordAddrSlots :: nat where "coordAddrSlots = 29"
definition coordLen :: nat where "coordLen = 544"
definition slotLocal :: nat where "slotLocal = 0"
definition slotReflex :: nat where "slotReflex = 4"
definition slotDevLan :: nat where "slotDevLan = 12"
definition slotDevPublc :: nat where "slotDevPublc = 16"
definition familyNone :: u16 where "familyNone = 0x0000"
definition familyInet4 :: u16 where "familyInet4 = 0x0002"

lemmas coord_consts [simp] = coordHeaderLen_def coordUIDLen_def coordTokenLen_def coordAddrLen_def
  coordAddrSlots_def coordLen_def slotLocal_def slotReflex_def slotDevLan_def slotDevPublc_def

definition coordUnknown36 :: bytes where "coordUnknown36 = [0x01, 0x00]"
definition coordUnknown50 :: bytes where "coordUnknown50 = [0xff, 0xff, 0x02, 0x02, 0x00, 0x02]"
definition coordUnknown60 :: bytes where "coordUnknown60 = [0x03, 0x06, 0x03, 0x04, 0x03, 0x06, 0x03, 0x04]"
definition coordTrailer :: bytes where "coordTrailer = [0x2e, 0x03, 0x00, 0x00]"

record coordAddr =
  ca_Family :: u16
  ca_Port :: nat
  ca_IP :: ip

definition zero_coordAddr :: coordAddr where
  "zero_coordAddr = \<lparr>ca_Family = 0, ca_Port = 0, ca_IP = []\<rparr>"

definition coordAddr_appendTo :: "coordAddr \<Rightarrow> bytes \<Rightarrow> bytes" where
  "coordAddr_appendTo a b =
     (if ca_IP a = [] then b @ replicate coordAddrLen 0
      else b @ le_bytes 2 (ca_Family a) @ be_bytes 2 (word_of_nat (ca_Port a) :: u16) @ To4 (ca_IP a)
             @ replicate (coordAddrLen - 8) 0)"

record coordSetup =
  cs_UID :: bytes
  cs_DevPort :: nat
  cs_Token :: bytes
  cs_Addrs :: "coordAddr list"

definition coordSetup_bytes :: "coordSetup \<Rightarrow> bytes" where
  "coordSetup_bytes c =
     (let out = [0x04, 0x02, 0x1d, 0x02];
          out = out @ le_bytes 4 (word_of_nat (coordLen - coordHeaderLen) :: u32);
          out = out @ [0x04, 0x08, 0x24, 0x00, 0, 0, 0, 0];
          out = out @ slot coordUIDLen (cs_UID c);
          out = out @ coordUnknown36;
          out = out @ be_bytes 2 (word_of_nat (cs_DevPort c) :: u16);
          out = out @ replicate 10 0;
          out = out @ coordUnknown50;
          out = out @ [0, 0, 0, 0];
          out = out @ coordUnknown60;
          out = out @ slot coordTokenLen (cs_Token c);
          out = fold coordAddr_appendTo (cs_Addrs c) out
      in out @ coordTrailer)"

record Coord103 =
  c1_Token :: bytes
  c1_DevIP :: ip
  c1_DevPort :: nat
  c1_DevLan :: ip

text \<open>The search for the LAN record: the first offset at or after \<open>i\<close> with the port and a private IP.\<close>

fun find_lan :: "byte \<Rightarrow> byte \<Rightarrow> bytes \<Rightarrow> ip" where
  "find_lan p0 p1 (a # b # c # d # e # f # rest) =
     (if a = p0 \<and> b = p1 \<and> IsPrivate (IPv4 c d e f) then IPv4 c d e f
      else find_lan p0 p1 (b # c # d # e # f # rest))"
| "find_lan p0 p1 _ = []"

definition Parse0103 :: "bytes \<Rightarrow> Coord103 option" where
  "Parse0103 pt =
     (if length pt < 44 \<or> pt ! 8 \<noteq> 0x01 \<or> pt ! 9 \<noteq> 0x03 then None
      else Some \<lparr>c1_Token = take 8 (drop (length pt - 16) pt),
                 c1_DevIP = IPv4 (pt ! 40) (pt ! 41) (pt ! 42) (pt ! 43),
                 c1_DevPort = push_bit 8 (unat (pt ! 38)) OR unat (pt ! 39),
                 c1_DevLan = find_lan (pt ! 38) (pt ! 39) (drop 44 pt)\<rparr>)"

definition Build0408 ::
  "bytes \<Rightarrow> Coord103 option \<Rightarrow> ip \<Rightarrow> nat \<Rightarrow> ip \<Rightarrow> nat \<Rightarrow> bytes" where
  "Build0408 uid co localIP localPort reflIP reflPort =
     (let s = \<lparr>cs_UID = uid, cs_DevPort = 0, cs_Token = [], cs_Addrs = replicate coordAddrSlots zero_coordAddr\<rparr>;
          put = (\<lambda>i a s. s\<lparr>cs_Addrs := (cs_Addrs s)[i := a]\<rparr>);
          s = (case co of
                 None \<Rightarrow> s
               | Some c \<Rightarrow>
                   let s = s\<lparr>cs_Token := c1_Token c, cs_DevPort := c1_DevPort c\<rparr>;
                       d4 = To4 (c1_DevIP c);
                       s = (if d4 \<noteq> [] then put slotDevPublc \<lparr>ca_Family = familyInet4, ca_Port = c1_DevPort c, ca_IP = d4\<rparr> s else s);
                       l4 = To4 (c1_DevLan c)
                   in if l4 \<noteq> [] then put slotDevLan \<lparr>ca_Family = familyNone, ca_Port = c1_DevPort c, ca_IP = l4\<rparr> s else s);
          l4 = To4 localIP;
          s = (if l4 \<noteq> [] then put slotLocal \<lparr>ca_Family = familyNone, ca_Port = localPort, ca_IP = l4\<rparr> s else s);
          r4 = To4 reflIP;
          s = (if r4 \<noteq> [] then put slotReflex \<lparr>ca_Family = familyInet4, ca_Port = localPort, ca_IP = r4\<rparr> s else s)
      in coordSetup_bytes s)"

section \<open>Relay set-up messages\<close>

definition setupMagic3 :: byte where "setupMagic3 = 0x00"
definition type000c :: u16 where "type000c = 0x020c"
definition type1001 :: u16 where "type1001 = 0x0240"
definition type1002 :: u16 where "type1002 = 0x0806"
definition len000c :: nat where "len000c = 64"
definition len1001 :: nat where "len1001 = 288"
definition len1002 :: nat where "len1002 = 544"

definition unk000cA :: bytes where "unk000cA = [0x3c, 0x00]"
definition unk000cB :: bytes where "unk000cB = [0x05, 0x00]"
definition unk1001 :: bytes where "unk1001 = [0x02, 0x00]"
definition unk1002A :: bytes where "unk1002A = [0x01, 0x00]"
definition unk1002B :: bytes where "unk1002B = [0xff, 0xff, 0x02, 0x02, 0x00, 0x03]"
definition unk1002C :: bytes where "unk1002C = [0x03, 0x06, 0x03, 0x04, 0x00, 0x08, 0x03, 0x04]"
definition trail1002 :: bytes where "trail1002 = [0xfa, 0x01, 0x00, 0x00]"

definition setupHeader :: "bytes \<Rightarrow> u16 \<Rightarrow> u16 \<Rightarrow> nat \<Rightarrow> bytes" where
  "setupHeader b typ unknown tot =
     b @ [0x04, 0x02, 0x1d, setupMagic3] @ le_bytes 4 (word_of_nat (tot - coordHeaderLen) :: u32)
       @ le_bytes 2 typ @ le_bytes 2 unknown @ [0, 0, 0, 0]"

definition appendUID20 :: "bytes \<Rightarrow> bytes \<Rightarrow> bytes" where
  "appendUID20 b uid = b @ slot coordUIDLen uid"

definition appendToken8 :: "bytes \<Rightarrow> bytes \<Rightarrow> bytes" where
  "appendToken8 b tok = b @ slot coordTokenLen tok"

definition build000c :: "bytes \<Rightarrow> bytes \<Rightarrow> bytes" where
  "build000c uid token =
     (let out = setupHeader [] type000c 0x0024 len000c;
          out = appendUID20 out uid;
          out = appendToken8 out token;
          out = out @ unk000cA;
          out = out @ [0, 0];
          out = out @ unk000cB
      in out @ replicate (len000c - length out) 0)"

definition build1001 :: "bytes \<Rightarrow> bytes \<Rightarrow> coordAddr \<Rightarrow> bytes" where
  "build1001 uid token loc =
     (let out = setupHeader [] type1001 0x0034 len1001;
          out = appendUID20 out uid;
          addrs = (replicate 4 zero_coordAddr)[0 := loc];
          out = fold coordAddr_appendTo addrs out;
          out = appendToken8 out token;
          out = out @ unk1001
      in out @ replicate (len1001 - length out) 0)"

definition build1002 :: "bytes \<Rightarrow> bytes \<Rightarrow> nat \<Rightarrow> coordAddr list \<Rightarrow> bytes" where
  "build1002 uid token devPort addrs =
     (let out = setupHeader [] type1002 0x0024 len1002;
          out = appendUID20 out uid;
          out = out @ unk1002A;
          out = out @ be_bytes 2 (word_of_nat devPort :: u16);
          out = out @ replicate 10 0;
          out = out @ unk1002B;
          out = out @ [0, 0, 0, 0];
          out = out @ unk1002C;
          out = appendToken8 out token;
          out = fold coordAddr_appendTo addrs out
      in out @ trail1002)"

definition SetupMessages ::
  "bytes \<Rightarrow> bytes \<Rightarrow> ip \<Rightarrow> nat \<Rightarrow> ip \<Rightarrow> nat \<Rightarrow> ip \<Rightarrow> nat \<Rightarrow> bytes list" where
  "SetupMessages uid token localIP localPort reflIP reflPort devIP devPort =
     (let loc = \<lparr>ca_Family = familyNone, ca_Port = localPort, ca_IP = To4 localIP\<rparr>;
          addrs = (replicate coordAddrSlots zero_coordAddr)[slotLocal := loc];
          r4 = To4 reflIP;
          addrs = (if r4 \<noteq> [] then addrs[slotReflex := \<lparr>ca_Family = familyInet4, ca_Port = reflPort, ca_IP = r4\<rparr>] else addrs);
          d4 = To4 devIP;
          addrs = (if d4 \<noteq> [] then addrs[slotDevPublc := \<lparr>ca_Family = familyInet4, ca_Port = devPort, ca_IP = d4\<rparr>] else addrs)
      in [build000c uid token, build1001 uid token loc, build1002 uid token devPort addrs])"

section \<open>The 51cc relay channel\<close>

type_synonym gcm_seal = "bytes \<Rightarrow> sealer"
type_synonym gcm_open = "bytes \<Rightarrow> opener"

definition relaySPKIPrefix :: bytes where
  "relaySPKIPrefix = [0x30, 0x59, 0x30, 0x13, 0x06, 0x07, 0x2a, 0x86, 0x48, 0xce, 0x3d, 0x02, 0x01, 0x06,
     0x08, 0x2a, 0x86, 0x48, 0xce, 0x3d, 0x03, 0x01, 0x07, 0x03, 0x42, 0x00]"

record RelayChannel =
  rc_Z :: bytes
  rc_Nonce :: bytes
  rc_Addr :: UDPAddr
  rc_Hello :: bytes
  rc_seq :: u32
  rc_uid :: bytes

text \<open>\<open>Rehandshake\<close>: the datagram it sends, if any.\<close>

definition Rehandshake :: "RelayChannel \<Rightarrow> (bytes \<times> UDPAddr) list" where
  "Rehandshake c = (if rc_Hello c \<noteq> [] then [(rc_Hello c, rc_Addr c)] else [])"

text \<open>
  \<open>build0202\<close> after the key agreement: \<open>z\<close> is the shared secret, \<open>pub\<close> the ephemeral public point (65
  bytes), \<open>nonce\<close> and \<open>rid\<close> the random bytes it draws.
\<close>

definition build0202 ::
  "gcm_seal \<Rightarrow> bytes \<Rightarrow> bytes \<Rightarrow> bytes \<Rightarrow> bytes \<Rightarrow> bytes \<Rightarrow> RelayChannel \<times> bytes" where
  "build0202 sl z pub nonce rid uid =
     (let ch = \<lparr>rc_Z = take 16 z, rc_Nonce = nonce, rc_Addr = \<lparr>ua_IP = [], ua_Port = 0\<rparr>, rc_Hello = [],
                rc_seq = 0, rc_uid = uid\<rparr>;
          spki = relaySPKIPrefix @ pub;
          pt = [0x04, 0x02, 0x1d, 0x00, 0x24, 0, 0, 0, 0x17, 0x02, 0x24, 0, 0, 0, 0, 0] @ rid @ [0, 0]
                 @ slot 20 uid @ replicate 12 0;
          pkt = [0x51, 0xcc, 0, 0, 0x02, 0x02] @ le_bytes 2 (word_of_nat (12 + length spki + 1 + 68) :: u16)
                  @ [0, 0, 0, 0] @ nonce @ spki @ [0]
      in (ch, pkt @ sl (rc_Z ch) (rc_Nonce ch) pt pkt))"

definition hdr0204 :: "u32 \<Rightarrow> nat \<Rightarrow> bytes" where
  "hdr0204 sq len = [0x51, 0xcc, 0, 0, 0x02, 0x04] @ le_bytes 2 (word_of_nat (4 + len + 16) :: u16)
     @ [0, 0, 0, 0] @ le_bytes 4 sq"

definition Send0204 :: "gcm_seal \<Rightarrow> RelayChannel \<Rightarrow> bytes \<Rightarrow> RelayChannel \<times> (bytes \<times> UDPAddr)" where
  "Send0204 sl c pt =
     (let hdr = hdr0204 (rc_seq c) (length pt)
      in (c\<lparr>rc_seq := rc_seq c + 1\<rparr>, (hdr @ sl (rc_Z c) (rc_Nonce c) pt hdr, rc_Addr c)))"

text \<open>
  \<open>Open(nil, \<dots>)\<close> of an empty plaintext is a nil slice, which \<open>Decode\<close>'s callers take for a failure.
\<close>

definition nonnil_bytes :: "bytes option \<Rightarrow> bytes option" where
  "nonnil_bytes r = (case r of Some [] \<Rightarrow> None | _ \<Rightarrow> r)"

definition Decode :: "gcm_open \<Rightarrow> RelayChannel \<Rightarrow> bytes \<Rightarrow> bytes option" where
  "Decode op c w =
     (if length w < 28 \<or> w ! 0 \<noteq> 0x51 then None
      else if w ! 5 = 0x03 then nonnil_bytes (op (rc_Z c) (rc_Nonce c) (drop 12 w) (take 12 w))
      else if w ! 5 = 0x04 \<or> w ! 5 = 0x05 then
        (if length w \<ge> 32 then nonnil_bytes (op (rc_Z c) (rc_Nonce c) (drop 16 w) (take 16 w)) else None)
      else None)"

text \<open>
  \<open>Coordinate\<close>: every round sends the 0202 and reads until a 0203 decrypts. \<open>ka\<close> is what the key
  agreement and the random source give \<open>build0202\<close> (the secret, the public point, the nonce and
  the two identifier bytes), \<open>None\<close> when it fails.
\<close>

definition is0203 :: "gcm_open \<Rightarrow> RelayChannel \<Rightarrow> bytes \<Rightarrow> bool" where
  "is0203 op c w \<longleftrightarrow> length w > 20 \<and> w ! 0 = 0x51 \<and> w ! 5 = 0x03 \<and> Decode op c w \<noteq> None"

definition coord_round ::
  "gcm_open \<Rightarrow> RelayChannel \<Rightarrow> int \<Rightarrow> 'a sock_scheme \<Rightarrow> 'a sock_scheme \<times> unit option" where
  "coord_round op ch now k =
     read_all (\<lambda>(w, _) k. (k, if is0203 op ch (take 4096 w) then Some () else None))
       (sk_send now (rc_Hello ch) (rc_Addr ch) k)"

definition Coordinate ::
  "gcm_seal \<Rightarrow> gcm_open \<Rightarrow> (bytes \<times> bytes \<times> bytes \<times> bytes) option \<Rightarrow> UDPAddr \<Rightarrow> bytes \<Rightarrow> round list \<Rightarrow>
     'a sock_scheme \<Rightarrow> 'a sock_scheme \<times> RelayChannel option \<times> round list" where
  "Coordinate sl op ka addr uid rs k =
     (case ka of
        None \<Rightarrow> (k, None, rs)
      | Some (z, pub, nonce, rid) \<Rightarrow>
          let (ch, pkt) = build0202 sl z pub nonce rid uid;
              ch = ch\<lparr>rc_Addr := addr, rc_Hello := pkt\<rparr>
          in case round_loop (coord_round op ch) (clock rs k + 3 * second) rs k of
               (k, Some _, rs) \<Rightarrow> (k, Some ch, rs)
             | (k, None, rs) \<Rightarrow> (k, None, rs))"

section \<open>Layout\<close>

definition good_coordAddr :: "coordAddr \<Rightarrow> bool" where
  "good_coordAddr a \<longleftrightarrow> ca_IP a = [] \<or> To4 (ca_IP a) \<noteq> []"

lemma good_zero [simp]: "good_coordAddr zero_coordAddr"
  by (simp add: good_coordAddr_def zero_coordAddr_def)

lemma coordAddr_append: "coordAddr_appendTo a (x @ y) = x @ coordAddr_appendTo a y"
  by (simp add: coordAddr_appendTo_def)

lemma fold_coordAddr: "fold coordAddr_appendTo as b = b @ fold coordAddr_appendTo as []"
proof (induction as arbitrary: b)
  case (Cons a as)
  have "coordAddr_appendTo a b = b @ coordAddr_appendTo a []"
    using coordAddr_append [of a b "[]"] by simp
  then show ?case
    using Cons [of "b @ coordAddr_appendTo a []"] Cons [of "coordAddr_appendTo a []"] by simp
qed simp

lemma length_coordAddr: "good_coordAddr a \<Longrightarrow> length (coordAddr_appendTo a b) = length b + 16"
  using length_To4 [of "ca_IP a"] by (auto simp: coordAddr_appendTo_def good_coordAddr_def)

lemma length_fold_coordAddr [wire_len]:
  "list_all good_coordAddr as \<Longrightarrow> length (fold coordAddr_appendTo as b) = length b + 16 * length as"
  by (induction as arbitrary: b) (simp_all add: length_coordAddr)

lemma coordSetup_split:
  "coordSetup_bytes c =
     [0x04, 0x02, 0x1d, 0x02, 0x10, 0x02, 0, 0, 0x04, 0x08, 0x24, 0x00, 0, 0, 0, 0] @ slot 20 (cs_UID c)
       @ [0x01, 0x00] @ be_bytes 2 (word_of_nat (cs_DevPort c) :: u16)
       @ replicate 10 0 @ [0xff, 0xff, 0x02, 0x02, 0x00, 0x02, 0, 0, 0, 0, 0x03, 0x06, 0x03, 0x04, 0x03, 0x06, 0x03, 0x04]
       @ slot 8 (cs_Token c) @ fold coordAddr_appendTo (cs_Addrs c) [] @ [0x2e, 0x03, 0x00, 0x00]"
  unfolding coordSetup_bytes_def Let_def
  by (subst fold_coordAddr)
    (simp add: le_bytes_4 coordUnknown36_def coordUnknown50_def coordUnknown60_def coordTrailer_def)

lemma coordSetup_fields:
  "take 2 (drop 38 (coordSetup_bytes c)) = be_bytes 2 (word_of_nat (cs_DevPort c) :: u16)"
  "take 8 (drop 68 (coordSetup_bytes c)) = slot 8 (cs_Token c)"
  "take 20 (drop 16 (coordSetup_bytes c)) = slot 20 (cs_UID c)"
  by (simp_all add: coordSetup_split)

lemma length_coordSetup:
  "list_all good_coordAddr (cs_Addrs c) \<Longrightarrow> length (cs_Addrs c) = 29 \<Longrightarrow> length (coordSetup_bytes c) = 544"
  by (simp add: coordSetup_split wire_len)

section \<open>Properties\<close>

lemma good_replicate: "list_all good_coordAddr (replicate n zero_coordAddr)"
  by (simp add: list_all_length)

lemma good_update: "list_all good_coordAddr as \<Longrightarrow> good_coordAddr a \<Longrightarrow> list_all good_coordAddr (as[i := a])"
  using set_update_subset_insert [of as i a] by (auto simp: list_all_iff)

lemma good_4: "To4 x \<noteq> [] \<Longrightarrow> good_coordAddr \<lparr>ca_Family = f, ca_Port = p, ca_IP = To4 x\<rparr>"
  by (simp add: good_coordAddr_def)

lemma Build0408_setup:
  "\<exists>as. Build0408 uid (Some c) lip lp rip rp =
       coordSetup_bytes \<lparr>cs_UID = uid, cs_DevPort = c1_DevPort c, cs_Token = c1_Token c, cs_Addrs = as\<rparr> \<and>
     list_all good_coordAddr as \<and> length as = 29"
  unfolding Build0408_def Let_def option.case
  by (auto simp: good_update good_replicate good_4 simp del: replicate.simps intro!: exI)

lemma Build0408_echo:
  assumes "Parse0103 pt = Some c"
  shows "length (Build0408 uid (Some c) lip lp rip rp) = 544 \<and>
     take 8 (drop 68 (Build0408 uid (Some c) lip lp rip rp)) = take 8 (drop (length pt - 16) pt) \<and>
     take 2 (drop 38 (Build0408 uid (Some c) lip lp rip rp)) = take 2 (drop 38 pt)"
proof -
  have pt: "44 \<le> length pt" and c: "c1_Token c = take 8 (drop (length pt - 16) pt)"
    "c1_DevPort c = push_bit 8 (unat (pt ! 38)) OR unat (pt ! 39)"
    using assms by (auto simp: Parse0103_def split: if_splits)
  have tok: "slot 8 (c1_Token c) = c1_Token c" using pt by (simp add: c(1))
  have "be_bytes 2 (word_of_nat (c1_DevPort c) :: u16) = [pt ! 38, pt ! 39]"
  proof -
    have w: "(word_of_nat (c1_DevPort c) :: u16) = push_bit 8 (ucast (pt ! 38)) OR ucast (pt ! 39)"
      by (simp add: c(2) unsigned_or_eq [symmetric] of_nat_or_eq of_nat_push_bit)
    have "\<not> bit (b :: byte) (8 + n)" for b n
      using bit_imp_le_length [of b "8 + n"] by auto
    then show ?thesis unfolding be_bytes_2 w
      by (auto intro!: bit_word_eqI simp: bit_simps)
  qed
  moreover have "take 2 (drop 38 pt) = [pt ! 38, pt ! 39]"
    using pt by (simp add: numeral_2_eq_2 Cons_nth_drop_Suc [symmetric])
  ultimately show ?thesis
    using Build0408_setup [of uid c lip lp rip rp] tok c(1)
    by (auto simp: coordSetup_fields length_coordSetup)
qed

text \<open>
  The 0408 echoes what the 0103 carried. For every payload \<open>Parse0103\<close> accepts, the answer is 544
  bytes long, repeats at offset 68 the eight token bytes that stand 16 bytes before the end of the
  0103, and at offset 38 the two port bytes, whatever addresses are substituted.
\<close>

theorem answer_0408_echoes_0103:
  assumes "Parse0103 pt = Some c"
  shows "length (Build0408 uid (Some c) lip lp rip rp) = 544 \<and>
     take 8 (drop 68 (Build0408 uid (Some c) lip lp rip rp)) = take 8 (drop (length pt - 16) pt) \<and>
     take 2 (drop 38 (Build0408 uid (Some c) lip lp rip rp)) = take 2 (drop 38 pt)"
  using assms by (rule Build0408_echo)

definition demo_0103 :: bytes where
  "demo_0103 = replicate 8 0 @ [1, 3] @ replicate 28 0 @ [0x1f, 0x90, 8, 8, 4, 4] @ [1, 2, 3, 4, 5, 6, 7, 8] @ replicate 8 0"

theorem answer_0408_echoes_0103_witness:
  "\<exists>c. Parse0103 demo_0103 = Some c \<and>
     take 8 (drop 68 (Build0408 [] (Some c) [] 0 [] 0)) = [1, 2, 3, 4, 5, 6, 7, 8]"
proof -
  have p: "Parse0103 demo_0103 \<noteq> None" by (simp add: Parse0103_def demo_0103_def nth_append)
  then obtain c where c: "Parse0103 demo_0103 = Some c" by blast
  have "take 8 (drop (length demo_0103 - 16) demo_0103) = [1, 2, 3, 4, 5, 6, 7, 8]"
    by (simp add: demo_0103_def)
  with answer_0408_echoes_0103 [OF c, of "[]" "[]" 0 "[]" 0] c show ?thesis by auto
qed

lemma length_setupHeader [wire_len]: "length (setupHeader b ty u n) = length b + 16"
  by (simp add: setupHeader_def)

lemma length_unks [wire_len]:
  "length unk000cA = 2" "length unk000cB = 2" "length unk1001 = 2" "length unk1002A = 2" "length unk1002B = 6"
  "length unk1002C = 8" "length trail1002 = 4"
  by (simp_all add: unk000cA_def unk000cB_def unk1001_def unk1002A_def unk1002B_def unk1002C_def trail1002_def)

lemma length_appends [wire_len]:
  "length (appendUID20 b u) = length b + 20" "length (appendToken8 b u) = length b + 8"
  by (simp_all add: appendUID20_def appendToken8_def)

text \<open>
  The three relay set-up messages always have their fixed sizes of 64, 288 and 544 bytes,
  whatever UID, token and addresses they are built from (IPv4, IPv6 or none), so the length
  field written in each header is right.
\<close>

theorem setup_messages_sizes:
  "map length (SetupMessages uid tok lip lp rip rp dip dp) = [64, 288, 544]"
proof -
  have g: "good_coordAddr \<lparr>ca_Family = f, ca_Port = p, ca_IP = To4 x\<rparr>" for f p x
    by (simp add: good_coordAddr_def)
  have b1: "length (build000c uid tok) = 64"
    by (simp add: build000c_def Let_def wire_len len000c_def)
  have b2: "length (build1001 uid tok a) = 288" if "good_coordAddr a" for a
    using good_update [OF good_replicate that, of 4 0]
    by (simp add: build1001_def Let_def wire_len len1001_def del: list_update.simps replicate.simps)
  have b3: "length (build1002 uid tok dp as) = 544" if "list_all good_coordAddr as" "length as = 29" for as
    using that by (simp add: build1002_def Let_def wire_len)
  show ?thesis
    unfolding SetupMessages_def Let_def
    by (simp add: b1 b2 b3 g good_update good_replicate del: replicate.simps list_update.simps)
qed

text \<open>
  The relay channel round-trips: with an AES-GCM that opens what it sealed, the packet of
  \<open>Send0204\<close> is decoded by \<open>Decode\<close> on a channel with the same key and nonce to the message that was
  sent, its length field counts the bytes after the 12-byte header, and the sequence number
  in the header is the channel's, which advances by one.
\<close>

theorem relay_channel_roundtrip:
  assumes "aead_ok (sl (rc_Z c)) (op (rc_Z c))" "length (rc_Nonce c) = 12" "pt \<noteq> []" "length pt < 60000"
  shows "Decode op c (fst (snd (Send0204 sl c pt))) = Some pt \<and>
     unat (le_word (take 2 (drop 6 (fst (snd (Send0204 sl c pt))))) :: u16) = length (fst (snd (Send0204 sl c pt))) - 12 \<and>
     le_word (take 4 (drop 12 (fst (snd (Send0204 sl c pt))))) = rc_seq c \<and>
     rc_seq (fst (Send0204 sl c pt)) = rc_seq c + 1"
proof -
  let ?h = "hdr0204 (rc_seq c) (length pt)"
  let ?b = "sl (rc_Z c) (rc_Nonce c) pt ?h"
  have b: "length ?b = length pt + 16" "op (rc_Z c) (rc_Nonce c) ?b ?h = Some pt"
    using assms(1,2) by (auto simp: aead_ok_def)
  have lh: "length ?h = 16" by (simp add: hdr0204_def)
  have w: "fst (snd (Send0204 sl c pt)) = ?h @ ?b" by (simp add: Send0204_def Let_def)
  have nth: "(?h @ ?b) ! 0 = 0x51" "(?h @ ?b) ! 5 = 0x04" by (simp_all add: hdr0204_def)
  have len: "length (?h @ ?b) = length pt + 32" using lh b by simp
  have "Decode op c (?h @ ?b) = Some pt"
    using nth len lh b assms(3)
    by (simp add: Decode_def nonnil_bytes_def split: list.splits)
  moreover have "take 2 (drop 6 (?h @ ?b)) = le_bytes 2 (word_of_nat (4 + length pt + 16) :: u16)"
    "take 4 (drop 12 (?h @ ?b)) = le_bytes 4 (rc_seq c)"
    by (simp_all add: hdr0204_def)
  moreover have "unat (20 + word_of_nat (length pt) :: u16) = 20 + length pt"
    using unat_u16_of_nat [of "20 + length pt"] assms(4) by simp
  ultimately show ?thesis
    using len by (simp add: w Send0204_def Let_def del: take_append drop_append length_append)
qed

definition toy_gcm_seal :: gcm_seal where "toy_gcm_seal k nonce pt aad = pt @ replicate 16 9"
definition toy_gcm_open :: gcm_open where "toy_gcm_open k nonce ct aad = Some (take (length ct - 16) ct)"

theorem relay_channel_roundtrip_witness:
  "let c = \<lparr>rc_Z = [1], rc_Nonce = replicate 12 0, rc_Addr = \<lparr>ua_IP = [], ua_Port = 0\<rparr>, rc_Hello = [], rc_seq = 4, rc_uid = []\<rparr>
   in Decode toy_gcm_open c (fst (snd (Send0204 toy_gcm_seal c [5, 6]))) = Some [5, 6]"
proof -
  have "aead_ok (toy_gcm_seal k) (toy_gcm_open k)" for k
    by (simp add: aead_ok_def toy_gcm_seal_def toy_gcm_open_def)
  then show ?thesis
    using relay_channel_roundtrip [of toy_gcm_seal "\<lparr>rc_Z = [1], rc_Nonce = replicate 12 0,
      rc_Addr = \<lparr>ua_IP = [], ua_Port = 0\<rparr>, rc_Hello = [], rc_seq = 4, rc_uid = []\<rparr>" toy_gcm_open "[5, 6]"]
    by (simp add: Let_def)
qed

end
