(* ===== verification/Tnauth.thy ===== *)
theory Tnauth
  imports Relay "HOL-Library.Sublist"
begin

unbundle bit_operations_syntax

text \<open>
  The authorization precheck of \<open>internal/tnauth\<close> (\<open>tnauth.go\<close>) and the derivation of the authkey from
  a licence (\<open>authkey.go\<close>).

  \<^item> An RSA public key is its modulus, exponent and size in bytes; the textbook operation on
    \<open>big.Int\<close> values is arithmetic on naturals (\<open>be_nat\<close>, \<open>nat_be\<close>).
  \<^item> \<open>encoding/base64\<close> and \<open>encoding/json\<close> enter as the functions \<open>b64\<close> (trimming included) and
    \<open>realm_of\<close>, the \<open>realm\<close> field of a JSON object, each returning \<open>None\<close> on an error. Strings are bytes.
  \<^item> The random bytes of a precheck are arguments.
  \<^item> A run-time panic (an index out of range) is the error \<open>IndexPanic\<close>.
\<close>

datatype auth_error =
    NotBase64
  | LicenceTooShort nat
  | BadVersion u32
  | IndexPanic
  | NotJSON
  | BadJSON
  | EmptyAuthkey
  | BadUIDLen nat
  | BadKeyLen nat
  | BadTailLen nat
  | ReplyTooShort nat
  | OpenFailed

section \<open>Textbook RSA\<close>

record rsa_pub =
  pk_N :: nat
  pk_E :: nat
  pk_Size :: nat

definition be_nat :: "bytes \<Rightarrow> nat" where
  "be_nat b = foldl (\<lambda>a x. 256 * a + unat x) 0 b"

text \<open>\<open>FillBytes\<close>: the big-endian bytes, zero-padded on the left to \<open>k\<close>.\<close>

definition nat_be :: "nat \<Rightarrow> nat \<Rightarrow> bytes" where
  "nat_be k n = map (\<lambda>i. word_of_nat (n div 256 ^ (k - 1 - i))) [0..<k]"

text \<open>Right alignment slices \<open>block[k-len(msg):]\<close>, which panics when the message is longer than the
  modulus; left alignment cuts it.\<close>

definition rawRSA :: "rsa_pub \<Rightarrow> bytes \<Rightarrow> bool \<Rightarrow> auth_error + bytes" where
  "rawRSA pub msg leftAlign =
     (let k = pk_Size pub in
      if \<not> leftAlign \<and> length msg > k then Inl IndexPanic
      else
        let block = (if leftAlign then slot k msg else replicate (k - length msg) 0 @ msg);
            m = be_nat block;
            c = m ^ pk_E pub mod pk_N pub
        in Inr (nat_be k c))"

definition rsaEncrypt :: "rsa_pub \<Rightarrow> bytes \<Rightarrow> auth_error + bytes" where
  "rsaEncrypt pub msg = rawRSA pub msg True"

section \<open>The licence\<close>

definition index_byte :: "byte \<Rightarrow> bytes \<Rightarrow> nat option" where
  "index_byte c s = (let n = length (takeWhile (\<lambda>x. x \<noteq> c) s) in if n < length s then Some n else None)"

fun index_of :: "bytes \<Rightarrow> bytes \<Rightarrow> nat option" where
  "index_of p [] = (if p = [] then Some 0 else None)"
| "index_of p (x # xs) = (if prefix p (x # xs) then Some 0 else map_option Suc (index_of p xs))"

definition ln98 :: bytes where "ln98 = [0x6c, 0x6e, 0x39, 0x38]"

definition DeriveAuthKey ::
  "rsa_pub \<Rightarrow> ('s \<Rightarrow> bytes option) \<Rightarrow> (bytes \<Rightarrow> bytes option) \<Rightarrow> 's \<Rightarrow> auth_error + bytes" where
  "DeriveAuthKey pub b64 realm_of licenseKey =
     (case b64 licenseKey of
        None \<Rightarrow> Inl NotBase64
      | Some blob \<Rightarrow>
          let modBytes = pk_Size pub in
          if length blob < 4 + modBytes then Inl (LicenceTooShort (length blob))
          else let v = (le_word (take 4 blob) :: u32) in
          if v \<noteq> 1 then Inl (BadVersion v)
          else
            let sig = be_nat (take modBytes (drop 4 blob));
                recovered = nat_be modBytes (sig ^ pk_E pub mod pk_N pub);
                tail = drop (4 + modBytes) blob
            in if length tail > length recovered then Inl IndexPanic
               else
                 let plain = map2 (XOR) tail recovered in
                 case index_byte 0x7d plain of
                   None \<Rightarrow> Inl NotJSON
                 | Some e \<Rightarrow>
                     (case realm_of (take (e + 1) plain) of
                        None \<Rightarrow> Inl BadJSON
                      | Some realm \<Rightarrow>
                          let authkey = (case index_of ln98 realm of Some i \<Rightarrow> take i realm | None \<Rightarrow> realm)
                          in if authkey = [] then Inl EmptyAuthkey else Inr authkey))"

section \<open>The precheck\<close>

definition tailSuffix :: bytes where
  "tailSuffix = [0x6c, 0x6e, 0x39, 0x38, 0x06, 0x00, 0x00, 0x00]"

definition credentialTail :: "bytes \<Rightarrow> bytes \<Rightarrow> auth_error + bytes" where
  "credentialTail deviceUID authKey =
     (if length deviceUID \<noteq> 20 then Inl (BadUIDLen (length deviceUID))
      else if length authKey \<noteq> 12 then Inl (BadKeyLen (length authKey))
      else Inr (deviceUID @ authKey @ tailSuffix))"

definition authBlobHeader :: bytes where
  "authBlobHeader = [0x04, 0x02, 0x1d, 0x00, 0x48, 0x00, 0x00, 0x00, 0x0b, 0x10, 0x18, 0x00, 0x00, 0x00, 0x00, 0x00]"

definition precheck0201Header :: bytes where
  "precheck0201Header = [0x51, 0xcc, 0x00, 0x00, 0x02, 0x01, 0x00, 0x01, 0x00, 0x00, 0x00, 0x00]"

definition BuildAuthBlobFixed :: "bytes \<Rightarrow> u16 \<Rightarrow> bytes \<Rightarrow> bytes \<Rightarrow> auth_error + bytes" where
  "BuildAuthBlobFixed tail sessID sessKey nonce =
     (if length tail \<noteq> 40 then Inl (BadTailLen (length tail))
      else Inr (authBlobHeader @ le_bytes 2 sessID @ [0, 0] @ sessKey @ nonce @ tail))"

definition BuildPrecheck0201Fixed ::
  "rsa_pub \<Rightarrow> bytes \<Rightarrow> bytes \<Rightarrow> u16 \<Rightarrow> bytes \<Rightarrow> bytes \<Rightarrow> auth_error + bytes" where
  "BuildPrecheck0201Fixed pub deviceUID authKey sessID sessKey nonce =
     (case credentialTail deviceUID authKey of
        Inl e \<Rightarrow> Inl e
      | Inr tail \<Rightarrow>
          (case BuildAuthBlobFixed tail sessID sessKey nonce of
             Inl e \<Rightarrow> Inl e
           | Inr blob \<Rightarrow>
               (case rsaEncrypt pub blob of
                  Inl e \<Rightarrow> Inl e
                | Inr ct \<Rightarrow> Inr (precheck0201Header @ ct))))"

text \<open>\<open>BuildPrecheck0201Ex\<close>, over the random bytes it draws.\<close>

definition BuildPrecheck0201Ex ::
  "rsa_pub \<Rightarrow> bytes \<Rightarrow> bytes \<Rightarrow> bytes \<Rightarrow> bytes \<Rightarrow> bytes \<Rightarrow> (auth_error + bytes) \<times> bytes \<times> bytes" where
  "BuildPrecheck0201Ex pub deviceUID authKey sid sessKey nonce =
     (let i = (ucast (sid ! 0) OR push_bit 8 (ucast (sid ! 1)) :: u16)
      in (BuildPrecheck0201Fixed pub deviceUID authKey i sessKey nonce, sessKey, nonce))"

definition DecodeReply :: "gcm_open \<Rightarrow> bytes \<Rightarrow> bytes \<Rightarrow> bytes \<Rightarrow> auth_error + bytes" where
  "DecodeReply op reply sessKey nonce =
     (if length reply < 12 + 16 then Inl (ReplyTooShort (length reply))
      else case op sessKey nonce (drop 12 reply) (take 12 reply) of
             None \<Rightarrow> Inl OpenFailed | Some p \<Rightarrow> Inr p)"

section \<open>Relay endpoints in the reply\<close>

record RelayEndpoint =
  re_IP :: ip
  re_Port :: nat
  re_ECDHPub :: bytes

definition bytesEqual :: "bytes \<Rightarrow> bytes \<Rightarrow> bool" where
  "bytesEqual a b = (if length a \<noteq> length b then False else list_all (\<lambda>i. a ! i = b ! i) [0..<length a])"

lemma bytesEqual_iff [simp]: "bytesEqual a b \<longleftrightarrow> a = b"
  unfolding bytesEqual_def by (auto simp: list_all_iff intro: nth_equalityI)

definition p256SPKIPrefix :: bytes where
  "p256SPKIPrefix = [0x30, 0x59, 0x30, 0x13, 0x06, 0x07, 0x2a, 0x86, 0x48, 0xce, 0x3d, 0x02, 0x01, 0x06,
     0x08, 0x2a, 0x86, 0x48, 0xce, 0x3d, 0x03, 0x01, 0x07, 0x03, 0x42, 0x00, 0x04]"

definition endpoint_at :: "bytes \<Rightarrow> nat \<Rightarrow> RelayEndpoint" where
  "endpoint_at pt i =
     \<lparr>re_IP = (if i \<ge> 12 then IPv4 (pt ! (i - 12)) (pt ! (i - 11)) (pt ! (i - 10)) (pt ! (i - 9)) else []),
      re_Port = 3478, re_ECDHPub = take 65 (drop (i + 26) pt)\<rparr>"

function parse_reply_from :: "bytes \<Rightarrow> nat \<Rightarrow> RelayEndpoint list" where
  "parse_reply_from pt i =
     (if i + length p256SPKIPrefix + 64 \<le> length pt then
        (if \<not> bytesEqual (take (length p256SPKIPrefix) (drop i pt)) p256SPKIPrefix then parse_reply_from pt (i + 1)
         else endpoint_at pt i # parse_reply_from pt (i + length p256SPKIPrefix + 64 + 1))
      else [])"
  by pat_completeness auto
termination by (relation "measure (\<lambda>(pt, i). length pt - i)") (auto simp: p256SPKIPrefix_def)

declare parse_reply_from.simps [simp del]

definition ParseReply :: "bytes \<Rightarrow> RelayEndpoint list" where
  "ParseReply pt = parse_reply_from pt 0"

section \<open>Properties\<close>

lemma be_nat_snoc: "be_nat (xs @ [x]) = 256 * be_nat xs + unat x"
  by (simp add: be_nat_def)

lemma nat_be_Suc: "nat_be (Suc k) n = nat_be k (n div 256) @ [word_of_nat n]"
proof -
  have "n div 256 ^ (k - i) = n div 256 div 256 ^ (k - 1 - i)" if "i < k" for i
  proof -
    have "k - i = Suc (k - 1 - i)" using that by simp
    then show ?thesis by (simp add: div_mult2_eq)
  qed
  then show ?thesis by (simp add: nat_be_def)
qed

lemma be_nat_nat_be: "be_nat (nat_be k n) = n mod 256 ^ k"
proof (induction k arbitrary: n)
  case 0
  then show ?case by (simp add: nat_be_def be_nat_def)
next
  case (Suc k)
  have "unat (word_of_nat n :: byte) = n mod 256" by (simp add: unat_of_nat)
  then show ?case
    by (simp add: nat_be_Suc be_nat_snoc Suc mod_mult2_eq)
qed

lemma length_nat_be [simp]: "length (nat_be k n) = k"
  by (simp add: nat_be_def)

text \<open>
  The precheck is well formed exactly when the UID has 20 characters and the authkey 12, and is
  refused with the offending length otherwise. It is then 268 bytes under the 2048-bit master key:
  the 12-byte 51cc header and the textbook RSA encryption of the zero-padded 88-byte blob,
  in which session id, key, nonce and credentials stand at their documented offsets.
\<close>

theorem precheck_well_formed:
  assumes "pk_Size pub = 256" "0 < pk_N pub" "pk_N pub \<le> 256 ^ 256" "length sessKey = 16" "length nonce = 12"
  shows "(if length uid \<noteq> 20 then BuildPrecheck0201Fixed pub uid key i sessKey nonce = Inl (BadUIDLen (length uid))
     else if length key \<noteq> 12 then BuildPrecheck0201Fixed pub uid key i sessKey nonce = Inl (BadKeyLen (length key))
     else \<exists>msg blob. BuildPrecheck0201Fixed pub uid key i sessKey nonce = Inr msg \<and> length msg = 268 \<and>
        take 12 msg = precheck0201Header \<and>
        be_nat (drop 12 msg) = be_nat (slot 256 blob) ^ pk_E pub mod pk_N pub \<and>
        length blob = 88 \<and> le_word (take 2 (drop 16 blob)) = i \<and> take 16 (drop 20 blob) = sessKey \<and>
        take 12 (drop 36 blob) = nonce \<and> drop 48 blob = uid @ key @ tailSuffix)"
proof -
  let ?blob = "authBlobHeader @ le_bytes 2 i @ [0, 0] @ sessKey @ nonce @ uid @ key @ tailSuffix"
  let ?c = "be_nat (slot 256 ?blob) ^ pk_E pub mod pk_N pub"
  have "?c < 256 ^ 256" using assms(2,3) by (meson less_le_trans mod_less_divisor)
  then have "be_nat (nat_be 256 ?c) = ?c" by (simp only: be_nat_nat_be mod_less)
  moreover have "length authBlobHeader = 16" "length precheck0201Header = 12" "length tailSuffix = 8"
    by (simp_all add: authBlobHeader_def precheck0201Header_def tailSuffix_def)
  ultimately show ?thesis
    using assms by (auto simp: BuildPrecheck0201Fixed_def credentialTail_def BuildAuthBlobFixed_def rsaEncrypt_def
        rawRSA_def Let_def intro!: exI [of _ ?blob])
qed

definition demo_pub :: rsa_pub where "demo_pub = \<lparr>pk_N = 77, pk_E = 3, pk_Size = 256\<rparr>"

theorem precheck_well_formed_witness:
  "\<exists>msg. BuildPrecheck0201Fixed demo_pub (replicate 20 65) (replicate 12 66) 7 (replicate 16 1) (replicate 12 2) = Inr msg \<and>
     length msg = 268"
  using precheck_well_formed [of demo_pub "replicate 16 1" "replicate 12 2" "replicate 20 65" "replicate 12 66" 7]
  by (auto simp: demo_pub_def)

lemma index_byte_first: "c \<notin> set xs \<Longrightarrow> index_byte c (xs @ c # ys) = Some (length xs)"
  by (simp add: index_byte_def takeWhile_tail Let_def takeWhile_append)

lemma index_of_first:
  assumes "\<And>i. i < length xs \<Longrightarrow> \<not> prefix p (drop i (xs @ p @ ys))" "p \<noteq> []"
  shows "index_of p (xs @ p @ ys) = Some (length xs)"
  using assms
proof (induction xs)
  case Nil
  then show ?case by (cases p) simp_all
next
  case (Cons x xs)
  have "\<not> prefix p (drop i (xs @ p @ ys))" if "i < length xs" for i
    using Cons.prems(1) [of "Suc i"] that by simp
  moreover have "\<not> prefix p (x # xs @ p @ ys)" using Cons.prems(1) [of 0] by simp
  ultimately show ?case using Cons.IH Cons.prems(2) by simp
qed

lemma xor_map2_cancel: "length a \<le> length k \<Longrightarrow> map2 (XOR) (map2 (XOR) a k) k = (a :: bytes)"
proof (induction a arbitrary: k)
  case (Cons x a)
  then show ?case by (cases k) (auto simp: xor.assoc)
qed simp

text \<open>
  C24. A licence gives back its authkey. If the licence decodes to version 1, a signature, and the
  JSON text masked with the recovered signature block, and the text is an object whose realm is
  the authkey followed by \<open>ln98\<close> and more, then \<open>DeriveAuthKey\<close> returns that authkey.
\<close>

theorem licence_gives_authkey:
  assumes "b64 lic = Some (le_bytes 4 (1 :: u32) @ sig @ map2 (XOR) (body @ [0x7d] @ junk)
       (nat_be (pk_Size pub) (be_nat sig ^ pk_E pub mod pk_N pub)))"
    and "length sig = pk_Size pub" "length (body @ [0x7d] @ junk) \<le> pk_Size pub" "0x7d \<notin> set body"
    and "realm_of (body @ [0x7d]) = Some (authkey @ ln98 @ extra)" "authkey \<noteq> []"
    and "\<forall>i<length authkey. \<not> prefix ln98 (drop i (authkey @ ln98 @ extra))"
  shows "DeriveAuthKey pub b64 realm_of lic = Inr authkey"
proof -
  define rec where "rec = nat_be (pk_Size pub) (be_nat sig ^ pk_E pub mod pk_N pub)"
  define js where "js = body @ [0x7d] @ junk"
  define blob where "blob = le_bytes 4 (1 :: u32) @ sig @ map2 (XOR) js rec"
  have len: "length rec = pk_Size pub" "length js \<le> pk_Size pub" using assms(3) by (simp_all add: rec_def js_def)
  have b: "b64 lic = Some blob" using assms(1) by (simp add: blob_def js_def rec_def)
  have f: "length blob \<ge> 4 + pk_Size pub" "(le_word (take 4 blob) :: u32) = 1"
    "take (pk_Size pub) (drop 4 blob) = sig" "drop (4 + pk_Size pub) blob = map2 (XOR) js rec"
    using assms(2) by (simp_all add: blob_def)
  have plain: "map2 (XOR) (map2 (XOR) js rec) rec = js" using len by (intro xor_map2_cancel) simp
  have e: "index_byte 0x7d js = Some (length body)" "take (length body + 1) js = body @ [0x7d]"
    using index_byte_first [OF assms(4), of junk] by (simp_all add: js_def)
  have i: "index_of ln98 (authkey @ ln98 @ extra) = Some (length authkey)"
    using assms(7) by (intro index_of_first) (auto simp: ln98_def)
  have "\<not> length blob < 4 + pk_Size pub" "length (map2 (XOR) js rec) \<le> length rec"
    using f(1) len by simp_all
  then show ?thesis
    unfolding DeriveAuthKey_def
    using b f e i plain len assms(5,6) by (simp add: Let_def rec_def [symmetric])
qed

definition toy_b64 :: "bytes \<Rightarrow> bytes option" where "toy_b64 b = Some b"
definition toy_realm :: "bytes \<Rightarrow> bytes option" where "toy_realm j = Some [65, 66, 0x6c, 0x6e, 0x39, 0x38, 67]"

theorem licence_gives_authkey_witness:
  "DeriveAuthKey \<lparr>pk_N = 77, pk_E = 3, pk_Size = 4\<rparr> toy_b64 toy_realm
     (le_bytes 4 (1 :: u32) @ [0, 0, 0, 5] @ map2 (XOR) ([0x7b] @ [0x7d] @ []) (nat_be 4 (be_nat [0, 0, 0, 5] ^ 3 mod 77))) = Inr [65, 66]"
proof (rule licence_gives_authkey [where sig = "[0, 0, 0, 5]" and body = "[0x7b]" and junk = "[]" and extra = "[67]"])
  show "\<forall>i<length [65, 66]. \<not> prefix ln98 (drop i ([65, 66] @ ln98 @ [67]))"
    by (auto simp: ln98_def less_Suc_eq)
qed (simp_all add: toy_b64_def toy_realm_def ln98_def)

text \<open>
  A licence whose masked part is longer than the signing key's modulus is not refused: the
  unmasking loop indexes past the recovered block and the program panics.
\<close>

theorem long_licence_panics:
  assumes "b64 lic = Some blob" "length blob > 4 + 2 * pk_Size pub" "(le_word (take 4 blob) :: u32) = 1"
  shows "DeriveAuthKey pub b64 realm_of lic = Inl IndexPanic"
proof -
  have "pk_Size pub < length blob - (4 + pk_Size pub)" "\<not> length blob < 4 + pk_Size pub"
    using assms(2) by simp_all
  then show ?thesis using assms(1,3) by (simp add: DeriveAuthKey_def Let_def)
qed

theorem long_licence_panics_witness:
  "DeriveAuthKey \<lparr>pk_N = 77, pk_E = 3, pk_Size = 1\<rparr> toy_b64 toy_realm [1, 0, 0, 0, 5, 6, 7] = Inl IndexPanic"
  by (rule long_licence_panics [of _ _ "[1, 0, 0, 0, 5, 6, 7]"]) (simp_all add: toy_b64_def)

end
