(* ===== verification/Session.thy ===== *)
theory Session
  imports Packets Address Rdt_Frames Tnauth
begin

unbundle bit_operations_syntax

text \<open>
  The IOTC session of \<open>kalay/session.go\<close>: the packets it builds, the keepalive, and the datagram
  interface \<open>WriteTo\<close> and \<open>ReadFrom\<close> that DTLS runs over. Theory \<open>Dial\<close> has the phases of \<open>Dial\<close>.

  \<^item> The socket is the list \<open>s_out\<close> of datagrams written so far, with their destination; what arrives is
    a list of (packet, source address) pairs given to the function that reads. A read loop ends
    when its list ends, which is the read error or time-out of the Go code.
  \<^item> \<open>Trace\<close> and \<open>OnRaw\<close> are observers and are left out, like the progress messages.
  \<^item> \<open>localIPv4()\<close> asks the operating system; its answer is an argument (nil is \<open>[]\<close>).
\<close>

section \<open>Session packets\<close>

definition directStateOff :: nat where "directStateOff = 8"
definition deviceConnState :: byte where "deviceConnState = 0x04"

text \<open>\<open>p.Token[0]++\<close> on the eight-byte array.\<close>

definition bump0 :: "bytes \<Rightarrow> bytes" where
  "bump0 b = b[0 := b ! 0 + 1]"

definition buildDirect :: "byte \<Rightarrow> bytes \<Rightarrow> bytes \<Rightarrow> bytes" where
  "buildDirect state token uid =
     (let tok = slot tokenLen token;
          tok = (if state = deviceConnState then bump0 tok else tok)
      in EncodePayload (directPacket_bytes \<lparr>dp_State = state, dp_UID = uid, dp_Token = tok\<rparr>))"

definition buildKnock :: "ip \<Rightarrow> bytes \<Rightarrow> bytes \<Rightarrow> bytes" where
  "buildKnock localIP token uid =
     (let addrs = replicate knockAddrSlots zero_addrRecord;
          addrs = (if localIP \<noteq> [] then addrs[0 := \<lparr>ar_prefix = knockAddrPrefix, ar_ip = localIP\<rparr>] else addrs)
      in EncodePayload (knockPacket_bytes \<lparr>kp_UID = uid, kp_Addrs = addrs, kp_Token = slot tokenLen token\<rparr>))"

definition buildRDTControl :: "byte \<Rightarrow> byte \<Rightarrow> bytes \<Rightarrow> bytes" where
  "buildRDTControl mtHi mtLo val =
     EncodePayload ([0x04, 0x02, 0x1d, 0x0a, 0x08, 0x00, 0x00, 0x00, mtHi, mtLo, 0x21, 0x00, 0x00, 0x00, 0x00, 0x00]
       @ take 8 val)"

definition rdtValueBump :: "bytes \<Rightarrow> bytes" where
  "rdtValueBump val = bump0 (take 8 val)"

definition deviceState :: "bytes \<Rightarrow> byte" where
  "deviceState w = (let c = DecodePayload w in if length c \<le> directStateOff then 0 else c ! directStateOff)"

section \<open>State\<close>

record Session =
  s_dev :: UDPAddr
  s_master :: "UDPAddr option"
  s_token :: bytes
  s_stopped :: bool
  s_txSeq :: u16
  s_knockPkt :: bytes
  s_directPkt :: bytes
  s_directPkt2 :: bytes
  s_directPkt4 :: bytes
  s_preWire :: bytes
  s_preAddrs :: "UDPAddr list"
  s_relayChans :: "RelayChannel list"
  s_relaySetup :: "bytes list"
  s_stunWire :: bytes
  s_stunAddrs :: "UDPAddr list"
  s_kaTick :: nat
  s_coordUID :: bytes
  s_coordLocalIP :: ip
  s_coordReflIP :: ip
  s_coordLocalPort :: nat
  s_coordReflPort :: nat
  s_coordSeen :: nat
  s_rdtVal :: bytes
  s_lastRxNano :: int
  s_pcOpen :: bool
  s_out :: "(bytes \<times> UDPAddr) list"

definition emit :: "(bytes \<times> UDPAddr) list \<Rightarrow> Session \<Rightarrow> Session" where
  "emit ds s = s\<lparr>s_out := s_out s @ ds\<rparr>"

section \<open>Keepalive\<close>

text \<open>Sending every set-up message on one relay channel, and then on all of them.\<close>

fun send_all :: "gcm_seal \<Rightarrow> RelayChannel \<Rightarrow> bytes list \<Rightarrow> RelayChannel \<times> (bytes \<times> UDPAddr) list" where
  "send_all sl c [] = (c, [])"
| "send_all sl c (m # ms) =
     (let (c', d) = Send0204 sl c m; (c'', ds) = send_all sl c' ms in (c'', d # ds))"

fun refresh_chans ::
  "gcm_seal \<Rightarrow> bytes list \<Rightarrow> RelayChannel list \<Rightarrow> RelayChannel list \<times> (bytes \<times> UDPAddr) list" where
  "refresh_chans sl ms [] = ([], [])"
| "refresh_chans sl ms (c # cs) =
     (let (c', ds) = send_all sl c ms; (cs', es) = refresh_chans sl ms cs
      in (c' # cs', Rehandshake c @ ds @ es))"

definition ka_packet :: "Session \<Rightarrow> bytes" where
  "ka_packet s =
     (let pkt = (if s_directPkt4 s = [] then s_directPkt s else s_directPkt4 s)
      in if s_kaTick s mod 5 = 0 \<and> s_directPkt2 s \<noteq> [] then s_directPkt2 s
         else if s_kaTick s mod 5 = 2 then s_directPkt s
         else pkt)"

text \<open>One tick of the keepalive loop, which ends once the session is stopped.\<close>

definition keepalive_tick :: "gcm_seal \<Rightarrow> Session \<Rightarrow> Session" where
  "keepalive_tick sl s =
     (if s_stopped s then s
      else
        let s = s\<lparr>s_kaTick := s_kaTick s + 1\<rparr>;
            s = emit [(ka_packet s, s_dev s)] s;
            s = (if s_rdtVal s \<noteq> [] then emit [(buildRDTControl 0x27 0x04 (rdtValueBump (s_rdtVal s)), s_dev s)] s else s);
            s = (case s_master s of Some m \<Rightarrow> emit [(s_knockPkt s, m)] s | None \<Rightarrow> s)
        in if s_kaTick s mod 7 = 0 then
             let s = emit (map (\<lambda>a. (s_preWire s, a)) (s_preAddrs s)) s;
                 s = emit (map (\<lambda>a. (s_stunWire s, a)) (s_stunAddrs s)) s;
                 (cs, ds) = refresh_chans sl (s_relaySetup s) (s_relayChans s)
             in emit ds (s\<lparr>s_relayChans := cs\<rparr>)
           else s)"

section \<open>Datagram interface\<close>

definition isClientHello :: "bytes \<Rightarrow> bool" where
  "isClientHello b \<longleftrightarrow> length b \<ge> 14 \<and> b ! 0 = 0x16 \<and> b ! 1 = 0xfe \<and> b ! 2 = 0xfd \<and> b ! 3 = 0x00 \<and> b ! 4 = 0x00 \<and>
     b ! 13 = 0x01"

definition data_packet :: "Session \<Rightarrow> bytes \<Rightarrow> bytes" where
  "data_packet s b =
     (let b = (if isClientHello b then b[2 := 0xff] else b);
          rdt = BuildRDT 0x0000000c (s_token s) b;
          hdr = [0x04, 0x02, 0x1d, 0x0b] @ le_bytes 2 (word_of_nat (length rdt) :: u16) @ le_bytes 2 (s_txSeq s)
                  @ [0x07, 0x04, 0x21, 0x00, s_token s ! 0, s_token s ! 1, 0x00, 0x01]
      in EncodePayloadData (hdr @ rdt))"

text \<open>\<open>WriteTo\<close>; \<open>ok\<close> says whether the socket write succeeded.\<close>

definition WriteTo :: "bool \<Rightarrow> bytes \<Rightarrow> Session \<Rightarrow> Session \<times> nat option" where
  "WriteTo ok b s =
     (if ok then ((emit [(data_packet s b, s_dev s)] s)\<lparr>s_txSeq := s_txSeq s + 1\<rparr>, Some (length b))
      else (s, None))"

definition sameHost :: "UDPAddr \<Rightarrow> UDPAddr \<Rightarrow> bool" where
  "sameHost a b = ip_Equal (ua_IP a) (ua_IP b)"

definition handleRelay0103 :: "bytes \<Rightarrow> UDPAddr \<Rightarrow> Session \<Rightarrow> Session" where
  "handleRelay0103 pkt from s =
     (if length pkt < 10 \<or> pkt ! 0 = 0x51 \<or> s_coordUID s = [] then s
      else let p = DecodePayload pkt in
           if length p < 44 \<or> p ! 8 \<noteq> 0x01 \<or> p ! 9 \<noteq> 0x03 then s
           else case Parse0103 p of
                  None \<Rightarrow> s
                | Some c \<Rightarrow>
                    emit [(EncodePayload (Build0408 (s_coordUID s) (Some c) (s_coordLocalIP s) (s_coordLocalPort s)
                             (s_coordReflIP s) (s_coordReflPort s)), from)]
                      (s\<lparr>s_coordSeen := s_coordSeen s + 1\<rparr>))"

text \<open>
  \<open>ReadFrom\<close> over the datagrams that arrive, each with the time it is read. It returns the DTLS bytes of
  the first data packet, cut to the caller's buffer of \<open>n\<close> bytes, and what is left unread.
\<close>

fun ReadFrom ::
  "nat \<Rightarrow> (bytes \<times> UDPAddr \<times> int) list \<Rightarrow> Session \<Rightarrow> Session \<times> bytes option \<times> (bytes \<times> UDPAddr \<times> int) list" where
  "ReadFrom n [] s = (s, None, [])"
| "ReadFrom n ((pkt, from, now) # ins) s =
     (let s = (if sameHost from (s_dev s) then s\<lparr>s_lastRxNano := now\<rparr> else s) in
      if ua_Port from = 3478 then ReadFrom n ins (handleRelay0103 pkt from s)
      else if \<not> sameHost from (s_dev s) \<or> length pkt \<le> 28 then ReadFrom n ins s
      else if pkt ! 0 \<noteq> 0x4e \<or> pkt ! 1 \<noteq> 0x6f then ReadFrom n ins s
      else let clear = DecodePayloadData pkt in
           if length clear < 28 \<or> clear ! 0 \<noteq> 0x04 \<or> clear ! 1 \<noteq> 0x02 then ReadFrom n ins s
           else (s, Some (take n (drop 28 clear)), ins))"

definition Session_Close :: "Session \<Rightarrow> Session" where
  "Session_Close s = s\<lparr>s_stopped := True, s_pcOpen := False\<rparr>"

definition SinceLastRx :: "int \<Rightarrow> Session \<Rightarrow> int" where
  "SinceLastRx now s = since now (s_lastRxNano s)"

definition appendUnique :: "UDPAddr list \<Rightarrow> UDPAddr \<Rightarrow> UDPAddr list" where
  "appendUnique cands addr =
     (if list_ex (\<lambda>c. ip_Equal (ua_IP c) (ua_IP addr) \<and> ua_Port c = ua_Port addr) cands then cands
      else cands @ [addr])"

section \<open>The packet type on the wire\<close>

text \<open>
  The receivers classify a datagram by its first two obfuscated bytes. The bit permutation takes these
  two bytes from bytes 8 to 11 of the clear header, so they depend on nothing else.
\<close>

lemma getbit_applyBits_pair:
  assumes "perm_pair (length src * 8) p q" "k < length src * 8"
  shows "getbit (applyBits src p) k = getbit src (q ! k)"
proof -
  note P = perm_pairD [OF assms(1)]
  have "getbit (applyBits src p) k \<longleftrightarrow> (\<exists>i < length src * 8. getbit src i \<and> p ! i = k)"
    using P(1) assms(2) by (intro getbit_applyBits) auto
  also have "\<dots> \<longleftrightarrow> getbit src (q ! k)" using P assms(2) by metis
  finally show ?thesis .
qed

lemma type_bits_source: "list_all (\<lambda>k. revPermBits ! k div 8 \<in> {8, 9, 10, 11}) [0..<16]"
  by code_simp

lemma xorMask_block:
  assumes "length h = 16"
  shows "xorMask (h @ r) = xorMask h @ xorMask r"
proof (rule nth_equalityI)
  fix i assume i: "i < length (xorMask (h @ r))"
  show "xorMask (h @ r) ! i = (xorMask h @ xorMask r) ! i"
  proof (cases "i < 16")
    case True
    then show ?thesis using assms i by (simp add: xorMask_nth nth_append)
  next
    case False
    then obtain j where "i = 16 + j" by (metis le_iff_add not_less)
    then show ?thesis using assms i by (simp add: xorMask_nth nth_append)
  qed
qed simp

lemma EncodePayload_block:
  assumes "length h = 16"
  shows "EncodePayload (h @ r) = applyBits (xorMask h) fwdPermBits @ EncodePayload r"
  using assms by (simp add: EncodePayload_def TransCode_def xorMask_block transcode_append_block)

lemma wire_type_bit:
  assumes "length h = 16" "k < 16"
  shows "getbit (take 2 (EncodePayload (h @ r))) k = getbit (xorMask h) (revPermBits ! k)"
proof -
  have p: "perm_pair (length (xorMask h) * 8) fwdPermBits revPermBits"
    using block_tables_perm assms(1) by simp
  have "k div 8 < 2" using assms(2) by auto
  moreover have "length (applyBits (xorMask h) fwdPermBits) = 16" using assms(1) by simp
  ultimately have "getbit (take 2 (EncodePayload (h @ r))) k = getbit (applyBits (xorMask h) fwdPermBits) k"
    unfolding EncodePayload_block [OF assms(1)] by (simp add: getbit_def)
  also have "\<dots> = getbit (xorMask h) (revPermBits ! k)"
    using assms by (intro getbit_applyBits_pair [OF p]) simp
  finally show ?thesis .
qed

definition type_ok :: "byte \<Rightarrow> byte \<Rightarrow> byte \<Rightarrow> byte \<Rightarrow> bytes \<Rightarrow> bool" where
  "type_ok a b c d w \<longleftrightarrow> list_all (\<lambda>k. let j = revPermBits ! k in
     bit ((if j div 8 = 8 then a else if j div 8 = 9 then b else if j div 8 = 10 then c else d)
       XOR controlMask ! (j div 8)) (j mod 8) = getbit w k) [0..<16]"

lemma wire_type:
  assumes "length h = 16" "type_ok (h ! 8) (h ! 9) (h ! 10) (h ! 11) w" "length w = 2"
  shows "take 2 (EncodePayload (h @ r)) = w"
proof (rule bytes_eq_getbitI)
  show "length (take 2 (EncodePayload (h @ r))) = length w"
    using assms by (simp add: cp.length_enc)
  fix k assume "k < length (take 2 (EncodePayload (h @ r))) * 8"
  then have k: "k < 16" using assms(1) by (simp add: cp.length_enc)
  define j where "j = revPermBits ! k"
  have j: "j div 8 = 8 \<or> j div 8 = 9 \<or> j div 8 = 10 \<or> j div 8 = 11"
    using type_bits_source k by (auto simp: list_all_iff j_def)
  have "getbit (take 2 (EncodePayload (h @ r))) k = bit (xorMask h ! (j div 8)) (j mod 8)"
    using wire_type_bit [OF assms(1) k, of r] by (simp add: getbit_def j_def)
  also have "\<dots> = getbit w k"
  proof -
    have "bit ((if j div 8 = 8 then h ! 8 else if j div 8 = 9 then h ! 9 else if j div 8 = 10 then h ! 10 else h ! 11)
        XOR controlMask ! (j div 8)) (j mod 8) = getbit w k"
      unfolding j_def
      by (rule bspec [OF assms(2) [unfolded type_ok_def list_all_iff Let_def]]) (use k in simp)
    then show ?thesis using j assms(1) by (auto simp: xorMask_nth)
  qed
  finally show "getbit (take 2 (EncodePayload (h @ r))) k = getbit w k" .
qed

text \<open>The session packets, and the data packets in the device's direction.\<close>

lemma direct_types: "type_ok 1 4 0x33 0 [0x4e, 0x6d]" "type_ok 2 4 0x33 0 [0x4e, 0x6d]"
    "type_ok 4 4 0x33 0 [0x4e, 0x6d]"
  by code_simp+

lemma device_data_type: "type_ok 7 4 0x12 0 [0x4e, 0x6f]"
  by code_simp

lemma take_drop_EncodePayloadData: "take 2 (EncodePayloadData b) = take 2 (EncodePayload (take 64 b))"
  using arg_cong [OF EncodePayloadData_head [of b], of "take 2"] by (simp add: dataTransLimit_def)

section \<open>Properties\<close>

lemma length_bump0 [simp]: "length (bump0 b) = length b"
  by (simp add: bump0_def)

lemma directPacket_split:
  assumes "length (dp_Token p) = 8"
  shows "\<exists>h r. directPacket_bytes p = h @ r \<and> length h = 16 \<and> h ! 8 = dp_State p \<and> h ! 9 = 4 \<and> h ! 10 = 0x33 \<and> h ! 11 = 0"
  using directPacket_layout [of p] assms
  by (intro exI [of _ "[0x04, 0x02, 0x1d, 0x02, 36, 0, 0, 0, dp_State p, 0x04, 0x33, 0, 0, 0, 0, 0]"]
      exI [of _ "slot 20 (dp_UID p) @ dp_Token p @ [0, 0, 0, 0] @ unknownDirectTrailer"])
    (simp add: wf_directPacket_def)

lemma buildDirect_wire:
  assumes "state \<in> {1, 2, 4}" "length token = 8"
  shows "take 2 (buildDirect state token uid) = [0x4e, 0x6d] \<and> length (buildDirect state token uid) = 52 \<and>
     deviceState (buildDirect state token uid) = state \<and>
     take 8 (drop 36 (DecodePayload (buildDirect state token uid))) =
       (if state = 4 then token[0 := token ! 0 + 1] else token)"
proof -
  define p where "p = \<lparr>dp_State = state, dp_UID = uid, dp_Token = if state = 4 then bump0 token else token\<rparr>"
  have b: "buildDirect state token uid = EncodePayload (directPacket_bytes p)"
    using assms(2) by (simp add: buildDirect_def p_def deviceConnState_def)
  have wf: "wf_directPacket p" using assms(2) by (simp add: wf_directPacket_def p_def)
  obtain h r where h: "directPacket_bytes p = h @ r" "length h = 16" "h ! 8 = state" "h ! 9 = 4" "h ! 10 = 0x33" "h ! 11 = 0"
    using directPacket_split [of p] wf by (auto simp: wf_directPacket_def p_def)
  have "type_ok (h ! 8) (h ! 9) (h ! 10) (h ! 11) [0x4e, 0x6d]"
    using assms(1) direct_types h by auto
  then have ty: "take 2 (buildDirect state token uid) = [0x4e, 0x6d]"
    unfolding b h(1) by (intro wire_type h(2)) simp_all
  have len: "length (directPacket_bytes p) = 52" by (rule length_directPacket [OF wf])
  have "directPacket_bytes p ! 8 = state" using h by (simp add: nth_append)
  moreover have "take 8 (drop 36 (directPacket_bytes p)) = dp_Token p"
    using directPacket_layout [OF wf] wf by (simp add: wf_directPacket_def)
  ultimately show ?thesis
    using ty len by (simp add: b deviceState_def cp.dec_enc cp.length_enc directStateOff_def Let_def p_def bump0_def)
qed

text \<open>
  The session packets of the three client states are recognisable and carry their state: each is 52
  bytes long, starts on the wire with the type bytes 4e 6d by which the receivers recognise it,
  and decodes to its state byte and to the token, whose first byte is incremented in state 04 only.
\<close>

theorem session_packets_recognised:
  assumes "state \<in> {1, 2, 4}" "length token = 8"
  shows "take 2 (buildDirect state token uid) = [0x4e, 0x6d] \<and> length (buildDirect state token uid) = 52 \<and>
     deviceState (buildDirect state token uid) = state \<and>
     take 8 (drop 36 (DecodePayload (buildDirect state token uid))) =
       (if state = 4 then token[0 := token ! 0 + 1] else token)"
  by (rule buildDirect_wire [OF assms])

theorem session_packets_recognised_witness:
  "take 2 (buildDirect 4 [1, 2, 3, 4, 5, 6, 7, 8] [65]) = [0x4e, 0x6d] \<and> deviceState (buildDirect 4 [1, 2, 3, 4, 5, 6, 7, 8] [65]) = 4"
  using session_packets_recognised [of 4 "[1, 2, 3, 4, 5, 6, 7, 8]" "[65]"] by simp

text \<open>
  C23. A DTLS record written with \<open>WriteTo\<close> is recovered by the receiver: stripping the obfuscation of the
  datagram and the 28 header bytes gives the record, unchanged except that the version of a
  ClientHello becomes fe ff; the header carries the length of what follows and the session's
  sequence number, which advances by one per successful write and not at all on a failed one.
\<close>

theorem write_recovered:
  assumes "length (s_token s) = 8" "length b < 65000"
  shows "drop 28 (DecodePayloadData (data_packet s b)) = (if isClientHello b then b[2 := 0xff] else b) \<and>
     unat (le_word (take 2 (drop 4 (DecodePayloadData (data_packet s b)))) :: u16) = length (data_packet s b) - 16 \<and>
     le_word (take 2 (drop 6 (DecodePayloadData (data_packet s b)))) = s_txSeq s \<and>
     s_out (fst (WriteTo True b s)) = s_out s @ [(data_packet s b, s_dev s)] \<and>
     s_txSeq (fst (WriteTo True b s)) = s_txSeq s + 1 \<and> WriteTo False b s = (s, None)"
proof -
  define c where "c = (if isClientHello b then b[2 := 0xff] else b)"
  define rdt where "rdt = BuildRDT 0x0000000c (s_token s) c"
  define hdr where "hdr = [0x04, 0x02, 0x1d, 0x0b] @ le_bytes 2 (word_of_nat (length rdt) :: u16) @ le_bytes 2 (s_txSeq s)
      @ [0x07, 0x04, 0x21, 0x00, s_token s ! 0, s_token s ! 1, 0x00, 0x01]"
  have d: "data_packet s b = EncodePayloadData (hdr @ rdt)"
    by (simp add: data_packet_def hdr_def rdt_def c_def Let_def)
  have l: "length c = length b" "length rdt = 12 + length b" "length hdr = 16"
    by (simp_all add: c_def rdt_def hdr_def length_BuildRDT RDTHeaderLen_def)
  have dec: "DecodePayloadData (data_packet s b) = hdr @ rdt" by (simp add: d dp.dec_enc)
  have "drop 28 (hdr @ rdt) = drop 12 rdt" using l(3) by simp
  also have "\<dots> = c" using drop_BuildRDT [of "0xc" "s_token s" c] by (simp add: rdt_def RDTHeaderLen_def)
  finally have "drop 28 (hdr @ rdt) = c" .
  moreover have "take 2 (drop 4 (hdr @ rdt)) = le_bytes 2 (word_of_nat (length rdt) :: u16)"
    "take 2 (drop 6 (hdr @ rdt)) = le_bytes 2 (s_txSeq s)"
    by (simp_all add: hdr_def)
  moreover have "length (data_packet s b) - 16 = length rdt" using l by (simp add: d dp.length_enc)
  ultimately show ?thesis
    using assms(2) l(2) unfolding dec c_def [symmetric]
    by (simp add: WriteTo_def emit_def del: drop_append take_append of_nat_add)
qed

definition demo_session :: Session where
  "demo_session = \<lparr>s_dev = \<lparr>ua_IP = [9, 9, 9, 9], ua_Port = 5\<rparr>, s_master = None, s_token = [1, 2, 3, 4, 5, 6, 7, 8],
     s_stopped = False, s_txSeq = 0, s_knockPkt = [], s_directPkt = [1], s_directPkt2 = [2], s_directPkt4 = [4],
     s_preWire = [], s_preAddrs = [], s_relayChans = [], s_relaySetup = [], s_stunWire = [], s_stunAddrs = [],
     s_kaTick = 0, s_coordUID = [], s_coordLocalIP = [], s_coordReflIP = [], s_coordLocalPort = 0,
     s_coordReflPort = 0, s_coordSeen = 0, s_rdtVal = [], s_lastRxNano = 0, s_pcOpen = True, s_out = []\<rparr>"

theorem write_recovered_witness:
  "drop 28 (DecodePayloadData (data_packet demo_session [0x17, 0xfe, 0xfd])) = [0x17, 0xfe, 0xfd]"
  using write_recovered [of demo_session "[0x17, 0xfe, 0xfd]"] by (simp add: demo_session_def isClientHello_def)

text \<open>What \<open>ReadFrom\<close> accepts.\<close>

definition is_data_from :: "UDPAddr \<Rightarrow> bytes \<times> UDPAddr \<times> int \<Rightarrow> bool" where
  "is_data_from dev x = (case x of (pkt, from, now) \<Rightarrow>
     ua_Port from \<noteq> 3478 \<and> sameHost from dev \<and> length pkt > 28 \<and> take 2 pkt = [0x4e, 0x6f] \<and>
     take 2 (DecodePayloadData pkt) = [0x04, 0x02])"

lemma take2_eq: "length x \<ge> 2 \<Longrightarrow> take 2 x = [a, b] \<longleftrightarrow> x ! 0 = a \<and> x ! 1 = b"
  by (cases x rule: list.exhaust; cases "tl x" rule: list.exhaust) (auto simp: numeral_2_eq_2)

lemma handleRelay_keeps [simp]: "s_dev (handleRelay0103 pkt from s) = s_dev s"
  "s_pcOpen (handleRelay0103 pkt from s) = s_pcOpen s" "s_stopped (handleRelay0103 pkt from s) = s_stopped s"
  by (auto simp: handleRelay0103_def emit_def Let_def split: option.splits)

definition scan_ok :: "UDPAddr \<Rightarrow> nat \<Rightarrow> (bytes \<times> UDPAddr \<times> int) list \<Rightarrow>
    bytes option \<times> (bytes \<times> UDPAddr \<times> int) list \<Rightarrow> bool" where
  "scan_ok dev n ins res = (case res of (r, rest) \<Rightarrow>
     (case r of None \<Rightarrow> \<forall>x\<in>set ins. \<not> is_data_from dev x
      | Some d \<Rightarrow> \<exists>pre x. ins = pre @ x # rest \<and> (\<forall>y\<in>set pre. \<not> is_data_from dev y) \<and>
          is_data_from dev x \<and> d = take n (drop 28 (DecodePayloadData (fst x)))))"

lemma scan_skip:
  assumes "\<not> is_data_from dev x" "scan_ok dev n ins res"
  shows "scan_ok dev n (x # ins) res"
proof (cases res)
  case (Pair r rest)
  show ?thesis
  proof (cases r)
    case None
    then show ?thesis using assms Pair by (simp add: scan_ok_def)
  next
    case (Some d)
    then obtain pre y where "ins = pre @ y # rest" "\<forall>z\<in>set pre. \<not> is_data_from dev z" "is_data_from dev y"
      "d = take n (drop 28 (DecodePayloadData (fst y)))"
      using assms(2) Pair by (auto simp: scan_ok_def)
    then show ?thesis
      using assms(1) unfolding Pair Some scan_ok_def prod.case option.case
      by (intro exI [of _ "x # pre"] exI [of _ y]) simp
  qed
qed

lemma scan_hit: "is_data_from dev x \<Longrightarrow> scan_ok dev n (x # ins) (Some (take n (drop 28 (DecodePayloadData (fst x)))), ins)"
  unfolding scan_ok_def prod.case option.case by (intro exI [of _ "[]"] exI [of _ x]) simp

lemma ReadFrom_step:
  "\<exists>u. s_dev u = s_dev s \<and> s_pcOpen u = s_pcOpen s \<and> s_stopped u = s_stopped s \<and> ReadFrom n (x # ins) s =
     (if is_data_from (s_dev s) x then (u, Some (take n (drop 28 (DecodePayloadData (fst x)))), ins) else ReadFrom n ins u)"
proof -
  obtain pkt fr now where x: "x = (pkt, fr, now)" by (cases x)
  define s1 where "s1 = (if sameHost fr (s_dev s) then s\<lparr>s_lastRxNano := now\<rparr> else s)"
  have dev: "s_dev s1 = s_dev s" and keep: "s_pcOpen s1 = s_pcOpen s" "s_stopped s1 = s_stopped s"
    by (simp_all add: s1_def)
  have acc: "is_data_from (s_dev s) x \<longleftrightarrow> ua_Port fr \<noteq> 3478 \<and> sameHost fr (s_dev s) \<and>
      length pkt > 28 \<and> pkt ! 0 = 0x4e \<and> pkt ! 1 = 0x6f \<and> DecodePayloadData pkt ! 0 = 0x04 \<and> DecodePayloadData pkt ! 1 = 0x02"
    by (auto simp: x is_data_from_def take2_eq dp.length_dec)
  have "ReadFrom n (x # ins) s = (if is_data_from (s_dev s) x
      then (s1, Some (take n (drop 28 (DecodePayloadData pkt))), ins)
      else ReadFrom n ins (if ua_Port fr = 3478 then handleRelay0103 pkt fr s1 else s1))"
    unfolding x ReadFrom.simps Let_def s1_def [symmetric] dev acc [unfolded x] by (auto simp: dp.length_dec)
  then show ?thesis
    using dev keep by (intro exI [of _ "if is_data_from (s_dev s) x then s1
        else if ua_Port fr = 3478 then handleRelay0103 pkt fr s1 else s1"]) (simp add: x)
qed

lemma ReadFrom_scan: "scan_ok (s_dev s) n ins (snd (ReadFrom n ins s))"
proof (induction ins arbitrary: s)
  case Nil
  then show ?case by (simp add: scan_ok_def)
next
  case (Cons x ins)
  obtain u where u: "s_dev u = s_dev s" "ReadFrom n (x # ins) s =
     (if is_data_from (s_dev s) x then (u, Some (take n (drop 28 (DecodePayloadData (fst x)))), ins) else ReadFrom n ins u)"
    using ReadFrom_step by blast
  then show ?case
    using scan_hit [of "s_dev s" x n ins] scan_skip [of "s_dev s" x n ins "snd (ReadFrom n ins u)"] Cons [of u] by simp
qed

text \<open>
  C22. \<open>ReadFrom\<close> returns the DTLS bytes of the first datagram that comes from the device's host, has
  the data type 4e 6f on the wire, is longer than the headers and decodes to an IOTC data packet;
  it skips everything else, takes nothing from a relay or another host, and reports failure only when
  no such datagram arrived.
\<close>

theorem read_first_data_packet:
  assumes "ReadFrom n ins s = (s', r, rest)"
  shows "case r of None \<Rightarrow> (\<forall>x\<in>set ins. \<not> is_data_from (s_dev s) x)
      | Some d \<Rightarrow> \<exists>pre x. ins = pre @ x # rest \<and> (\<forall>y\<in>set pre. \<not> is_data_from (s_dev s) y) \<and>
          is_data_from (s_dev s) x \<and> d = take n (drop 28 (DecodePayloadData (fst x)))"
  using ReadFrom_scan [of s n ins] assms by (simp add: scan_ok_def)

theorem read_first_data_packet_witness:
  "ReadFrom 9 [([1, 2], \<lparr>ua_IP = [9, 9, 9, 9], ua_Port = 5\<rparr>, 3)] demo_session = (demo_session\<lparr>s_lastRxNano := 3\<rparr>, None, []) \<and>
     \<not> is_data_from (s_dev demo_session) ([1, 2], \<lparr>ua_IP = [9, 9, 9, 9], ua_Port = 5\<rparr>, 3)"
proof -
  have "ReadFrom 9 [([1, 2], \<lparr>ua_IP = [9, 9, 9, 9], ua_Port = 5\<rparr>, 3)] demo_session = (demo_session\<lparr>s_lastRxNano := 3\<rparr>, None, [])"
    by (simp add: demo_session_def sameHost_def)
  from read_first_data_packet [OF this] this show ?thesis by simp
qed

text \<open>
  A relayed 0103 is answered and nothing else changes: if the datagram decodes to a 0103 and the
  coordination identity is known, exactly one datagram goes back to the sender, and it decodes to
  a 0408 with the 0103's token.
\<close>

theorem relay_0103_answered:
  assumes "length pkt \<ge> 10" "pkt ! 0 \<noteq> 0x51" "s_coordUID s \<noteq> []"
    "length pkt \<ge> 44" "DecodePayload pkt ! 8 = 0x01" "DecodePayload pkt ! 9 = 0x03"
  shows "\<exists>ans. handleRelay0103 pkt from s =
       s\<lparr>s_coordSeen := s_coordSeen s + 1, s_out := s_out s @ [(ans, from)]\<rparr> \<and> length ans = 544 \<and>
     take 8 (drop 68 (DecodePayload ans)) = take 8 (drop (length pkt - 16) (DecodePayload pkt))"
proof -
  have "Parse0103 (DecodePayload pkt) \<noteq> None"
    using assms by (simp add: Parse0103_def cp.length_dec)
  then obtain c where c: "Parse0103 (DecodePayload pkt) = Some c" by blast
  have t: "take 8 (drop 68 (Build0408 uid (Some c) a b d e)) = take 8 (drop (length pkt - 16) (DecodePayload pkt))"
    "length (Build0408 uid (Some c) a b d e) = 544" for uid a b d e
    using Build0408_echo [OF c, of uid a b d e] by (simp_all add: cp.length_dec)
  let ?ans = "EncodePayload (Build0408 (s_coordUID s) (Some c) (s_coordLocalIP s) (s_coordLocalPort s)
    (s_coordReflIP s) (s_coordReflPort s))"
  have "handleRelay0103 pkt from s = emit [(?ans, from)] (s\<lparr>s_coordSeen := s_coordSeen s + 1\<rparr>)"
    using assms c by (simp add: handleRelay0103_def cp.length_dec)
  then have "handleRelay0103 pkt from s = s\<lparr>s_coordSeen := s_coordSeen s + 1, s_out := s_out s @ [(?ans, from)]\<rparr>"
    by (simp add: emit_def)
  moreover have "length ?ans = 544" "take 8 (drop 68 (DecodePayload ?ans)) = take 8 (drop (length pkt - 16) (DecodePayload pkt))"
    by (simp_all add: t cp.length_enc cp.dec_enc)
  ultimately show ?thesis by blast
qed

theorem relay_0103_answered_witness:
  "\<exists>ans. handleRelay0103 (EncodePayload demo_0103) \<lparr>ua_IP = [8, 8, 8, 8], ua_Port = 3478\<rparr> (demo_session\<lparr>s_coordUID := [65]\<rparr>) =
     demo_session\<lparr>s_coordUID := [65], s_coordSeen := 1, s_out := [(ans, \<lparr>ua_IP = [8, 8, 8, 8], ua_Port = 3478\<rparr>)]\<rparr>"
proof -
  have "length demo_0103 = 60" "demo_0103 ! 8 = 1" "demo_0103 ! 9 = 3" by (simp_all add: demo_0103_def nth_append)
  moreover have "EncodePayload demo_0103 ! 0 \<noteq> 0x51"
  proof -
    have "type_ok 1 3 0 0 [0x7e, 0x0e]" by code_simp
    then have "take 2 (EncodePayload (take 16 demo_0103 @ drop 16 demo_0103)) = [0x7e, 0x0e]"
      by (intro wire_type) (simp_all add: demo_0103_def nth_append)
    then have "hd (take 2 (EncodePayload demo_0103)) = 0x7e" by simp
    then show ?thesis by (simp add: hd_take hd_conv_nth cp.length_enc demo_0103_def flip: length_greater_0_conv)
  qed
  ultimately show ?thesis
    using relay_0103_answered [of "EncodePayload demo_0103" "demo_session\<lparr>s_coordUID := [65]\<rparr>"
        "\<lparr>ua_IP = [8, 8, 8, 8], ua_Port = 3478\<rparr>"]
    by (auto simp: cp.dec_enc cp.length_enc demo_session_def)
qed

end
