(* ===== verification/Keepalive.thy ===== *)
theory Keepalive
  imports Session "HOL-Library.Sublist" "HOL-Library.Multiset"
begin

text \<open>
  The keepalive goroutine of \<open>kalay/session.go\<close> over time: \<open>keepalive_tick\<close> of theory \<open>Session\<close> on every tick of
  the 150 ms ticker until \<open>stopKA\<close> is closed.
\<close>

datatype ka_event = KaTick | KaStop

fun keepalive :: "gcm_seal \<Rightarrow> ka_event list \<Rightarrow> Session \<Rightarrow> Session" where
  "keepalive sl [] s = s"
| "keepalive sl (KaStop # es) s = s"
| "keepalive sl (KaTick # es) s = keepalive sl es (keepalive_tick sl s)"

section \<open>One tick\<close>

lemma send_all_seq: "rc_seq (fst (send_all sl c ms)) = rc_seq c + word_of_nat (length ms)"
  by (induction sl c ms rule: send_all.induct)
    (auto simp: Send0204_def Let_def split: prod.splits)

lemma refresh_chans_seq:
  "map rc_seq (fst (refresh_chans sl ms cs)) = map (\<lambda>c. rc_seq c + word_of_nat (length ms)) cs"
proof (induction cs)
  case (Cons c cs)
  then show ?case using send_all_seq [of sl c ms] by (auto simp: split: prod.splits)
qed simp

definition refreshes :: "nat \<Rightarrow> nat \<Rightarrow> nat" where
  "refreshes k n = (k + n) div 7 - k div 7"

text \<open>What a tick leaves alone.\<close>

definition same_packets :: "Session \<Rightarrow> Session \<Rightarrow> bool" where
  "same_packets s t \<longleftrightarrow> s_directPkt t = s_directPkt s \<and> s_directPkt2 t = s_directPkt2 s \<and> s_directPkt4 t = s_directPkt4 s \<and>
     s_dev t = s_dev s \<and> s_relaySetup t = s_relaySetup s \<and> s_stopped t = s_stopped s"

lemma tick_facts:
  assumes "\<not> s_stopped s"
  shows "same_packets s (keepalive_tick sl s)" "s_kaTick (keepalive_tick sl s) = s_kaTick s + 1"
    "map rc_seq (s_relayChans (keepalive_tick sl s)) =
       map (\<lambda>c. rc_seq c + word_of_nat (refreshes (s_kaTick s) 1 * length (s_relaySetup s))) (s_relayChans s)"
    "\<exists>rest. s_out (keepalive_tick sl s) = s_out s @ (ka_packet (s\<lparr>s_kaTick := s_kaTick s + 1\<rparr>), s_dev s) # rest"
proof -
  show "same_packets s (keepalive_tick sl s)" "s_kaTick (keepalive_tick sl s) = s_kaTick s + 1"
    using assms by (auto simp: keepalive_tick_def same_packets_def emit_def Let_def split: option.splits prod.splits)
  have "refreshes (s_kaTick s) 1 = (if Suc (s_kaTick s) mod 7 = 0 then 1 else 0)"
    by (simp add: refreshes_def div_Suc)
  then show "map rc_seq (s_relayChans (keepalive_tick sl s)) =
       map (\<lambda>c. rc_seq c + word_of_nat (refreshes (s_kaTick s) 1 * length (s_relaySetup s))) (s_relayChans s)"
    using assms refresh_chans_seq [of sl "s_relaySetup s" "s_relayChans s"]
    by (auto simp: keepalive_tick_def emit_def Let_def split: option.splits prod.splits)
  show "\<exists>rest. s_out (keepalive_tick sl s) = s_out s @ (ka_packet (s\<lparr>s_kaTick := s_kaTick s + 1\<rparr>), s_dev s) # rest"
    using assms by (auto simp: keepalive_tick_def emit_def Let_def split: option.splits prod.splits)
qed

text \<open>The keepalive packets of \<open>n\<close> ticks after tick number \<open>k\<close>.\<close>

definition ka_packets :: "Session \<Rightarrow> nat \<Rightarrow> nat \<Rightarrow> bytes list" where
  "ka_packets s k n = map (\<lambda>i. ka_packet (s\<lparr>s_kaTick := i\<rparr>)) [Suc k..<Suc k + n]"

lemma ka_packet_same: "same_packets s t \<Longrightarrow> ka_packet (t\<lparr>s_kaTick := i\<rparr>) = ka_packet (s\<lparr>s_kaTick := i\<rparr>)"
  by (simp add: ka_packet_def same_packets_def Let_def)

lemma refreshes_Suc: "refreshes (k + 1) n + refreshes k 1 = refreshes k (Suc n)"
  unfolding refreshes_def using div_le_mono [of k "Suc k" 7] div_le_mono [of "Suc k" "Suc k + n" 7] by simp

lemma tick_seqs:
  assumes s: "\<not> s_stopped s"
    and t: "map rc_seq (s_relayChans t) = map (\<lambda>c. rc_seq c + word_of_nat (refreshes (s_kaTick s + 1) n * m))
      (s_relayChans (keepalive_tick sl s))"
    and m: "m = length (s_relaySetup s)"
  shows "map rc_seq (s_relayChans t) = map (\<lambda>c. rc_seq c + word_of_nat (refreshes (s_kaTick s) (Suc n) * m)) (s_relayChans s)"
proof -
  let ?A = "\<lambda>x :: u32. x + word_of_nat (refreshes (s_kaTick s + 1) n * m)"
  have "word_of_nat (refreshes (s_kaTick s) 1 * m) + word_of_nat (refreshes (s_kaTick s + 1) n * m) =
      (word_of_nat (refreshes (s_kaTick s) (Suc n) * m) :: u32)"
    by (metis add.commute add_mult_distrib of_nat_add refreshes_Suc)
  then have c: "?A \<circ> (\<lambda>c. rc_seq c + word_of_nat (refreshes (s_kaTick s) 1 * m)) =
      (\<lambda>c. rc_seq c + word_of_nat (refreshes (s_kaTick s) (Suc n) * m))"
    by (auto simp: fun_eq_iff add.assoc)
  have "map rc_seq (s_relayChans t) = map ?A (map rc_seq (s_relayChans (keepalive_tick sl s)))"
    using t by (simp add: comp_def)
  then show ?thesis unfolding tick_facts(3) [OF s] m [symmetric] map_map c .
qed

lemma keepalive_run:
  assumes "\<not> s_stopped s"
  shows "let t = keepalive sl (replicate n KaTick) s
    in same_packets s t \<and> s_kaTick t = s_kaTick s + n \<and>
       map rc_seq (s_relayChans t) =
         map (\<lambda>c. rc_seq c + word_of_nat (refreshes (s_kaTick s) n * length (s_relaySetup s))) (s_relayChans s) \<and>
       (\<exists>out. s_out t = s_out s @ out \<and> subseq (map (\<lambda>p. (p, s_dev s)) (ka_packets s (s_kaTick s) n)) out)"
  using assms
proof (induction n arbitrary: s)
  case 0
  show ?case by (simp add: same_packets_def refreshes_def ka_packets_def)
next
  case (Suc n)
  let ?u = "keepalive_tick sl s" and ?k = "s_kaTick s"
  define t where "t = keepalive sl (replicate n KaTick) ?u"
  note f = tick_facts [OF Suc.prems, of sl]
  have "\<not> s_stopped ?u" using f(1) Suc.prems by (simp add: same_packets_def)
  note IH = Suc.IH [OF this, folded t_def, unfolded Let_def]
  have sp: "same_packets s t" using f(1) IH by (auto simp: same_packets_def)
  have kt: "s_kaTick t = ?k + Suc n" using f(2) IH by simp
  have "s_relaySetup ?u = s_relaySetup s" using f(1) by (simp add: same_packets_def)
  then have sq: "map rc_seq (s_relayChans t) =
      map (\<lambda>c. rc_seq c + word_of_nat (refreshes ?k (Suc n) * length (s_relaySetup s))) (s_relayChans s)"
    using IH f(2) by (intro tick_seqs [OF Suc.prems _ refl]) simp
  obtain rest where o1: "s_out ?u = s_out s @ (ka_packet (s\<lparr>s_kaTick := ?k + 1\<rparr>), s_dev s) # rest" using f(4) by blast
  obtain out where o2: "s_out t = s_out ?u @ out"
    "subseq (map (\<lambda>p. (p, s_dev ?u)) (ka_packets ?u (s_kaTick ?u) n)) out" using IH by blast
  have "ka_packets s ?k (Suc n) = ka_packet (s\<lparr>s_kaTick := ?k + 1\<rparr>) # ka_packets ?u (s_kaTick ?u) n"
    unfolding ka_packets_def f(2) ka_packet_same [OF f(1)] by (simp add: upt_conv_Cons del: upt_Suc)
  moreover have "s_dev ?u = s_dev s" using f(1) by (simp add: same_packets_def)
  ultimately have "subseq (map (\<lambda>p. (p, s_dev s)) (ka_packets s ?k (Suc n)))
      ((ka_packet (s\<lparr>s_kaTick := ?k + 1\<rparr>), s_dev s) # rest @ out)"
    using o2(2) by (simp add: list_emb_append2)
  then have "\<exists>out. s_out t = s_out s @ out \<and> subseq (map (\<lambda>p. (p, s_dev s)) (ka_packets s ?k (Suc n))) out"
    using o1 o2(1) by auto
  then show ?case using sp kt sq by (simp add: t_def)
qed

lemma ka_packets_five:
  assumes "s_directPkt4 s \<noteq> []" "s_directPkt2 s \<noteq> []"
  shows "mset (ka_packets s k 5) =
    {#s_directPkt4 s, s_directPkt4 s, s_directPkt4 s, s_directPkt s, s_directPkt2 s#}"
proof -
  define pk where "pk i = (if i mod 5 = 0 then s_directPkt2 s else if i mod 5 = 2 then s_directPkt s else s_directPkt4 s)" for i :: nat
  have "ka_packet (s\<lparr>s_kaTick := i\<rparr>) = pk i" for i
    using assms by (simp add: ka_packet_def pk_def Let_def)
  moreover have "[Suc k..<Suc k + 5] = [k + 1, k + 2, k + 3, k + 4, k + 5]"
    by (simp add: upt_conv_Cons del: upt_Suc)
  ultimately have e: "ka_packets s k 5 = [pk (k + 1), pk (k + 2), pk (k + 3), pk (k + 4), pk (k + 5)]"
    by (simp add: ka_packets_def)
  have "k mod 5 = 0 \<or> k mod 5 = 1 \<or> k mod 5 = 2 \<or> k mod 5 = 3 \<or> k mod 5 = 4" by presburger
  moreover have m: "(k + c) mod 5 = (k mod 5 + c) mod 5" for c by presburger
  ultimately show ?thesis
    unfolding e pk_def m [of 1] m [of 2] m [of 3] m [of 4] m [of 5]
    by (elim disjE; simp only: mset.simps) (simp_all add: add_mset_commute)
qed

section \<open>Properties\<close>

text \<open>
  The cadence of the keepalive. In any five consecutive ticks the device gets the state-04 packet three times and
  the state-01 and state-02 packets once each, in sequence; every seventh tick, and no other, resends the
  relay set-up on every relay channel, so that after any number of ticks a channel's sequence number has advanced by
  exactly the set-up messages of those refreshes, wrapping at 32 bits; and nothing happens after the stop.
\<close>

theorem keepalive_cadence:
  assumes "\<not> s_stopped s" "s_directPkt4 s \<noteq> []" "s_directPkt2 s \<noteq> []"
  shows "let t = keepalive sl (replicate n KaTick @ KaStop # es) s; k = s_kaTick s
    in (\<exists>out. s_out t = s_out s @ out \<and> subseq (map (\<lambda>p. (p, s_dev s)) (ka_packets s k n)) out) \<and>
       (\<forall>i. mset (ka_packets s i 5) =
          {#s_directPkt4 s, s_directPkt4 s, s_directPkt4 s, s_directPkt s, s_directPkt2 s#}) \<and>
       map rc_seq (s_relayChans t) =
         map (\<lambda>c. rc_seq c + word_of_nat (((k + n) div 7 - k div 7) * length (s_relaySetup s))) (s_relayChans s)"
proof -
  have "keepalive sl (replicate n KaTick @ KaStop # es) u = keepalive sl (replicate n KaTick) u" for u
    by (induction n arbitrary: u) simp_all
  then show ?thesis
    using keepalive_run [OF assms(1), of sl n] ka_packets_five [OF assms(2,3)] by (simp add: Let_def refreshes_def)
qed

end
