(* ===== verification/Dial.thy ===== *)
theory Dial
  imports Session
begin

unbundle bit_operations_syntax

text \<open>
  \<open>Dial\<close> of \<open>kalay/session.go\<close>: rendezvous, relay coordination, hole punch, the session state
  machine and the RDT handshake, over the socket of theory \<open>Socket\<close>. Each phase is the body of its
  loop, run by \<open>round_loop\<close>; \<open>Dial\<close> composes them with their deadlines and error returns.

  \<^item> What \<open>Dial\<close> gets from outside are arguments: the resolved master, the RSA key, the GCM of the Go
    library, and the record \<open>dial_env\<close> (random bytes, the key agreements, the local addresses
    and the order in which Go iterates over the candidate map).
  \<^item> The candidate map is keyed by the printed address of a resolved IPv4 record, which determines
    the address; \<open>d_candSet\<close> lists the keys.
  \<^item> The read buffer of the main loops has 4096 bytes, that of the STUN loop 1024: longer datagrams
    are cut. The progress messages are left out.
\<close>

section \<open>State\<close>

record DeviceIdentity =
  di_UID :: bytes
  di_Sn :: bytes
  di_ConID :: bytes
  di_AuthKey :: bytes

definition authMasters :: "UDPAddr list" where
  "authMasters =
     [\<lparr>ua_IP = IPv4 139 162 174 232, ua_Port = 10240\<rparr>, \<lparr>ua_IP = IPv4 47 107 189 8, ua_Port = 10240\<rparr>,
      \<lparr>ua_IP = IPv4 34 131 220 207, ua_Port = 10240\<rparr>, \<lparr>ua_IP = IPv4 34 80 133 17, ua_Port = 10240\<rparr>,
      \<lparr>ua_IP = IPv4 45 79 40 130, ua_Port = 10240\<rparr>]"

text \<open>The variables of \<open>Dial\<close>, on top of the socket.\<close>

record dial = sock +
  d_lastPre :: int
  d_lastKnock :: int
  d_preReply :: "bytes option"
  d_candSet :: "UDPAddr list"
  d_cands :: "UDPAddr list"
  d_coordSeen :: nat
  d_coordUID :: bytes
  d_coordLocalIP :: ip
  d_coordReflIP :: ip
  d_coordLocalPort :: nat
  d_coordReflPort :: nat
  d_relayChans :: "RelayChannel list"
  d_relaySetup :: "bytes list"
  d_stunWire :: bytes
  d_stunAddrs :: "UDPAddr list"

text \<open>
  What is fixed once the packets are built. \<open>dc_masterHost\<close> is the host part of the master argument
  when it is an IPv4 literal.
\<close>

record dial_cfg =
  dc_master :: UDPAddr
  dc_masterHost :: "ip option"
  dc_token :: bytes
  dc_knockPkt :: bytes
  dc_direct1 :: bytes
  dc_direct2 :: bytes
  dc_direct4 :: bytes
  dc_preWire :: bytes

record dial_env =
  de_token :: bytes
  de_sid :: bytes
  de_sessKey :: bytes
  de_nonce :: bytes
  de_tok :: bytes
  de_ka :: "nat \<Rightarrow> (bytes \<times> bytes \<times> bytes \<times> bytes) option"
  de_localIPv4 :: ip
  de_localIP :: ip
  de_localPort :: nat
  de_order :: "UDPAddr list \<Rightarrow> UDPAddr list"

datatype dial_error =
    ResolveFailed
  | ListenFailed
  | PrecheckFailed auth_error
  | NoCandidates
  | NoPunchBack
  | NotConnected
  | DialPanic

definition dial_init :: dial where
  "dial_init = \<lparr>sk_out = [], sk_queue = [], sk_now = 0, sk_open = True, d_lastPre = zeroTime, d_lastKnock = zeroTime,
     d_preReply = None, d_candSet = [], d_cands = [], d_coordSeen = 0, d_coordUID = [], d_coordLocalIP = [],
     d_coordReflIP = [], d_coordLocalPort = 0, d_coordReflPort = 0, d_relayChans = [], d_relaySetup = [],
     d_stunWire = [], d_stunAddrs = []\<rparr>"

definition pc_Close :: "dial \<Rightarrow> dial" where "pc_Close d = d\<lparr>sk_open := False\<rparr>"

section \<open>Throttled sends\<close>

definition sendPrecheck :: "dial_cfg \<Rightarrow> int \<Rightarrow> dial \<Rightarrow> dial" where
  "sendPrecheck c now d =
     (if since now (d_lastPre d) < 250 * millisecond then d
      else fold (sk_send now (dc_preWire c)) authMasters (d\<lparr>d_lastPre := now\<rparr>))"

definition sendKnock :: "dial_cfg \<Rightarrow> int \<Rightarrow> dial \<Rightarrow> dial" where
  "sendKnock c now d =
     (if since now (d_lastKnock d) < 250 * millisecond then d
      else sk_send now (dc_knockPkt c) (dc_master c) (d\<lparr>d_lastKnock := now\<rparr>))"

section \<open>Rendezvous\<close>

definition masterIPs :: "dial_cfg \<Rightarrow> ip list" where
  "masterIPs c = [43, 130, 61, 154] # (case dc_masterHost c of Some h \<Rightarrow> [h] | None \<Rightarrow> [])
     @ map (\<lambda>a. To4 (ua_IP a)) authMasters"

definition resolve_record :: "AddrRecord \<Rightarrow> UDPAddr" where
  "resolve_record a = \<lparr>ua_IP = v4InV6Prefix @ IP a, ua_Port = Port a\<rparr>"

definition usable :: "dial_cfg \<Rightarrow> UDPAddr \<Rightarrow> bool" where
  "usable c ua \<longleftrightarrow> ua_Port ua \<noteq> 0 \<and> \<not> IsUnspecified (ua_IP ua) \<and> \<not> IsPrivate (ua_IP ua) \<and>
     To4 (ua_IP ua) \<notin> set (masterIPs c)"

definition add_cand :: "dial_cfg \<Rightarrow> AddrRecord \<Rightarrow> UDPAddr list \<Rightarrow> UDPAddr list" where
  "add_cand c a cs =
     (let ua = resolve_record a
      in if \<not> usable c ua then cs else if ua \<in> set cs then cs else cs @ [ua])"

definition isPreReply :: "bytes \<Rightarrow> bool" where
  "isPreReply w \<longleftrightarrow> length w \<ge> 300 \<and> w ! 0 = 0x51 \<and> w ! 4 = 0x02 \<and> w ! 5 = 0x01"

definition collect_packet :: "dial_cfg \<Rightarrow> bytes \<Rightarrow> dial \<Rightarrow> dial" where
  "collect_packet c w d =
     (let d = (if isPreReply w \<and> d_preReply d = None then d\<lparr>d_preReply := Some w\<rparr> else d);
          dec = DecodePayload w
      in if length dec < 36 \<or> dec ! 0 \<noteq> 0x04 \<or> dec ! 1 \<noteq> 0x02 then d
         else d\<lparr>d_candSet := fold (add_cand c) (ParseAddrRecords (drop 16 dec)) (d_candSet d)\<rparr>)"

definition collect_round :: "dial_cfg \<Rightarrow> int \<Rightarrow> dial \<Rightarrow> dial \<times> unit option" where
  "collect_round c now d =
     (let d = sendKnock c now (sendPrecheck c now d)
      in case sk_queue d of
           [] \<Rightarrow> (d, None)
         | (w, _) # q \<Rightarrow> (collect_packet c (take 4096 w) (d\<lparr>sk_queue := q\<rparr>), None))"

section \<open>Relay coordination\<close>

definition stunDec :: bytes where
  "stunDec = [0x04, 0x02, 0x1d, 0x02, 0x08, 0, 0, 0, 0x03, 0x80, 0x3f, 0x00, 0, 0, 0, 0]
     @ [0xc5, 0xb8, 0xa3, 0x96, 0x05, 0x10, 0xc8, 0x2c]"

definition port_be :: "byte \<Rightarrow> byte \<Rightarrow> nat" where
  "port_be hi lo = push_bit 8 (unat hi) OR unat lo"

definition stun_reply :: "bytes \<Rightarrow> (ip \<times> nat) option" where
  "stun_reply dd =
     (if length dd \<ge> 24 \<and> dd ! 0 = 0x04 \<and> dd ! 8 = 0x04 \<and> dd ! 9 = 0x80
      then Some (IPv4 (dd ! 20) (dd ! 21) (dd ! 22) (dd ! 23), port_be (dd ! 18) (dd ! 19)) else None)"

definition stun_round :: "bytes \<Rightarrow> UDPAddr list \<Rightarrow> int \<Rightarrow> dial \<Rightarrow> dial \<times> (ip \<times> nat) option" where
  "stun_round pkt addrs now d =
     read_all (\<lambda>(w, _) d. (d, stun_reply (DecodePayload (take 1024 w)))) (fold (sk_send now pkt) addrs d)"

text \<open>\<open>hex.DecodeString\<close> on the bytes of the string.\<close>

definition hex_digit :: "byte \<Rightarrow> byte option" where
  "hex_digit x =
     (if 0x30 \<le> x \<and> x \<le> 0x39 then Some (x - 0x30)
      else if 0x61 \<le> x \<and> x \<le> 0x66 then Some (x - 0x61 + 10)
      else if 0x41 \<le> x \<and> x \<le> 0x46 then Some (x - 0x41 + 10) else None)"

fun hexDecode :: "bytes \<Rightarrow> bytes option" where
  "hexDecode [] = Some []"
| "hexDecode [x] = None"
| "hexDecode (x # y # r) =
     (case (hex_digit x, hex_digit y, hexDecode r) of
        (Some a, Some b, Some bs) \<Rightarrow> Some ((push_bit 4 a OR b) # bs)
      | _ \<Rightarrow> None)"

definition relay_token :: "bytes \<Rightarrow> bytes \<Rightarrow> bytes" where
  "relay_token conID rnd =
     (case hexDecode conID of
        Some cb \<Rightarrow> if length cb \<ge> 8 then take 8 cb else rnd
      | None \<Rightarrow> rnd)"

text \<open>The loop over the relay endpoints; \<open>i\<close> counts them for the key agreements.\<close>

fun connect_relays ::
  "gcm_seal \<Rightarrow> gcm_open \<Rightarrow> dial_env \<Rightarrow> bytes \<Rightarrow> nat \<Rightarrow> RelayEndpoint list \<Rightarrow> round list \<Rightarrow> dial \<Rightarrow> dial \<times> round list" where
  "connect_relays sl op env uid i [] rs d = (d, rs)"
| "connect_relays sl op env uid i (ep # eps) rs d =
     (case Coordinate sl op (de_ka env i) \<lparr>ua_IP = re_IP ep, ua_Port = re_Port ep\<rparr> uid rs d of
        (d, None, rs) \<Rightarrow> connect_relays sl op env uid (i + 1) eps rs d
      | (d, Some ch, rs) \<Rightarrow>
          let (ch, ds) = send_all sl ch (d_relaySetup d);
              d = fold (\<lambda>(p, a). sk_send (sk_now d) p a) ds d
          in connect_relays sl op env uid (i + 1) eps rs (d\<lparr>d_relayChans := d_relayChans d @ [ch]\<rparr>))"

definition first_public :: "UDPAddr list \<Rightarrow> ip \<times> nat" where
  "first_public cs =
     (case filter (\<lambda>c. \<not> IsPrivate (ua_IP c)) cs of
        [] \<Rightarrow> ([], 0)
      | a # _ \<Rightarrow> (ua_IP a, ua_Port a))"

text \<open>\<open>None\<close> is the panic of an index beyond the decrypted reply.\<close>

definition relay_phase ::
  "gcm_seal \<Rightarrow> gcm_open \<Rightarrow> dial_env \<Rightarrow> DeviceIdentity \<Rightarrow> round list \<Rightarrow> dial \<Rightarrow> (dial \<times> round list) option" where
  "relay_phase sl op env dev rs d =
     (case d_preReply d of
        None \<Rightarrow> Some (d, rs)
      | Some reply \<Rightarrow>
          (case DecodeReply op reply (de_sessKey env) (de_nonce env) of
             Inl _ \<Rightarrow> Some (d, rs)
           | Inr rpt \<Rightarrow>
               if length rpt < 64 then None
               else
                 let eps = ParseReply rpt;
                     uid = take 20 (drop 20 rpt);
                     refl = (IPv4 (rpt ! 60) (rpt ! 61) (rpt ! 62) (rpt ! 63), port_be (rpt ! 58) (rpt ! 59));
                     d = d\<lparr>d_coordUID := uid, d_coordLocalIP := de_localIP env, d_coordLocalPort := de_localPort env,
                           d_stunWire := EncodePayload stunDec,
                           d_stunAddrs := map (\<lambda>ep. \<lparr>ua_IP = re_IP ep, ua_Port = re_Port ep\<rparr>) eps\<rparr>;
                     (d, st, rs) = round_loop (stun_round (d_stunWire d) (d_stunAddrs d)) (clock rs d + 2 * second) rs d;
                     (reflIP, reflPort) = (case st of Some r \<Rightarrow> r | None \<Rightarrow> refl);
                     (devIP, devPort) = first_public (d_cands d);
                     tok = relay_token (di_ConID dev) (de_tok env);
                     d = d\<lparr>d_coordReflIP := reflIP, d_coordReflPort := reflPort,
                           d_relaySetup := SetupMessages uid tok (de_localIP env) (de_localPort env) reflIP reflPort devIP devPort\<rparr>
                 in Some (connect_relays sl op env uid 0 eps rs d)))"

section \<open>Hole punch and session states\<close>

definition learn_cands :: "Coord103 \<Rightarrow> UDPAddr list \<Rightarrow> UDPAddr list" where
  "learn_cands c cs =
     (if c1_DevIP c \<noteq> [] \<and> c1_DevPort c \<noteq> 0 then
        let cs = appendUnique cs \<lparr>ua_IP = c1_DevIP c, ua_Port = c1_DevPort c\<rparr>
        in if c1_DevLan c \<noteq> [] then appendUnique cs \<lparr>ua_IP = c1_DevLan c, ua_Port = c1_DevPort c\<rparr> else cs
      else cs)"

definition dial_handle0103 :: "bytes \<Rightarrow> UDPAddr \<Rightarrow> dial \<Rightarrow> dial" where
  "dial_handle0103 pkt from d =
     (if length pkt < 10 \<or> pkt ! 0 = 0x51 then d
      else let p = DecodePayload pkt in
           if length p < 44 \<or> p ! 8 \<noteq> 0x01 \<or> p ! 9 \<noteq> 0x03 then d
           else case Parse0103 p of
                  None \<Rightarrow> d
                | Some c \<Rightarrow>
                    let d = d\<lparr>d_coordSeen := d_coordSeen d + 1\<rparr>;
                        d = sk_send (sk_now d)
                              (EncodePayload (Build0408 (d_coordUID d) (Some c) (d_coordLocalIP d) (d_coordLocalPort d)
                                (d_coordReflIP d) (d_coordReflPort d))) from d
                    in d\<lparr>d_cands := learn_cands c (d_cands d)\<rparr>)"

definition isSessionPkt :: "bytes \<Rightarrow> bool" where
  "isSessionPkt w \<longleftrightarrow> w ! 0 = 0x4e \<and> w ! 1 = 0x6d"

definition punch_read :: "datagram \<Rightarrow> dial \<Rightarrow> dial \<times> UDPAddr option" where
  "punch_read x d =
     (case x of (w, from) \<Rightarrow>
        let w = take 4096 w in
        if length w \<le> IOTCHeaderLen then (d, None)
        else if ua_Port from = 3478 then (dial_handle0103 w from d, None)
        else if isSessionPkt w then (d, Some from)
        else (d, None))"

definition punch_round :: "dial_cfg \<Rightarrow> int \<Rightarrow> dial \<Rightarrow> dial \<times> UDPAddr option" where
  "punch_round c now d =
     (let d = fold (sk_send now (dc_direct1 c)) (d_cands d) d;
          d = sendPrecheck c now (sendKnock c now d)
      in read_all punch_read d)"

definition advance_read :: "UDPAddr \<Rightarrow> datagram \<Rightarrow> dial \<Rightarrow> dial \<times> unit option" where
  "advance_read dev x d =
     (case x of (w, from) \<Rightarrow>
        let w = take 4096 w in
        if ua_Port from = 3478 then (dial_handle0103 w from d, None)
        else if \<not> sameHost from dev \<or> length w \<le> IOTCHeaderLen then (d, None)
        else if isSessionPkt w \<and> deviceState w = deviceConnState then (d, Some ())
        else (d, None))"

definition advance_round :: "dial_cfg \<Rightarrow> UDPAddr \<Rightarrow> int \<Rightarrow> dial \<Rightarrow> dial \<times> unit option" where
  "advance_round c dev now d =
     read_all (advance_read dev) (sendKnock c now (sk_send now (dc_direct2 c) dev d))"

text \<open>The burst of state-04 packets, 30 ms apart.\<close>

definition ack_burst :: "dial_cfg \<Rightarrow> UDPAddr \<Rightarrow> int \<Rightarrow> dial \<Rightarrow> dial" where
  "ack_burst c dev t0 d =
     fold (\<lambda>i d. let now = t0 + int i * (30 * millisecond) in sendKnock c now (sk_send now (dc_direct4 c) dev d))
       [0..<8] d"

definition rdt_read :: "UDPAddr \<Rightarrow> datagram \<Rightarrow> dial \<Rightarrow> dial \<times> unit option" where
  "rdt_read dev x d =
     (case x of (w, from) \<Rightarrow>
        let w = take 4096 w in
        if \<not> sameHost from dev \<or> length w < 12 then (d, None)
        else if w ! 0 = 0x4c \<and> w ! 1 = 0x6f then
          let dec = DecodePayload w
          in (d, if length dec \<ge> 10 \<and> dec ! 8 = 0x28 \<and> dec ! 9 = 0x04 then Some () else None)
        else (d, None))"

definition rdt_round :: "UDPAddr \<Rightarrow> bytes \<Rightarrow> bytes \<Rightarrow> int \<Rightarrow> dial \<Rightarrow> dial \<times> unit option" where
  "rdt_round dev syn ack now d =
     read_all (rdt_read dev) (sk_send now ack dev (sk_send now syn dev d))"

section \<open>Dial\<close>

definition new_session :: "dial_cfg \<Rightarrow> UDPAddr \<Rightarrow> int \<Rightarrow> dial \<Rightarrow> Session" where
  "new_session c dev now d =
     \<lparr>s_dev = dev, s_master = Some (dc_master c), s_token = dc_token c, s_stopped = False, s_txSeq = 0,
      s_knockPkt = dc_knockPkt c, s_directPkt = dc_direct1 c, s_directPkt2 = dc_direct2 c,
      s_directPkt4 = dc_direct4 c, s_preWire = dc_preWire c, s_preAddrs = authMasters,
      s_relayChans = d_relayChans d, s_relaySetup = d_relaySetup d, s_stunWire = d_stunWire d,
      s_stunAddrs = d_stunAddrs d, s_kaTick = 0, s_coordUID = d_coordUID d, s_coordLocalIP = d_coordLocalIP d,
      s_coordReflIP = d_coordReflIP d, s_coordLocalPort = d_coordLocalPort d,
      s_coordReflPort = d_coordReflPort d, s_coordSeen = 0, s_rdtVal = dc_token c, s_lastRxNano = now,
      s_pcOpen = sk_open d, s_out = []\<rparr>"

text \<open>From the hole punch on.\<close>

definition dial_connect :: "dial_cfg \<Rightarrow> round list \<Rightarrow> dial \<Rightarrow> dial \<times> (dial_error + Session)" where
  "dial_connect c rs d =
     (case round_loop (punch_round c) (clock rs d + 10 * second) rs d of
        (d, None, rs) \<Rightarrow> (pc_Close d, Inl NoPunchBack)
      | (d, Some dev, rs) \<Rightarrow>
          (case round_loop (advance_round c dev) (clock rs d + 8 * second) rs d of
             (d, None, rs) \<Rightarrow> (pc_Close d, Inl NotConnected)
           | (d, Some _, rs) \<Rightarrow>
               let d = ack_burst c dev (clock rs d) d;
                   rdtVal = dc_token c;
                   (d, gotRDT, rs) = round_loop (rdt_round dev (buildRDTControl 0x17 0x04 rdtVal)
                       (buildRDTControl 0x27 0x04 (rdtValueBump rdtVal))) (clock rs d + 4 * second) rs d
               in (d, Inr (new_session c dev (clock rs d) d))))"

definition dial_rendezvous ::
  "gcm_seal \<Rightarrow> gcm_open \<Rightarrow> dial_env \<Rightarrow> DeviceIdentity \<Rightarrow> dial_cfg \<Rightarrow> round list \<Rightarrow> dial \<Rightarrow> dial \<times> (dial_error + Session)" where
  "dial_rendezvous sl op env dev c rs d =
     (let d = sendPrecheck c (clock rs d) d;
          (d, _, rs) = round_loop (collect_round c) (clock rs d + 3 * second) rs d
      in if d_candSet d = [] then (pc_Close d, Inl NoCandidates)
         else
           let d = d\<lparr>d_cands := de_order env (d_candSet d)\<rparr>
           in case relay_phase sl op env dev rs d of
                None \<Rightarrow> (d, Inl DialPanic)
              | Some (d, rs) \<Rightarrow> dial_connect c rs d)"

definition dial_cfg_of :: "dial_env \<Rightarrow> DeviceIdentity \<Rightarrow> UDPAddr \<Rightarrow> ip option \<Rightarrow> bytes \<Rightarrow> dial_cfg" where
  "dial_cfg_of env dev master host preWire =
     (let token = de_token env; uid = di_UID dev
      in \<lparr>dc_master = master, dc_masterHost = host, dc_token = token,
          dc_knockPkt = buildKnock (de_localIPv4 env) token uid, dc_direct1 = buildDirect 1 token uid,
          dc_direct2 = buildDirect 2 token uid, dc_direct4 = buildDirect 4 token uid, dc_preWire = preWire\<rparr>)"

definition Dial ::
  "rsa_pub \<Rightarrow> gcm_seal \<Rightarrow> gcm_open \<Rightarrow> dial_env \<Rightarrow> UDPAddr option \<Rightarrow> ip option \<Rightarrow> bool \<Rightarrow> DeviceIdentity \<Rightarrow> round list \<Rightarrow>
     dial \<times> (dial_error + Session)" where
  "Dial pub sl op env master host listens dev rs =
     (case master of
        None \<Rightarrow> (pc_Close dial_init, Inl ResolveFailed)
      | Some m \<Rightarrow>
          if \<not> listens then (pc_Close dial_init, Inl ListenFailed)
          else
            (case fst (BuildPrecheck0201Ex pub (di_UID dev) (di_AuthKey dev) (de_sid env) (de_sessKey env) (de_nonce env)) of
               Inl e \<Rightarrow> (pc_Close dial_init, Inl (PrecheckFailed e))
             | Inr preWire \<Rightarrow>
                 dial_rendezvous sl op env dev (dial_cfg_of env dev m host preWire) rs dial_init))"

end
