(* ===== verification/Dial_Session.thy ===== *)
theory Dial_Session
  imports Dial
begin

text \<open>
  What \<open>Dial\<close> guarantees. Every loop of \<open>Dial\<close> is an instance of the locales \<open>reader\<close> and \<open>phase\<close> of
  theory \<open>Socket\<close>, with one invariant for all of them, \<open>dial_inv\<close>: what is queued has arrived, the
  socket is open, and a stored precheck reply is one. The results of the phases are traced back
  to the datagram they come from.
\<close>

section \<open>The invariant\<close>

definition dial_inv :: "datagram set \<Rightarrow> dial \<Rightarrow> bool" where
  "dial_inv A d \<longleftrightarrow> set (sk_queue d) \<subseteq> A \<and> sk_open d \<and> pred_option isPreReply (d_preReply d)"

lemma dial_inv_send [simp]: "dial_inv A (sk_send now p a d) = dial_inv A d"
  by (simp add: dial_inv_def sk_send_def)

lemma dial_inv_sends [simp]: "dial_inv A (fold (sk_send now p) as d) = dial_inv A d"
  by (induction as arbitrary: d) simp_all

lemma dial_inv_lasts [simp]:
  "dial_inv A (d\<lparr>d_lastPre := t\<rparr>) = dial_inv A d" "dial_inv A (d\<lparr>d_lastKnock := t\<rparr>) = dial_inv A d"
  "dial_inv A (d\<lparr>d_coordSeen := n\<rparr>) = dial_inv A d" "dial_inv A (d\<lparr>d_cands := cs\<rparr>) = dial_inv A d"
  "dial_inv A (d\<lparr>d_candSet := cs\<rparr>) = dial_inv A d" "dial_inv A (d\<lparr>d_relayChans := rc\<rparr>) = dial_inv A d"
  by (simp_all add: dial_inv_def)

lemma dial_inv_throttled [simp]:
  "dial_inv A (sendPrecheck c now d) = dial_inv A d" "dial_inv A (sendKnock c now d) = dial_inv A d"
  by (simp_all add: sendPrecheck_def sendKnock_def)

lemma dial_inv_tick: "dial_inv A d \<Longrightarrow> dial_inv (A \<union> set arr) (sk_tick now arr d)"
  by (auto simp: dial_inv_def sk_tick_def)

lemma dial_inv_mono: "dial_inv A d \<Longrightarrow> A \<subseteq> B \<Longrightarrow> dial_inv B d"
  by (auto simp: dial_inv_def)

lemma dial_inv_queue: "dial_inv A d \<Longrightarrow> dial_inv A (d\<lparr>sk_queue := q\<rparr>) \<longleftrightarrow> set q \<subseteq> A"
  by (auto simp: dial_inv_def)

lemma dial_inv_queued: "dial_inv A d \<Longrightarrow> set (sk_queue d) \<subseteq> A"
  by (simp add: dial_inv_def)

lemmas dial_inv_rules = dial_inv_tick dial_inv_mono dial_inv_queue dial_inv_queued

lemma dial_inv_handle0103 [simp]: "dial_inv A (dial_handle0103 pkt from d) = dial_inv A d"
  by (simp add: dial_handle0103_def Let_def split: option.splits)

section \<open>Each loop keeps it\<close>

definition punched :: "datagram set \<Rightarrow> UDPAddr \<Rightarrow> bool" where
  "punched A from \<longleftrightarrow> (\<exists>w. (w, from) \<in> A \<and> IOTCHeaderLen < length w \<and> isSessionPkt w \<and> ua_Port from \<noteq> 3478)"

definition state_seen :: "UDPAddr \<Rightarrow> datagram set \<Rightarrow> unit \<Rightarrow> bool" where
  "state_seen dev A u \<longleftrightarrow> (\<exists>w from. (w, from) \<in> A \<and> sameHost from dev \<and> isSessionPkt w \<and>
     deviceState (take 4096 w) = deviceConnState)"

lemma isSessionPkt_take [simp]: "isSessionPkt (take 4096 w) = isSessionPkt w"
  by (simp add: isSessionPkt_def)

text \<open>The reader laws that do not depend on the handler.\<close>

lemma dial_reader:
  assumes "\<And>A d x. dial_inv A d \<Longrightarrow> x \<in> A \<Longrightarrow> dial_inv A (fst (h x d)) \<and> (\<forall>r. snd (h x d) = Some r \<longrightarrow> R A r)"
  shows "reader h dial_inv R"
  by (rule reader.intro [OF assms dial_inv_queue dial_inv_queued])

lemma dial_reading_phase:
  assumes "reader h dial_inv R" "\<And>now d. body now d = read_all h (prepare now d)"
    "\<And>A d now. dial_inv A d \<Longrightarrow> dial_inv A (prepare now d)" "\<And>A B r. R A r \<Longrightarrow> A \<subseteq> B \<Longrightarrow> R B r"
  shows "reading_phase h dial_inv R body prepare"
  by (rule reading_phase.intro [OF assms(1) reading_phase_axioms.intro [OF assms(2,3) dial_inv_tick dial_inv_mono assms(4)]])

interpretation punch: reading_phase punch_read dial_inv punched "punch_round c"
  "\<lambda>now d. sendPrecheck c now (sendKnock c now (fold (sk_send now (dc_direct1 c)) (d_cands d) d))" for c
proof (rule dial_reading_phase)
  show "reader punch_read dial_inv punched"
    by (rule dial_reader) (auto simp: punch_read_def punched_def Let_def split: if_splits)
qed (auto simp: punch_round_def Let_def punched_def)

interpretation advance: reading_phase "advance_read dev" dial_inv "state_seen dev" "advance_round c dev"
  "\<lambda>now d. sendKnock c now (sk_send now (dc_direct2 c) dev d)" for c dev
proof (rule dial_reading_phase)
  show "reader (advance_read dev) dial_inv (state_seen dev)"
    by (rule dial_reader) (fastforce simp: advance_read_def state_seen_def Let_def split: if_splits)
qed (auto simp: advance_round_def state_seen_def)

interpretation rdt: reading_phase "rdt_read dev" dial_inv "\<lambda>_ _. True" "rdt_round dev syn ack"
  "\<lambda>now d. sk_send now ack dev (sk_send now syn dev d)" for dev syn ack
proof (rule dial_reading_phase)
  show "reader (rdt_read dev) dial_inv (\<lambda>_ _. True)"
    by (rule dial_reader) (auto simp: rdt_read_def Let_def)
qed (auto simp: rdt_round_def)

interpretation stun: reading_phase "\<lambda>(w, _) d. (d, stun_reply (DecodePayload (take 1024 w)))" dial_inv "\<lambda>_ _. True"
  "stun_round pkt addrs" "\<lambda>now. fold (sk_send now pkt) addrs" for pkt addrs
proof (rule dial_reading_phase)
  show "reader (\<lambda>(w, _) d. (d, stun_reply (DecodePayload (take 1024 w)))) dial_inv (\<lambda>_ _. True)"
    by (rule dial_reader) auto
qed (auto simp: stun_round_def)

interpretation coord: reading_phase "\<lambda>(w, _) d. (d, if is0203 op ch (take 4096 w) then Some () else None)" dial_inv
  "\<lambda>_ _. True" "coord_round op ch" "\<lambda>now. sk_send now (rc_Hello ch) (rc_Addr ch)" for op ch
proof (rule dial_reading_phase)
  show "reader (\<lambda>(w, _) d. (d, if is0203 op ch (take 4096 w) then Some () else None)) dial_inv (\<lambda>_ _. True)"
    by (rule dial_reader) auto
qed (auto simp: coord_round_def)

lemma dial_inv_collect_packet:
  "dial_inv A d \<Longrightarrow> dial_inv A (collect_packet c w d)"
  by (auto simp: collect_packet_def dial_inv_def Let_def)

interpretation collect: phase "collect_round c" dial_inv "\<lambda>_ _. True" for c
proof
  fix A d now
  assume i: "dial_inv A d"
  let ?d = "sendKnock c now (sendPrecheck c now d)"
  have d: "dial_inv A ?d" using i by simp
  from d dial_inv_queued [OF d] show "dial_inv A (fst (collect_round c now d)) \<and> (\<forall>r. snd (collect_round c now d) = Some r \<longrightarrow> True)"
    by (auto simp: collect_round_def Let_def dial_inv_queue intro!: dial_inv_collect_packet split: list.splits)
qed (auto intro: dial_inv_tick dial_inv_mono)

section \<open>The whole of Dial\<close>

text \<open>What the relay phase relies on of AES-GCM: the plaintext is the sealed message less its 16-byte tag.\<close>

definition gcm_len :: "gcm_open \<Rightarrow> bool" where
  "gcm_len op \<longleftrightarrow> (\<forall>key nonce ct aad p. op key nonce ct aad = Some p \<longrightarrow> length p + 16 = length ct)"

lemma arrivals_append [simp]: "arrivals (xs @ ys) = arrivals xs \<union> arrivals ys"
  by (simp add: arrivals_def)

definition reaches :: "datagram set \<Rightarrow> round list \<Rightarrow> dial \<times> round list \<Rightarrow> bool" where
  "reaches A rs res = (case res of (d, rs') \<Rightarrow> dial_inv (A \<union> arrivals rs) d \<and> (\<exists>pre. rs = pre @ rs'))"

lemma reaches_trans:
  assumes "reaches A rs (d, rs1)" "reaches (A \<union> arrivals rs) rs1 res"
  shows "reaches A rs res"
  using assms by (auto simp: reaches_def Un_assoc)

lemma reaches_refl: "dial_inv A d \<Longrightarrow> reaches A rs (d, rs)"
  by (auto simp: reaches_def intro: dial_inv_mono)

lemma Coordinate_inv:
  assumes "dial_inv A d" "Coordinate sl op ka addr uid rs d = (d', r, rs')"
  shows "reaches A rs (d', rs')"
proof (cases ka)
  case None
  then show ?thesis using assms by (simp add: Coordinate_def reaches_refl)
next
  case (Some x)
  then obtain z pub nonce rid where "ka = Some (z, pub, nonce, rid)" by (cases x) auto
  then show ?thesis
    using assms coord.loop_inv [OF assms(1)]
    by (auto simp: Coordinate_def reaches_def Let_def split: prod.splits option.splits)
qed

lemma dial_inv_send_list [simp]: "dial_inv A (fold (\<lambda>(p, a). sk_send t p a) ds d) = dial_inv A d"
proof (induction ds arbitrary: d)
  case (Cons x ds)
  then show ?case by (cases x) simp
qed simp

lemma connect_relays_inv:
  "dial_inv A d \<Longrightarrow> reaches A rs (connect_relays sl op env uid i eps rs d)"
proof (induction eps arbitrary: A i rs d)
  case Nil
  then show ?case by (simp add: reaches_refl)
next
  case (Cons ep eps)
  let ?a = "\<lparr>ua_IP = re_IP ep, ua_Port = re_Port ep\<rparr>"
  obtain d1 r rs1 where c: "Coordinate sl op (de_ka env i) ?a uid rs d = (d1, r, rs1)" by (rule prod_cases3)
  have r1: "reaches A rs (d1, rs1)" by (rule Coordinate_inv [OF Cons.prems c])
  then have i1: "dial_inv (A \<union> arrivals rs) d1" by (simp add: reaches_def)
  show ?case
  proof (cases r)
    case None
    then show ?thesis using Cons.IH [OF i1] r1 c by (auto intro: reaches_trans)
  next
    case (Some ch)
    obtain ch' ds where "send_all sl ch (d_relaySetup d1) = (ch', ds)" by fastforce
    then show ?thesis
      using i1 c Some by (auto simp: Let_def intro!: reaches_trans [OF r1] Cons.IH)
  qed
qed

lemma dial_inv_coord [simp]:
  "dial_inv A (d\<lparr>d_coordUID := a, d_coordLocalIP := b, d_coordLocalPort := e, d_stunWire := f, d_stunAddrs := g\<rparr>) = dial_inv A d"
  "dial_inv A (d\<lparr>d_coordReflIP := a, d_coordReflPort := e, d_relaySetup := h\<rparr>) = dial_inv A d"
  by (simp_all add: dial_inv_def)

lemma relay_phase_inv:
  assumes "gcm_len op" "dial_inv A d"
  shows "\<exists>res. relay_phase sl op env dev rs d = Some res \<and> reaches A rs res"
proof (cases "\<exists>reply rpt. d_preReply d = Some reply \<and> DecodeReply op reply (de_sessKey env) (de_nonce env) = Inr rpt")
  case False
  then show ?thesis
    using reaches_refl [OF assms(2)] by (auto simp: relay_phase_def split: option.splits sum.splits)
next
  case True
  then obtain reply rpt where r: "d_preReply d = Some reply" "DecodeReply op reply (de_sessKey env) (de_nonce env) = Inr rpt"
    by blast
  then have "length reply \<ge> 300" using assms(2) by (simp add: dial_inv_def isPreReply_def)
  moreover have "length rpt + 16 = length (drop 12 reply)"
    using r(2) assms(1) by (auto simp: DecodeReply_def gcm_len_def split: if_splits option.splits)
  ultimately have len: "\<not> length rpt < 64" by simp
  define d0 where "d0 = d\<lparr>d_coordUID := take 20 (drop 20 rpt), d_coordLocalIP := de_localIP env, d_coordLocalPort := de_localPort env,
      d_stunWire := EncodePayload stunDec, d_stunAddrs := map (\<lambda>ep. \<lparr>ua_IP = re_IP ep, ua_Port = re_Port ep\<rparr>) (ParseReply rpt)\<rparr>"
  have d0: "dial_inv A d0" using assms(2) by (simp add: d0_def)
  obtain d1 st rs1 where l: "round_loop (stun_round (d_stunWire d0) (d_stunAddrs d0)) (clock rs d0 + 2 * second) rs d0 = (d1, st, rs1)"
    by (rule prod_cases3)
  have r1: "reaches A rs (d1, rs1)" using stun.loop_inv [OF d0 l] by (simp add: reaches_def)
  then have "dial_inv (A \<union> arrivals rs) d1" by (simp add: reaches_def)
  then show ?thesis
    using r len l connect_relays_inv
    by (auto simp: relay_phase_def d0_def Let_def case_prod_unfold intro!: reaches_trans [OF r1])
qed

text \<open>What has been sent stays in the log.\<close>

definition logged :: "(int \<times> bytes \<times> UDPAddr) list \<Rightarrow> datagram set \<Rightarrow> dial \<Rightarrow> bool" where
  "logged L A d \<longleftrightarrow> prefix L (sk_out d) \<and> set (sk_queue d) \<subseteq> A"

interpretation rdt_log: reading_phase "rdt_read dev" "logged L" "\<lambda>_ _. True" "rdt_round dev syn ack"
  "\<lambda>now d. sk_send now ack dev (sk_send now syn dev d)" for dev syn ack L
  by unfold_locales (auto simp: logged_def rdt_read_def rdt_round_def Let_def split: prod.splits)

definition sent_to :: "bytes \<Rightarrow> UDPAddr \<Rightarrow> dial \<Rightarrow> nat" where
  "sent_to p a d = length (filter (\<lambda>(_, q, b). q = p \<and> b = a) (sk_out d))"

lemma sent_to_send [simp]: "sent_to p a (sk_send now q b d) = sent_to p a d + (if q = p \<and> b = a then 1 else 0)"
  by (simp add: sent_to_def)

lemma sent_to_knock: "sent_to p a d \<le> sent_to p a (sendKnock c now d)"
  by (simp add: sendKnock_def) (simp add: sent_to_def)

lemma ack_burst_steps:
  "k + length is \<le> sent_to (dc_direct4 c) dev (fold (\<lambda>i d. let now = t0 + int i * (30 * millisecond) in
      sendKnock c now (sk_send now (dc_direct4 c) dev d)) is d)" if "k \<le> sent_to (dc_direct4 c) dev d"
  using that
proof (induction "is" arbitrary: k d)
  case (Cons i "is")
  let ?now = "t0 + int i * (30 * millisecond)"
  have "Suc k \<le> sent_to (dc_direct4 c) dev (sendKnock c ?now (sk_send ?now (dc_direct4 c) dev d))"
    using Cons.prems sent_to_knock [of "dc_direct4 c" dev "sk_send ?now (dc_direct4 c) dev d" c ?now] by simp
  from Cons.IH [OF this] show ?case by (simp add: Let_def)
qed simp

lemma ack_burst_sends: "8 \<le> sent_to (dc_direct4 c) dev (ack_burst c dev t0 d)"
  using ack_burst_steps [of 0 c dev d "[0..<8]" t0] by (simp add: ack_burst_def)

lemma dial_inv_ack_burst [simp]: "dial_inv A (ack_burst c dev t0 d) = dial_inv A d"
proof -
  have "dial_inv A (fold (\<lambda>i d. let now = t0 + int i * (30 * millisecond) in
      sendKnock c now (sk_send now (dc_direct4 c) dev d)) is d) = dial_inv A d" for "is" :: "nat list"
    by (induction "is" arbitrary: d) (simp_all add: Let_def)
  then show ?thesis by (simp add: ack_burst_def)
qed

lemma sent_to_prefix: "prefix (sk_out d) (sk_out d') \<Longrightarrow> sent_to p a d \<le> sent_to p a d'"
  by (auto simp: sent_to_def prefix_def)

definition connected :: "dial_cfg \<Rightarrow> datagram set \<Rightarrow> dial \<Rightarrow> Session \<Rightarrow> bool" where
  "connected c A d s \<longleftrightarrow> (\<exists>now. s = new_session c (s_dev s) now d) \<and> sk_open d \<and> punched A (s_dev s) \<and>
     state_seen (s_dev s) A () \<and> 8 \<le> sent_to (dc_direct4 c) (s_dev s) d"

lemma dial_connect_result:
  assumes "dial_inv A d" "dial_connect c rs d = (d', r)"
  shows "case r of Inl e \<Rightarrow> \<not> sk_open d' \<and> e \<noteq> DialPanic | Inr s \<Rightarrow> connected c (A \<union> arrivals rs) d' s"
proof -
  obtain d1 r1 rs1 where p: "round_loop (punch_round c) (clock rs d + 10 * second) rs d = (d1, r1, rs1)"
    by (rule prod_cases3)
  note P = punch.loop_inv [OF assms(1) p]
  show ?thesis
  proof (cases r1)
    case None
    then show ?thesis using assms(2) p by (auto simp: dial_connect_def pc_Close_def)
  next
    case (Some dev)
    obtain d2 r2 rs2 where a: "round_loop (advance_round c dev) (clock rs1 d1 + 8 * second) rs1 d1 = (d2, r2, rs2)"
      by (rule prod_cases3)
    note Q = advance.loop_inv [OF P [THEN conjunct1] a]
    have sub: "A \<union> arrivals rs \<union> arrivals rs1 = A \<union> arrivals rs" using P by auto
    show ?thesis
    proof (cases r2)
      case None
      then show ?thesis using assms(2) p a Some by (auto simp: dial_connect_def pc_Close_def)
    next
      case (Some u)
      define d3 where "d3 = ack_burst c dev (clock rs2 d2) d2"
      obtain d4 r4 rs4 where l: "round_loop (rdt_round dev (buildRDTControl 0x17 0x04 (dc_token c))
          (buildRDTControl 0x27 0x04 (rdtValueBump (dc_token c)))) (clock rs2 d3 + 4 * second) rs2 d3 = (d4, r4, rs4)"
        by (rule prod_cases3)
      have i3: "dial_inv (A \<union> arrivals rs) d3" using Q sub by (simp add: d3_def)
      have "logged (sk_out d3) (A \<union> arrivals rs) d3" using i3 by (simp add: logged_def dial_inv_def)
      from rdt_log.loop_inv [OF this l] have "prefix (sk_out d3) (sk_out d4)" by (simp add: logged_def)
      then have "8 \<le> sent_to (dc_direct4 c) dev d4"
        using sent_to_prefix ack_burst_sends unfolding d3_def by (meson le_trans)
      moreover have "sk_open d4" using rdt.loop_inv [OF i3 l] by (simp add: dial_inv_def)
      moreover have "r = Inr (new_session c dev (clock rs4 d4) d4)" "d' = d4"
        using assms(2) p a l Some \<open>r1 = Some dev\<close> by (auto simp: dial_connect_def d3_def Let_def)
      moreover have "punched (A \<union> arrivals rs) dev" "state_seen dev (A \<union> arrivals rs) ()"
        using P Q \<open>r1 = Some dev\<close> Some sub by auto
      ultimately show ?thesis by (auto simp: connected_def new_session_def)
    qed
  qed
qed

section \<open>Candidates\<close>

text \<open>The candidates a rendezvous datagram offers, and what the collecting loop makes of the ones it reads.\<close>

definition offers :: "dial_cfg \<Rightarrow> datagram \<Rightarrow> UDPAddr set" where
  "offers c x = (let dec = DecodePayload (take 4096 (fst x)) in
     if length dec < 36 \<or> dec ! 0 \<noteq> 0x04 \<or> dec ! 1 \<noteq> 0x02 then {}
     else {ua \<in> resolve_record ` set (ParseAddrRecords (drop 16 dec)). usable c ua})"

lemma add_cands:
  "set (fold (add_cand c) as cs) = set cs \<union> {ua \<in> resolve_record ` set as. usable c ua} \<and>
     (distinct cs \<longrightarrow> distinct (fold (add_cand c) as cs))"
  by (induction as arbitrary: cs) (auto simp: add_cand_def Let_def)

definition cand_inv :: "dial_cfg \<Rightarrow> datagram list \<Rightarrow> datagram list \<Rightarrow> dial \<Rightarrow> bool" where
  "cand_inv c got reads d \<longleftrightarrow> got = reads @ sk_queue d \<and> distinct (d_candSet d) \<and>
     set (d_candSet d) = (\<Union>x\<in>set reads. offers c x)"

lemma cand_inv_sends [simp]:
  "cand_inv c got reads (sendKnock c' now d) = cand_inv c got reads d"
  "cand_inv c got reads (sendPrecheck c' now d) = cand_inv c got reads d"
proof -
  have s: "cand_inv c got reads (sk_send now p a d) = cand_inv c got reads d" for p a d
    by (simp add: cand_inv_def sk_send_def)
  then have "cand_inv c got reads (fold (sk_send now p) as d) = cand_inv c got reads d" for p as d
    by (induction as arbitrary: d) simp_all
  with s show "cand_inv c got reads (sendKnock c' now d) = cand_inv c got reads d"
    "cand_inv c got reads (sendPrecheck c' now d) = cand_inv c got reads d"
    by (simp_all add: sendKnock_def sendPrecheck_def) (simp_all add: cand_inv_def)
qed

lemma collect_packet_cands:
  "set (d_candSet (collect_packet c (take 4096 w) d)) = set (d_candSet d) \<union> offers c (w, from) \<and>
     (distinct (d_candSet d) \<longrightarrow> distinct (d_candSet (collect_packet c (take 4096 w) d))) \<and>
     sk_queue (collect_packet c (take 4096 w) d) = sk_queue d"
  using add_cands [of c "ParseAddrRecords (drop 16 (DecodePayload (take 4096 w)))" "d_candSet d"]
  by (simp add: collect_packet_def offers_def Let_def)

lemma collect_round_cands:
  assumes "cand_inv c got reads d"
  shows "\<exists>reads'. cand_inv c got reads' (fst (collect_round c now d)) \<and> snd (collect_round c now d) = None"
proof -
  let ?d = "sendKnock c now (sendPrecheck c now d)"
  have i: "cand_inv c got reads ?d" using assms by simp
  show ?thesis
  proof (cases "sk_queue ?d")
    case Nil
    then show ?thesis using i by (auto simp: collect_round_def)
  next
    case (Cons x q)
    obtain w fr where x: "x = (w, fr)" by fastforce
    have "cand_inv c got (reads @ [x]) (collect_packet c (take 4096 w) (?d\<lparr>sk_queue := q\<rparr>))"
      using i Cons collect_packet_cands [of c w "?d\<lparr>sk_queue := q\<rparr>" fr] by (auto simp: cand_inv_def x)
    then show ?thesis using Cons x by (auto simp: collect_round_def)
  qed
qed

lemma collect_loop_cands:
  assumes "cand_inv c got reads d" "round_loop (collect_round c) dl rs d = (d', r, rs')"
  shows "\<exists>pre reads'. rs = pre @ rs' \<and> cand_inv c (got @ concat (map snd pre)) reads' d' \<and>
     (\<forall>(t, _)\<in>set pre. t < dl)"
  using assms
proof (induction rs arbitrary: got reads d)
  case (Cons e rs)
  obtain now arr where e: "e = (now, arr)" by fastforce
  show ?case
  proof (cases "now < dl")
    case True
    have "cand_inv c (got @ arr) reads (sk_tick now arr d)"
      using Cons.prems(1) by (simp add: cand_inv_def sk_tick_def)
    from collect_round_cands [OF this, of now] obtain d1 reads1
      where d1: "collect_round c now (sk_tick now arr d) = (d1, None)" "cand_inv c (got @ arr) reads1 d1"
      by (cases "collect_round c now (sk_tick now arr d)") auto
    then have "round_loop (collect_round c) dl rs d1 = (d', r, rs')" using Cons.prems(2) True e by simp
    from Cons.IH [OF d1(2) this] obtain pre reads' where "rs = pre @ rs'"
      "cand_inv c (got @ arr @ concat (map snd pre)) reads' d'" "\<forall>(t, _)\<in>set pre. t < dl" by auto
    then show ?thesis using True by (intro exI [of _ "e # pre"] exI [of _ reads']) (auto simp: e)
  next
    case False
    then have "d' = d" "rs' = e # rs" using Cons.prems(2) by (auto simp: e)
    then show ?thesis using Cons.prems(1) by (intro exI [of _ "[]"] exI [of _ reads]) simp
  qed
qed auto

section \<open>Throttling\<close>

text \<open>
  In the collecting loop only the precheck and the knock are sent. \<open>paced\<close> counts them from a base log of
  \<open>n0\<close> entries: \<open>m\<close> sends of one kind since \<open>t0\<close>, at least 250 ms apart, the last at \<open>last\<close>.
\<close>

definition spaced :: "int \<Rightarrow> int \<Rightarrow> nat \<Rightarrow> int \<Rightarrow> bool" where
  "spaced t0 t m l \<longleftrightarrow> (m = 0 \<or> t0 + 250 * millisecond * (int m - 1) \<le> l \<and> l \<le> t)"

definition paced :: "nat \<Rightarrow> int \<Rightarrow> int \<Rightarrow> dial \<Rightarrow> bool" where
  "paced n0 t0 t d \<longleftrightarrow> (\<exists>k p. length (sk_out d) = n0 + k + length authMasters * p \<and>
     spaced t0 t k (d_lastKnock d) \<and> spaced t0 t p (d_lastPre d))"

lemma spaced_mono: "spaced t0 t m l \<Longrightarrow> t \<le> u \<Longrightarrow> spaced t0 u m l"
  by (auto simp: spaced_def)

lemma spaced_next: "spaced t0 t m l \<Longrightarrow> t0 \<le> t \<Longrightarrow> \<not> since t l < 250 * millisecond \<Longrightarrow> spaced t0 t (Suc m) t"
  by (auto simp: spaced_def since_def millisecond_def)

lemma length_sends [simp]: "length (sk_out (fold (sk_send now p) as d)) = length (sk_out d) + length as"
  by (induction as arbitrary: d) simp_all

lemma fold_sends_lasts [simp]:
  "d_lastKnock (fold (sk_send now p) as d) = d_lastKnock d" "d_lastPre (fold (sk_send now p) as d) = d_lastPre d"
  by (induction as arbitrary: d) (simp_all add: sk_send_def)

lemma paced_knock:
  assumes "paced n0 t0 t d" "t0 \<le> t"
  shows "paced n0 t0 t (sendKnock c t d)"
proof (cases "since t (d_lastKnock d) < 250 * millisecond")
  case True
  then show ?thesis using assms by (simp add: sendKnock_def)
next
  case False
  obtain k p where o: "length (sk_out d) = n0 + k + length authMasters * p" "spaced t0 t k (d_lastKnock d)"
    "spaced t0 t p (d_lastPre d)" using assms(1) by (auto simp: paced_def)
  have n: "spaced t0 t (Suc k) t" by (rule spaced_next [OF o(2) assms(2) False])
  have len: "length (sk_out (sendKnock c t d)) = n0 + Suc k + length authMasters * p"
    "d_lastKnock (sendKnock c t d) = t" "d_lastPre (sendKnock c t d) = d_lastPre d"
    using o(1) False by (simp_all add: sendKnock_def sk_send_def)
  show ?thesis unfolding paced_def len using o(2,3) n by blast
qed

lemma paced_precheck:
  assumes "paced n0 t0 t d" "t0 \<le> t"
  shows "paced n0 t0 t (sendPrecheck c t d)"
proof (cases "since t (d_lastPre d) < 250 * millisecond")
  case True
  then show ?thesis using assms by (simp add: sendPrecheck_def)
next
  case False
  obtain k p where o: "length (sk_out d) = n0 + k + length authMasters * p" "spaced t0 t k (d_lastKnock d)"
    "spaced t0 t p (d_lastPre d)" using assms(1) by (auto simp: paced_def)
  have n: "spaced t0 t (Suc p) t" by (rule spaced_next [OF o(3) assms(2) False])
  have len: "length (sk_out (sendPrecheck c t d)) = n0 + k + length authMasters * Suc p"
    "d_lastKnock (sendPrecheck c t d) = d_lastKnock d" "d_lastPre (sendPrecheck c t d) = t"
    using o(1) False by (simp_all add: sendPrecheck_def)
  show ?thesis unfolding paced_def len using o(2,3) n by blast
qed

lemma paced_collect_packet [simp]: "paced n0 t0 t (collect_packet c w (d\<lparr>sk_queue := q\<rparr>)) = paced n0 t0 t d"
  by (simp add: collect_packet_def paced_def Let_def)

lemma paced_collect_round:
  assumes "paced n0 t0 t d" "t0 \<le> t"
  shows "paced n0 t0 t (fst (collect_round c t d))"
  using paced_knock [OF paced_precheck [OF assms] assms(2)]
  by (auto simp: collect_round_def Let_def split: list.splits)

lemma collect_round_none [simp]: "snd (collect_round c t d) = None"
  by (simp add: collect_round_def Let_def split: list.splits prod.splits)

lemma paced_loop:
  assumes "paced n0 t0 t d" "t0 \<le> t" "t < dl" "sorted (t # map fst rs)" "round_loop (collect_round c) dl rs d = (d', r, rs')"
  shows "\<exists>u<dl. paced n0 t0 u d'"
  using assms
proof (induction rs arbitrary: t d)
  case (Cons e rs)
  obtain now arr where e: "e = (now, arr)" by fastforce
  show ?case
  proof (cases "now < dl")
    case True
    have t: "t \<le> now" "sorted (now # map fst rs)" using Cons.prems(4) e by auto
    have "paced n0 t0 now (sk_tick now arr d)"
      using Cons.prems(1) t(1) by (auto simp: paced_def sk_tick_def dest: spaced_mono)
    from paced_collect_round [OF this, of c] have "paced n0 t0 now (fst (collect_round c now (sk_tick now arr d)))"
      using Cons.prems(2) t(1) by simp
    moreover have "round_loop (collect_round c) dl rs (fst (collect_round c now (sk_tick now arr d))) = (d', r, rs')"
      using Cons.prems(5) True e collect_round_none [of c now "sk_tick now arr d"]
      by (cases "collect_round c now (sk_tick now arr d)") auto
    ultimately show ?thesis using Cons.IH [of now] t Cons.prems(2) True by auto
  qed (use Cons.prems e in auto)
qed auto

lemma spaced_bound:
  assumes "spaced t0 u m l" "u < t0 + 3 * second"
  shows "m \<le> 12"
  using assms by (auto simp: spaced_def second_def millisecond_def)

section \<open>Properties\<close>

lemma dial_init_inv: "dial_inv {} dial_init"
  by (simp add: dial_inv_def dial_init_def)

lemma dial_rendezvous_result:
  assumes "gcm_len op" "dial_rendezvous sl op env dev c rs dial_init = (d, r)"
  shows "case r of Inl e \<Rightarrow> e \<noteq> DialPanic \<and> \<not> sk_open d | Inr s \<Rightarrow> connected c (arrivals rs) d s"
proof -
  define d0 where "d0 = sendPrecheck c (clock rs dial_init) dial_init"
  have i0: "dial_inv {} d0" by (simp add: d0_def dial_init_inv)
  obtain d1 u rs1 where l: "round_loop (collect_round c) (clock rs d0 + 3 * second) rs d0 = (d1, u, rs1)"
    by (rule prod_cases3)
  note C = collect.loop_inv [OF i0 l]
  define d2 where "d2 = d1\<lparr>d_cands := de_order env (d_candSet d1)\<rparr>"
  have "dial_inv (arrivals rs) d2" using C by (simp add: d2_def)
  from relay_phase_inv [OF assms(1) this] obtain d3 rs3
    where R: "relay_phase sl op env dev rs1 d2 = Some (d3, rs3)" "reaches (arrivals rs) rs1 (d3, rs3)" by fast
  have sub: "arrivals rs \<union> arrivals rs1 = arrivals rs" "arrivals rs \<union> arrivals rs3 = arrivals rs"
    using C R(2) by (auto simp: reaches_def)
  have i3: "dial_inv (arrivals rs) d3" using R(2) sub by (simp add: reaches_def)
  show ?thesis
  proof (cases "d_candSet d1 = []")
    case True
    then show ?thesis using assms(2) l by (auto simp: dial_rendezvous_def d0_def pc_Close_def Let_def)
  next
    case False
    then have "dial_connect c rs3 d3 = (d, r)"
      using assms(2) l R(1) by (simp add: dial_rendezvous_def d0_def d2_def Let_def)
    from dial_connect_result [OF i3 this] show ?thesis using sub by (auto split: sum.splits)
  qed
qed

text \<open>
  C25. What a call of \<open>Dial\<close> establishes. If it returns a session, the session's peer is the source of a
  datagram that arrived with the session type 4e 6d and not from a relay port; the same host
  then reported the connected state 04; at least eight state-04 acknowledgements were sent to it; the
  session starts at sequence number 0 with the fresh token, keeps the packets of the three states for
  its keepalive, and owns the open socket. If it fails, the socket is closed, and it never panics
  on the master's reply, given that AES-GCM takes exactly its tag off a message.
\<close>

theorem dial_session_sound:
  assumes "gcm_len op" "Dial pub sl op env master host listens dev rs = (d, r)"
  shows "case r of
      Inl e \<Rightarrow> e \<noteq> DialPanic \<and> \<not> sk_open d
    | Inr s \<Rightarrow> punched (arrivals rs) (s_dev s) \<and> state_seen (s_dev s) (arrivals rs) () \<and>
        8 \<le> sent_to (s_directPkt4 s) (s_dev s) d \<and> s_directPkt4 s = buildDirect 4 (de_token env) (di_UID dev) \<and>
        s_directPkt2 s = buildDirect 2 (de_token env) (di_UID dev) \<and> s_directPkt s = buildDirect 1 (de_token env) (di_UID dev) \<and>
        s_token s = de_token env \<and> s_rdtVal s = de_token env \<and> s_txSeq s = 0 \<and> s_master s = master \<and>
        \<not> s_stopped s \<and> s_pcOpen s \<and> sk_open d"
proof -
  have "connected (dial_cfg_of env dev m host w) A d s \<Longrightarrow> punched A (s_dev s) \<and> state_seen (s_dev s) A () \<and>
      8 \<le> sent_to (s_directPkt4 s) (s_dev s) d \<and> s_directPkt4 s = buildDirect 4 (de_token env) (di_UID dev) \<and>
      s_directPkt2 s = buildDirect 2 (de_token env) (di_UID dev) \<and> s_directPkt s = buildDirect 1 (de_token env) (di_UID dev) \<and>
      s_token s = de_token env \<and> s_rdtVal s = de_token env \<and> s_txSeq s = 0 \<and> s_master s = Some m \<and>
      \<not> s_stopped s \<and> s_pcOpen s \<and> sk_open d" for m w A s
  proof -
    assume c: "connected (dial_cfg_of env dev m host w) A d s"
    then obtain now where "s = new_session (dial_cfg_of env dev m host w) (s_dev s) now d" by (auto simp: connected_def)
    then have "s_directPkt4 s = dc_direct4 (dial_cfg_of env dev m host w)" "s_directPkt4 s = buildDirect 4 (de_token env) (di_UID dev)"
      "s_directPkt2 s = buildDirect 2 (de_token env) (di_UID dev)" "s_directPkt s = buildDirect 1 (de_token env) (di_UID dev)"
      "s_token s = de_token env" "s_rdtVal s = de_token env" "s_txSeq s = 0" "s_master s = Some m" "\<not> s_stopped s"
      "s_pcOpen s = sk_open d"
      by (auto simp: new_session_def dial_cfg_of_def Let_def dest!: arg_cong [where f = "\<lambda>s. (s_directPkt4 s, s_directPkt2 s,
          s_directPkt s, s_token s, s_rdtVal s, s_txSeq s, s_master s, s_stopped s, s_pcOpen s)"])
    then show ?thesis using c by (simp add: connected_def)
  qed
  then show ?thesis
    using assms dial_rendezvous_result [OF assms(1)]
    by (fastforce simp: Dial_def pc_Close_def split: option.splits if_splits sum.splits)
qed

text \<open>A run that succeeds: a rendezvous reply with one address, a punch-back, a state-04 packet.\<close>

definition demo_env :: dial_env where
  "demo_env = \<lparr>de_token = [1, 2, 3, 4, 5, 6, 7, 8], de_sid = [0, 0], de_sessKey = replicate 16 1, de_nonce = replicate 12 2,
     de_tok = [], de_ka = (\<lambda>_. None), de_localIPv4 = [], de_localIP = [], de_localPort = 0, de_order = (\<lambda>cs. cs)\<rparr>"

definition demo_dev :: DeviceIdentity where
  "demo_dev = \<lparr>di_UID = replicate 20 65, di_Sn = [], di_ConID = [], di_AuthKey = replicate 12 66\<rparr>"

definition demo_peer :: UDPAddr where "demo_peer = \<lparr>ua_IP = [9, 9, 9, 9], ua_Port = 5\<rparr>"

definition demo_reply :: bytes where
  "demo_reply = EncodePayload ([4, 2] @ replicate 14 0 @ addr_wire \<lparr>IP = [8, 8, 4, 4], Port = 4096\<rparr> @ replicate 12 0)"

definition demo_rounds :: "round list" where
  "demo_rounds = [(0, [(demo_reply, demo_peer)]), (5 * second, [(buildDirect 1 [1, 2, 3, 4, 5, 6, 7, 8] [], demo_peer)]),
     (6 * second, [(buildDirect 4 [1, 2, 3, 4, 5, 6, 7, 8] [], demo_peer)])]"

lemma demo_direct:
  assumes "st \<in> {1, 2, 4}"
  shows "isSessionPkt (buildDirect st [1, 2, 3, 4, 5, 6, 7, 8] [])" "length (buildDirect st [1, 2, 3, 4, 5, 6, 7, 8] []) = 52"
    "deviceState (buildDirect st [1, 2, 3, 4, 5, 6, 7, 8] []) = st"
proof -
  note S = buildDirect_wire [OF assms, of "[1, 2, 3, 4, 5, 6, 7, 8]" "[]"]
  then show "length (buildDirect st [1, 2, 3, 4, 5, 6, 7, 8] []) = 52"
    "deviceState (buildDirect st [1, 2, 3, 4, 5, 6, 7, 8] []) = st" by simp_all
  with S show "isSessionPkt (buildDirect st [1, 2, 3, 4, 5, 6, 7, 8] [])"
    by (simp add: isSessionPkt_def take2_eq)
qed

lemma v4_not_zero: "replicate 10 0 @ 255 # x \<noteq> replicate 16 (0 :: byte)"
proof
  assume "replicate 10 0 @ 255 # x = replicate 16 (0 :: byte)"
  then have "(replicate 10 0 @ 255 # x) ! 10 = replicate 16 (0 :: byte) ! 10" by simp
  then show False by (simp add: nth_append)
qed

lemma demo_offers: "offers c (demo_reply, from) \<noteq> {}" if "dc_masterHost c = None"
proof -
  let ?a = "\<lparr>IP = [8, 8, 4, 4], Port = 4096\<rparr>"
  let ?clear = "[4, 2] @ replicate 14 0 @ addr_wire ?a @ replicate 12 0"
  have len: "length demo_reply = 44" by (simp add: demo_reply_def cp.length_enc addr_wire_def)
  have dec: "DecodePayload (take 4096 demo_reply) = ?clear"
    using len by (simp add: demo_reply_def cp.dec_enc)
  have "?a \<in> set (ParseAddrRecords (drop 16 ?clear))"
    using addr_at_wire [of ?a "[]" "replicate 12 0"]
    unfolding ParseAddrRecords_firsts set_firsts set_candidates
    by (intro exI [of _ 0]) (simp add: usable_addr_def addr_wire_def)
  moreover have "usable c (resolve_record ?a)"
    using that v4_not_zero by (simp add: usable_def resolve_record_def masterIPs_def authMasters_def IsUnspecified_def IsPrivate_def
        To4_def ip_Equal_def v4InV6Prefix_def IPv4_def)
  moreover have "length ?clear = 44" by (simp add: addr_wire_def)
  ultimately show ?thesis unfolding offers_def Let_def fst_conv dec by auto
qed

lemma demo_collect:
  assumes "dc_masterHost c = None" "cand_inv c [] [] d"
  shows "\<exists>d'. round_loop (collect_round c) (3 * second) demo_rounds d = (d', None, tl demo_rounds) \<and> d_candSet d' \<noteq> [] \<and> sk_queue d' = []"
proof -
  let ?d = "sendKnock c 0 (sendPrecheck c 0 (sk_tick 0 [(demo_reply, demo_peer)] d))"
  have "cand_inv c [(demo_reply, demo_peer)] [] (sk_tick 0 [(demo_reply, demo_peer)] d)"
    using assms(2) by (simp add: cand_inv_def sk_tick_def)
  then have "cand_inv c [(demo_reply, demo_peer)] [] ?d" by simp
  then have q: "sk_queue ?d = [(demo_reply, demo_peer)]" by (simp add: cand_inv_def)
  then have "collect_round c 0 (sk_tick 0 [(demo_reply, demo_peer)] d) = (collect_packet c (take 4096 demo_reply) (?d\<lparr>sk_queue := []\<rparr>), None)"
    by (simp add: collect_round_def)
  then show ?thesis
    using demo_offers [OF assms(1), of demo_peer] collect_packet_cands [of c demo_reply "?d\<lparr>sk_queue := []\<rparr>" demo_peer]
    by (auto simp: demo_rounds_def second_def)
qed

lemma sends_queue [simp]:
  "sk_queue (fold (sk_send now p) as d) = sk_queue d"
  "sk_queue (sendKnock c now d) = sk_queue d" "sk_queue (sendPrecheck c now d) = sk_queue d"
proof -
  show *: "sk_queue (fold (sk_send now p) as d) = sk_queue d" for p as d by (induction as arbitrary: d) simp_all
  show "sk_queue (sendKnock c now d) = sk_queue d" "sk_queue (sendPrecheck c now d) = sk_queue d"
    by (simp_all add: sendKnock_def sendPrecheck_def *)
qed

lemma read_one:
  "sk_queue d = [x] \<Longrightarrow> h x d = (d', Some r) \<Longrightarrow> read_all h d = (d'\<lparr>sk_queue := []\<rparr>, Some r)"
  by (simp add: read_all_def)

lemma demo_connect:
  assumes "sk_queue d = []"
  shows "\<exists>d' s. dial_connect c (tl demo_rounds) d = (d', Inr s) \<and> s_dev s = demo_peer"
proof -
  have p: "\<exists>d1. round_loop (punch_round c) (15 * second) (tl demo_rounds) d = (d1, Some demo_peer, tl (tl demo_rounds)) \<and> sk_queue d1 = []"
    using assms demo_direct [of 1]
    by (auto simp: demo_rounds_def second_def punch_round_def punch_read_def Let_def read_one demo_peer_def IOTCHeaderLen_def)
  then obtain d1 where d1: "round_loop (punch_round c) (15 * second) (tl demo_rounds) d = (d1, Some demo_peer, tl (tl demo_rounds))"
    "sk_queue d1 = []" by blast
  have "\<exists>d2. round_loop (advance_round c demo_peer) (14 * second) (tl (tl demo_rounds)) d1 = (d2, Some (), [])"
    using d1(2) demo_direct [of 4]
    by (auto simp: demo_rounds_def second_def advance_round_def advance_read_def Let_def read_one demo_peer_def IOTCHeaderLen_def
        sameHost_def deviceConnState_def)
  then obtain d2 where d2: "round_loop (advance_round c demo_peer) (14 * second) (tl (tl demo_rounds)) d1 = (d2, Some (), [])" by blast
  have ck: "clock (tl demo_rounds) d = 5 * second" "clock (tl (tl demo_rounds)) d1 = 6 * second"
    by (simp_all add: clock_def demo_rounds_def)
  show ?thesis
    using d1(1) d2 by (simp add: dial_connect_def ck second_def Let_def new_session_def case_prod_unfold)
qed

theorem dial_session_sound_witness:
  "\<exists>d s. Dial demo_pub (\<lambda>_ _ _ _. []) (\<lambda>_ _ _ _. None) demo_env (Some demo_peer) None True demo_dev demo_rounds = (d, Inr s) \<and>
     s_dev s = demo_peer \<and> punched (arrivals demo_rounds) (s_dev s) \<and> s_pcOpen s"
proof -
  obtain w where w: "fst (BuildPrecheck0201Ex demo_pub (di_UID demo_dev) (di_AuthKey demo_dev) (de_sid demo_env)
      (de_sessKey demo_env) (de_nonce demo_env)) = Inr w"
    by (auto simp: BuildPrecheck0201Ex_def BuildPrecheck0201Fixed_def credentialTail_def BuildAuthBlobFixed_def
        rsaEncrypt_def rawRSA_def demo_dev_def demo_env_def tailSuffix_def Let_def)
  let ?c = "dial_cfg_of demo_env demo_dev demo_peer None w"
  let ?d = "sendPrecheck ?c 0 dial_init"
  have "cand_inv ?c [] [] dial_init" by (simp add: cand_inv_def dial_init_def)
  then have "cand_inv ?c [] [] ?d" by simp
  from demo_collect [OF _ this] obtain d1 where d1: "round_loop (collect_round ?c) (3 * second) demo_rounds ?d = (d1, None, tl demo_rounds)"
    "d_candSet d1 \<noteq> []" "sk_queue d1 = []" by (auto simp: dial_cfg_of_def Let_def)
  let ?d1 = "d1\<lparr>d_cands := d_candSet d1\<rparr>"
  obtain d2 s where c: "dial_connect ?c (tl demo_rounds) ?d1 = (d2, Inr s)" "s_dev s = demo_peer"
    using demo_connect [of ?d1 ?c] d1(3) by auto
  have "relay_phase (\<lambda>_ _ _ _. []) (\<lambda>_ _ _ _. None) demo_env demo_dev (tl demo_rounds) ?d1 = Some (?d1, tl demo_rounds)"
    by (simp add: relay_phase_def DecodeReply_def split: option.splits)
  then have run: "Dial demo_pub (\<lambda>_ _ _ _. []) (\<lambda>_ _ _ _. None) demo_env (Some demo_peer) None True demo_dev demo_rounds = (d2, Inr s)"
    using w d1 c by (simp add: Dial_def dial_rendezvous_def clock_def demo_rounds_def demo_env_def Let_def)
  then show ?thesis
    using dial_session_sound [OF _ run] c(2) by (auto simp: gcm_len_def)
qed

text \<open>
  C26. The rendezvous loop collects exactly the usable addresses and cannot be flooded. Starting with no
  candidate, after the loop the candidates are, without repetition, the public non-master
  addresses offered by the datagrams read, which are the first ones that arrived; and
  however many datagrams arrive within its three seconds, it sends at most twelve knocks and
  twelve rounds of prechecks to the five masters, 72 datagrams in all.
\<close>

theorem rendezvous_collects:
  assumes "d_candSet d = []" "sk_queue d = []" "sorted (map fst rs)"
    "round_loop (collect_round c) (clock rs d + 3 * second) rs d = (d', r, rs')"
  shows "(\<exists>pre reads. rs = pre @ rs' \<and> concat (map snd pre) = reads @ sk_queue d' \<and>
      distinct (d_candSet d') \<and> set (d_candSet d') = (\<Union>x\<in>set reads. offers c x)) \<and>
    length (sk_out d') \<le> length (sk_out d) + 72"
proof -
  have "cand_inv c [] [] d" using assms(1,2) by (simp add: cand_inv_def)
  from collect_loop_cands [OF this assms(4)] obtain pre reads
    where c: "rs = pre @ rs'" "cand_inv c (concat (map snd pre)) reads d'" by auto
  have "length (sk_out d') \<le> length (sk_out d) + 72"
  proof (cases rs)
    case Nil
    then show ?thesis using assms(4) by simp
  next
    case (Cons e rs1)
    let ?t = "clock rs d"
    have t: "sorted (?t # map fst rs)" using assms(3) Cons by (cases e) (simp add: clock_def)
    have "paced (length (sk_out d)) ?t ?t d" by (auto simp: paced_def spaced_def intro!: exI [of _ 0])
    from paced_loop [OF this order_refl _ t assms(4)] obtain u where "u < ?t + 3 * second" "paced (length (sk_out d)) ?t u d'"
      by (auto simp: second_def)
    then obtain k p where kp: "length (sk_out d') = length (sk_out d) + k + length authMasters * p"
      "k \<le> 12" "p \<le> 12" by (auto simp: paced_def dest: spaced_bound)
    have "length authMasters = 5" by (simp add: authMasters_def)
    then show ?thesis using kp by simp
  qed
  then show ?thesis using c by (auto simp: cand_inv_def)
qed

theorem rendezvous_collects_witness:
  "length (sk_out (fst (round_loop (collect_round (dial_cfg_of demo_env demo_dev demo_peer None [])) (3 * second)
     [(0, []), (second, [])] dial_init))) \<le> 72"
proof -
  let ?c = "dial_cfg_of demo_env demo_dev demo_peer None []"
  obtain d r rs where l: "round_loop (collect_round ?c) (3 * second) [(0, []), (second, [])] dial_init = (d, r, rs)"
    by (rule prod_cases3)
  then have "round_loop (collect_round ?c) (clock [(0, []), (second, [])] dial_init + 3 * second) [(0, []), (second, [])] dial_init = (d, r, rs)"
    by (simp add: clock_def)
  from rendezvous_collects [OF _ _ _ this] have "length (sk_out d) \<le> 72"
    by (simp add: dial_init_def second_def)
  then show ?thesis unfolding l by simp
qed

end
