(* ===== verification/Handshake.thy ===== *)
theory Handshake
  imports Tunnel_Inv Dial_Session
begin

unbundle bit_operations_syntax

text \<open>
  \<open>OpenTunnel\<close> of \<open>kalay/tunnelconn.go\<close>: the DTLS 1.2 ECDHE-PSK handshake over an established session,
  then the tunnel set-up of theory \<open>Tunnelconn\<close>.

  \<^item> The cryptography of the Go library is the record \<open>crypto\<close>: HMAC and SHA-256, X25519 (a private key's
    public key, and the shared secret with a peer key, \<open>None\<close> when the library rejects it) and
    ChaCha20-Poly1305 by key.
  \<^item> The two waiting loops read through \<open>ReadFrom\<close> of the session. An iteration takes the clock, whether a
    socket write succeeds, and the datagrams that arrive; what \<open>ReadFrom\<close> leaves unread is queued.
  \<^item> \<open>PRF\<close> is an option because of its loop; so is the result here, with \<open>None\<close> for a call that does not return.
  \<^item> A slice \<open>s[a:b]\<close> of Go may reach beyond the length of \<open>s\<close> up to its capacity and sees zeros there.
    \<open>ServerHello\<close> is sliced like that; the capacity \<open>append\<close> gives to \<open>n\<close> fresh bytes is the argument \<open>capOf\<close>.
\<close>

section \<open>Types\<close>

datatype hs_error =
    HelloTooShort
  | DialError dial_error
  | IncompleteFlight bool bool bool
  | MalformedSKE
  | MalformedSKEPub
  | BadServerKey
  | NoServerFinished
  | SetupError tun_error
  | SlicePanic

record crypto =
  cr_hmac :: hmac
  cr_sha :: "bytes \<Rightarrow> bytes"
  cr_pub :: "bytes \<Rightarrow> bytes"
  cr_ecdh :: "bytes \<Rightarrow> bytes \<Rightarrow> bytes option"
  cr_seal :: "bytes \<Rightarrow> sealer"
  cr_open :: "bytes \<Rightarrow> opener"

record TunnelConfig =
  tc_PSK :: bytes
  tc_Identity :: bytes
  tc_ClientHelloRecord :: bytes
  tc_Port :: int
  tc_Device :: DeviceIdentity

type_synonym arrival = "bytes \<times> UDPAddr \<times> int"

section \<open>Flight 1\<close>

record flight =
  fl_sh :: "bytes option"
  fl_ske :: "bytes option"
  fl_shd :: "bytes option"

definition no_flight :: flight where "no_flight = \<lparr>fl_sh = None, fl_ske = None, fl_shd = None\<rparr>"

definition flight_record :: "DTLSRecord \<Rightarrow> flight \<Rightarrow> flight" where
  "flight_record r f =
     (if dr_CT r \<noteq> 0x16 \<or> length (dr_Body r) < 1 then f
      else if dr_Body r ! 0 = 2 then f\<lparr>fl_sh := Some (dr_Body r)\<rparr>
      else if dr_Body r ! 0 = 12 then f\<lparr>fl_ske := Some (dr_Body r)\<rparr>
      else if dr_Body r ! 0 = 14 then f\<lparr>fl_shd := Some (dr_Body r)\<rparr>
      else f)"

definition incomplete :: "flight \<Rightarrow> bool" where
  "incomplete f \<longleftrightarrow> fl_sh f = None \<or> fl_ske f = None \<or> fl_shd f = None"

record hs_state =
  hs_sess :: Session
  hs_queue :: "arrival list"
  hs_flight :: flight
  hs_sends :: u64

text \<open>A retransmitted ClientHello carries the iteration count as its record number.\<close>

definition send_hello :: "bytes \<Rightarrow> bool \<Rightarrow> hs_state \<Rightarrow> hs_state" where
  "send_hello chRecord wok h =
     (if hs_sends h = 0 \<or> hs_sends h mod 8 = 0 then
        (case PutDTLSSeq chRecord (hs_sends h) of
           Some ch \<Rightarrow> h\<lparr>hs_sess := fst (WriteTo wok ch (hs_sess h))\<rparr>
         | None \<Rightarrow> h)
      else h)"

definition read_sess :: "arrival list \<Rightarrow> hs_state \<Rightarrow> hs_state \<times> bytes option" where
  "read_sess arr h =
     (let (s, d, q) = ReadFrom 65536 (hs_queue h @ arr) (hs_sess h)
      in (h\<lparr>hs_sess := s, hs_queue := q\<rparr>, d))"

definition flight_step :: "bytes \<Rightarrow> bool \<Rightarrow> arrival list \<Rightarrow> hs_state \<Rightarrow> hs_state" where
  "flight_step chRecord wok arr h =
     (let (h, d) = read_sess arr (send_hello chRecord wok h);
          h = (case d of
                 None \<Rightarrow> h
               | Some b \<Rightarrow> h\<lparr>hs_flight := fold flight_record (ParseDTLSRecords b) (hs_flight h)\<rparr>)
      in h\<lparr>hs_sends := hs_sends h + 1\<rparr>)"

fun flight_loop :: "bytes \<Rightarrow> int \<Rightarrow> (int \<times> bool \<times> arrival list) list \<Rightarrow> hs_state \<Rightarrow> hs_state" where
  "flight_loop chRecord deadline [] h = h"
| "flight_loop chRecord deadline ((now, wok, arr) # its) h =
     (if now < deadline \<and> incomplete (hs_flight h)
      then flight_loop chRecord deadline its (flight_step chRecord wok arr h) else h)"

section \<open>Keys\<close>

definition parse_SKE :: "bytes \<Rightarrow> hs_error + bytes" where
  "parse_SKE ske =
     (if length ske < 14 then Inl SlicePanic
      else
        let sb = drop 12 ske;
            hintLen = be16_at sb 0;
            p = 2 + hintLen
        in if p + 4 > length sb then Inl MalformedSKE
           else let pkLen = unat (sb ! (p + 3))
                in if p + 4 + pkLen > length sb then Inl MalformedSKEPub
                   else Inr (take pkLen (drop (p + 4) sb)))"

definition server_random :: "(nat \<Rightarrow> nat) \<Rightarrow> bytes \<Rightarrow> bytes option" where
  "server_random capOf sh =
     (if 46 > capOf (length sh) then None
      else Some (take 32 (drop 14 (sh @ replicate (capOf (length sh) - length sh) 0))))"

definition premaster :: "bytes \<Rightarrow> bytes \<Rightarrow> bytes" where
  "premaster z psk = [hi_byte (length z), lo_byte (length z)] @ z
     @ [hi_byte (length psk), lo_byte (length psk)] @ psk"

definition cke_body :: "bytes \<Rightarrow> bytes \<Rightarrow> bytes" where
  "cke_body identity pub = [hi_byte (length identity), lo_byte (length identity)] @ identity
     @ [lo_byte (length pub)] @ pub"

definition cke_msg :: "bytes \<Rightarrow> bytes \<Rightarrow> bytes" where
  "cke_msg identity pub = DTLSHandshakeMsg 16 1 (cke_body identity pub)"

record keys =
  k_master :: bytes
  k_client :: bytes
  k_server :: bytes
  k_clientIV :: bytes
  k_serverIV :: bytes

definition master_secret :: "hmac \<Rightarrow> bytes \<Rightarrow> bool \<Rightarrow> bytes \<Rightarrow> bytes \<Rightarrow> bytes \<Rightarrow> bytes option" where
  "master_secret h pms ext sessionHash clientRandom serverRandom =
     (if ext then PRF h pms ''extended master secret'' sessionHash 48
      else PRF h pms ''master secret'' (clientRandom @ serverRandom) 48)"

definition key_block :: "hmac \<Rightarrow> bytes \<Rightarrow> bytes \<Rightarrow> bytes \<Rightarrow> keys option" where
  "key_block h ms clientRandom serverRandom =
     Option.bind (PRF h ms ''key expansion'' (serverRandom @ clientRandom) 88)
       (\<lambda>kb. Some \<lparr>k_master = ms, k_client = take 32 kb, k_server = take 32 (drop 32 kb),
                   k_clientIV = take 12 (drop 64 kb), k_serverIV = take 12 (drop 76 kb)\<rparr>)"

section \<open>Flight 2\<close>

definition finished_msg :: "hmac \<Rightarrow> bytes \<Rightarrow> bytes \<Rightarrow> bytes option" where
  "finished_msg h ms sessionHash =
     map_option (DTLSHandshakeMsg 20 2) (PRF h ms ''client finished'' sessionHash 12)"

definition client_flight :: "crypto \<Rightarrow> keys \<Rightarrow> bytes \<Rightarrow> bytes \<Rightarrow> bytes" where
  "client_flight cr k cke fin =
     DTLSRecordRaw 0x16 0 1 cke @ DTLSRecordRaw 0x14 0 2 [0x01]
       @ DTLSRecordRaw 0x16 1 0 (Seal (cr_seal cr (k_client k)) (k_clientIV k) 1 0 0x16 fin)"

definition is_finished :: "crypto \<Rightarrow> keys \<Rightarrow> DTLSRecord \<Rightarrow> bool" where
  "is_finished cr k r \<longleftrightarrow> dr_Epoch r = 1 \<and> dr_CT r = 0x16 \<and>
     Open (cr_open cr (k_server k)) (k_serverIV k) (dr_Epoch r) (dr_Seq r) (dr_CT r) (dr_Body r) \<noteq> None"

fun finish_loop :: "crypto \<Rightarrow> keys \<Rightarrow> int \<Rightarrow> (int \<times> arrival list) list \<Rightarrow> hs_state \<Rightarrow> hs_state \<times> bool" where
  "finish_loop cr k deadline [] h = (h, False)"
| "finish_loop cr k deadline ((now, arr) # its) h =
     (if now < deadline then
        (case read_sess arr h of
           (h, None) \<Rightarrow> finish_loop cr k deadline its h
         | (h, Some b) \<Rightarrow>
             if list_ex (is_finished cr k) (ParseDTLSRecords b) then (h, True)
             else finish_loop cr k deadline its h)
      else (h, False))"

section \<open>OpenTunnel\<close>

text \<open>What each waiting loop sees: its start time and its iterations.\<close>

record hs_world =
  w_flight :: "int \<times> (int \<times> bool \<times> arrival list) list"
  w_write :: bool
  w_finish :: "int \<times> (int \<times> arrival list) list"
  w_setup :: "int \<times> (int \<times> bytes list) list"

definition handshake_keys ::
  "crypto \<Rightarrow> (nat \<Rightarrow> nat) \<Rightarrow> TunnelConfig \<Rightarrow> bytes \<Rightarrow> flight \<Rightarrow> (hs_error + keys \<times> bytes \<times> bytes) option" where
  "handshake_keys cr capOf cfg myPriv f =
     (let chMsg = drop 13 (tc_ClientHelloRecord cfg);
          clientRandom = take 32 (drop 14 chMsg);
          sh = the (fl_sh f); ske = the (fl_ske f); shd = the (fl_shd f)
      in case server_random capOf sh of
           None \<Rightarrow> Some (Inl SlicePanic)
         | Some serverRandom \<Rightarrow>
             (case parse_SKE ske of
                Inl e \<Rightarrow> Some (Inl e)
              | Inr serverPub \<Rightarrow>
                  (case cr_ecdh cr myPriv serverPub of
                     None \<Rightarrow> Some (Inl BadServerKey)
                   | Some z \<Rightarrow>
                       let pms = premaster z (tc_PSK cfg);
                           cke = cke_msg (tc_Identity cfg) (cr_pub cr myPriv);
                           sessionHash = cr_sha cr (chMsg @ sh @ ske @ shd @ cke)
                       in Option.bind (master_secret (cr_hmac cr) pms (serverHelloHasExt (drop 12 sh) 0x0017)
                              sessionHash clientRandom serverRandom)
                            (\<lambda>ms. Option.bind (key_block (cr_hmac cr) ms clientRandom serverRandom)
                               (\<lambda>k. Option.bind (finished_msg (cr_hmac cr) ms sessionHash)
                                  (\<lambda>fin. Some (Inr (k, cke, client_flight cr k cke fin))))))))"

definition closed_with :: "hs_error \<Rightarrow> Session \<Rightarrow> Session \<times> (hs_error + Tunnel \<times> keys)" where
  "closed_with e s = (Session_Close s, Inl e)"

definition handshake ::
  "crypto \<Rightarrow> (nat \<Rightarrow> nat) \<Rightarrow> TunnelConfig \<Rightarrow> bytes \<Rightarrow> hs_world \<Rightarrow> Session \<Rightarrow> (Session \<times> (hs_error + Tunnel \<times> keys)) option" where
  "handshake cr capOf cfg myPriv w sess =
     (let h = flight_loop (tc_ClientHelloRecord cfg) (fst (w_flight w) + 10 * second) (snd (w_flight w))
                \<lparr>hs_sess = sess, hs_queue = [], hs_flight = no_flight, hs_sends = 0\<rparr>;
          f = hs_flight h
      in if incomplete f
         then Some (closed_with (IncompleteFlight (fl_sh f \<noteq> None) (fl_ske f \<noteq> None) (fl_shd f \<noteq> None)) (hs_sess h))
         else Option.bind (handshake_keys cr capOf cfg myPriv f) (\<lambda>r.
           case r of
             Inl e \<Rightarrow> Some (closed_with e (hs_sess h))
           | Inr (k, cke, fl) \<Rightarrow>
               let h = h\<lparr>hs_sess := fst (WriteTo (w_write w) fl (hs_sess h))\<rparr>;
                   (h, got) = finish_loop cr k (fst (w_finish w) + 6 * second) (snd (w_finish w)) h
               in if \<not> got then Some (closed_with NoServerFinished (hs_sess h))
                  else
                    let batches = map (\<lambda>(now, ds). (now, readRDT (cr_open cr (k_server k)) (k_serverIV k) ds)) (snd (w_setup w))
                    in case setup_tunnel (fst (w_setup w)) (tc_Port cfg) batches newTunnel of
                         Inl e \<Rightarrow> Some (closed_with (SetupError e) (hs_sess h))
                       | Inr t \<Rightarrow> Some (hs_sess h, Inr (t, k))))"

text \<open>The outcome: the session, if \<open>Dial\<close> gave one, and the tunnel with its keys or the error.\<close>

definition OpenTunnel ::
  "crypto \<Rightarrow> (nat \<Rightarrow> nat) \<Rightarrow> TunnelConfig \<Rightarrow> (dial_error + Session) \<Rightarrow> bytes \<Rightarrow> hs_world \<Rightarrow>
     (Session option \<times> (hs_error + Tunnel \<times> keys)) option" where
  "OpenTunnel cr capOf cfg dialled myPriv w =
     (if length (tc_ClientHelloRecord cfg) < 13 + 13 + 2 + 32 then Some (None, Inl HelloTooShort)
      else case dialled of
             Inl e \<Rightarrow> Some (None, Inl (DialError e))
           | Inr sess \<Rightarrow> map_option (\<lambda>(s, r). (Some s, r)) (handshake cr capOf cfg myPriv w sess))"

section \<open>The server's side\<close>

text \<open>
  A reference for the peer, after RFC 5489 and RFC 5246: the ServerKeyExchange it sends, how it reads the
  ClientKeyExchange, and the keys it derives from its own private key and the same messages.
\<close>

definition ske_msg :: "bytes \<Rightarrow> bytes \<Rightarrow> bytes" where
  "ske_msg hint pub = DTLSHandshakeMsg 12 1
     ([hi_byte (length hint), lo_byte (length hint)] @ hint @ [0x03, 0x00, 0x1d, lo_byte (length pub)] @ pub)"

definition srv_parse_cke :: "bytes \<Rightarrow> bytes \<times> bytes" where
  "srv_parse_cke cke =
     (let b = drop 12 cke; n = be16_at b 0
      in (take n (drop 2 b), take (unat (b ! (2 + n))) (drop (3 + n) b)))"

definition srv_keys :: "crypto \<Rightarrow> bytes \<Rightarrow> bytes \<Rightarrow> bytes \<Rightarrow> bytes \<Rightarrow> bytes \<Rightarrow> bytes \<Rightarrow> bytes \<Rightarrow> keys option" where
  "srv_keys cr psk b chMsg sh ske shd cke =
     Option.bind (cr_ecdh cr b (snd (srv_parse_cke cke))) (\<lambda>z.
       let hash = cr_sha cr (chMsg @ sh @ ske @ shd @ cke);
           cl = take 32 (drop 14 chMsg); sv = take 32 (drop 14 sh)
       in Option.bind (master_secret (cr_hmac cr) (premaster z psk) (serverHelloHasExt (drop 12 sh) 0x0017) hash cl sv)
            (\<lambda>ms. key_block (cr_hmac cr) ms cl sv))"

text \<open>The server accepts a flight whose three records are the key exchange, the change of cipher and a
  Finished that opens under the client's key and carries the PRF of the transcript.\<close>

definition srv_accepts :: "crypto \<Rightarrow> keys \<Rightarrow> bytes \<Rightarrow> bytes \<Rightarrow> bytes \<Rightarrow> bool" where
  "srv_accepts cr k hash cke fl \<longleftrightarrow>
     (case ParseDTLSRecords fl of
        [r1, r2, r3] \<Rightarrow> dr_Body r1 = cke \<and> dr_CT r2 = 0x14 \<and> dr_Epoch r3 = 1 \<and>
          Open (cr_open cr (k_client k)) (k_clientIV k) (dr_Epoch r3) (dr_Seq r3) (dr_CT r3) (dr_Body r3) =
            finished_msg (cr_hmac cr) (k_master k) hash \<and> finished_msg (cr_hmac cr) (k_master k) hash \<noteq> None
      | _ \<Rightarrow> False)"

lemma drop_handshake [simp]: "drop 12 (DTLSHandshakeMsg ty sq body) = body"
  by (simp add: DTLSHandshakeMsg_def Let_def)

lemma unat_u16_pair: "unat (ucast lo OR push_bit 8 (ucast hi) :: u16) = int16_of lo hi"
proof -
  have "unat lo < 2 ^ 16" "push_bit 8 (unat hi) < 2 ^ 16" "unat hi < 2 ^ 16"
    using byte_less [of lo] byte_less [of hi] by (simp_all add: push_bit_eq_mult)
  then show ?thesis
    by (simp add: int16_of_def unsigned_or_eq unsigned_push_bit_eq unsigned_ucast_eq take_bit_nat_eq_self)
qed

lemma be16_at_prefix: "n < 65536 \<Longrightarrow> be16_at ([hi_byte n, lo_byte n] @ x) 0 = n"
  by (simp add: be16_at_def be_word_def unat_u16_pair)

lemma parse_SKE_msg:
  assumes "length hint < 65536" "length pub < 256"
  shows "parse_SKE (ske_msg hint pub) = Inr pub"
proof -
  let ?b = "[hi_byte (length hint), lo_byte (length hint)] @ hint @ [0x03, 0x00, 0x1d, lo_byte (length pub)] @ pub"
  have d: "drop 12 (ske_msg hint pub) = ?b" by (simp add: ske_msg_def)
  have l: "length (ske_msg hint pub) = 12 + length ?b" by (simp add: ske_msg_def wire_len)
  have h: "be16_at ?b 0 = length hint" by (rule be16_at_prefix [OF assms(1)])
  have n: "?b ! (2 + length hint + 3) = lo_byte (length pub)" by (simp add: nth_append)
  have u: "unat (lo_byte (length pub)) = length pub" using assms(2) by (simp add: lo_byte_def unat_of_nat)
  show ?thesis
    unfolding parse_SKE_def Let_def d h n u using l by (simp add: drop_Cons')
qed

lemma srv_parse_cke_msg:
  assumes "length identity < 65536" "length pub < 256"
  shows "srv_parse_cke (cke_msg identity pub) = (identity, pub)"
proof -
  let ?b = "[hi_byte (length identity), lo_byte (length identity)] @ identity @ [lo_byte (length pub)] @ pub"
  have h: "be16_at ?b 0 = length identity" by (rule be16_at_prefix [OF assms(1)])
  have "unat (lo_byte (length pub)) = length pub" using assms(2) by (simp add: lo_byte_def unat_of_nat)
  then show ?thesis
    unfolding srv_parse_cke_def cke_msg_def cke_body_def drop_handshake Let_def h by (simp add: nth_append drop_Cons')
qed

lemma PRF_total: "hmac32 h \<Longrightarrow> \<exists>out. PRF h secret label seed n = Some out \<and> length out = n"
proof -
  assume h: "hmac32 h"
  have "n \<le> 32 * ((n + 31) div 32)" by linarith
  then show ?thesis using PHash_stream [OF h, of n "(n + 31) div 32"] by (simp add: PRF_def length_prf_stream [OF h])
qed

lemma keys_total:
  assumes "hmac32 h"
  shows "\<exists>ms k fin. master_secret h pms ext hash cl sv = Some ms \<and> key_block h ms cl sv = Some k \<and> k_master k = ms \<and>
    finished_msg h ms hash = Some fin \<and> length fin = 24"
proof -
  obtain ms where m: "master_secret h pms ext hash cl sv = Some ms"
    using PRF_total [OF assms, of pms "''extended master secret''" hash 48]
      PRF_total [OF assms, of pms "''master secret''" "cl @ sv" 48] by (cases ext) (auto simp: master_secret_def)
  obtain kb where "PRF h ms ''key expansion'' (sv @ cl) 88 = Some kb" using PRF_total [OF assms] by blast
  moreover obtain v where "PRF h ms ''client finished'' hash 12 = Some v" "length v = 12" using PRF_total [OF assms] by blast
  ultimately show ?thesis using m by (simp add: key_block_def finished_msg_def wire_len)
qed

lemma client_flight_parse:
  assumes "aead_ok (cr_seal cr (k_client k)) (cr_open cr (k_client k))" "length cke < 65000" "length fin = 24"
  shows "ParseDTLSRecords (client_flight cr k cke fin) =
    [\<lparr>dr_CT = 0x16, dr_Epoch = 0, dr_Seq = 1, dr_Body = cke\<rparr>, \<lparr>dr_CT = 0x14, dr_Epoch = 0, dr_Seq = 2, dr_Body = [1]\<rparr>,
     \<lparr>dr_CT = 0x16, dr_Epoch = 1, dr_Seq = 0, dr_Body = Seal (cr_seal cr (k_client k)) (k_clientIV k) 1 0 0x16 fin\<rparr>]"
    (is "_ = ?rs")
proof -
  have "list_all valid_record ?rs"
    using assms(2,3) by (simp add: valid_record_def length_Seal [OF assms(1)])
  from dtls.parse_concat [OF this] show ?thesis by (simp add: client_flight_def record_wire_def)
qed

section \<open>Failure closes the session\<close>

lemma ReadFrom_keeps:
  "s_pcOpen (fst (ReadFrom n ins s)) = s_pcOpen s \<and> s_stopped (fst (ReadFrom n ins s)) = s_stopped s"
proof (induction ins arbitrary: s)
  case (Cons x ins)
  obtain u where "s_pcOpen u = s_pcOpen s" "s_stopped u = s_stopped s" "ReadFrom n (x # ins) s =
      (if is_data_from (s_dev s) x then (u, Some (take n (drop 28 (DecodePayloadData (fst x)))), ins) else ReadFrom n ins u)"
    using ReadFrom_step by blast
  then show ?case using Cons [of u] by simp
qed simp

definition live :: "hs_state \<Rightarrow> bool" where
  "live h \<longleftrightarrow> s_pcOpen (hs_sess h) \<and> \<not> s_stopped (hs_sess h)"

lemma WriteTo_keeps [simp]:
  "s_pcOpen (fst (WriteTo ok b s)) = s_pcOpen s" "s_stopped (fst (WriteTo ok b s)) = s_stopped s"
  by (simp_all add: WriteTo_def emit_def)

lemma live_read: "live (fst (read_sess arr h)) = live h"
  using ReadFrom_keeps [of 65536 "hs_queue h @ arr" "hs_sess h"]
  by (simp add: read_sess_def live_def case_prod_unfold Let_def)

lemma live_flight_step: "live (flight_step ch wok arr h) = live h"
proof -
  have "live (send_hello ch wok h) = live h" by (simp add: send_hello_def live_def split: option.splits)
  then have "live (fst (read_sess arr (send_hello ch wok h))) = live h" by (simp add: live_read)
  then show ?thesis
    by (cases "read_sess arr (send_hello ch wok h)") (simp add: flight_step_def live_def split: option.splits)
qed

lemma live_flight_loop: "live (flight_loop ch dl its h) = live h"
  by (induction ch dl its h rule: flight_loop.induct) (simp_all add: live_flight_step)

lemma live_finish_loop: "live (fst (finish_loop cr k dl its h)) = live h"
proof (induction cr k dl its h rule: finish_loop.induct)
  case (2 cr k dl now arr its h)
  obtain h1 d where r: "read_sess arr h = (h1, d)" by fastforce
  then have "live h1 = live h" using live_read [of arr h] by simp
  then show ?case using 2 r by (cases d) simp_all
qed simp

definition hs_outcome :: "Session \<times> (hs_error + Tunnel \<times> keys) \<Rightarrow> bool" where
  "hs_outcome res = (case res of
      (s, Inl e) \<Rightarrow> \<not> s_pcOpen s \<and> s_stopped s
    | (s, Inr (t, k)) \<Rightarrow> s_pcOpen s \<and> \<not> s_stopped s \<and> fresh t \<and> txSeq t = 3)"

lemma hs_outcome_closed [simp]: "hs_outcome (closed_with e s)"
  by (simp add: hs_outcome_def closed_with_def Session_Close_def)

lemma handshake_outcome:
  assumes "s_pcOpen sess" "\<not> s_stopped sess" "handshake cr capOf cfg p w sess = Some res"
  shows "hs_outcome res"
proof -
  define h where "h = flight_loop (tc_ClientHelloRecord cfg) (fst (w_flight w) + 10 * second) (snd (w_flight w))
      \<lparr>hs_sess = sess, hs_queue = [], hs_flight = no_flight, hs_sends = 0\<rparr>"
  have l: "live h" using assms(1,2) by (simp add: h_def live_flight_loop) (simp add: live_def)
  show ?thesis
  proof (cases "incomplete (hs_flight h)")
    case True
    then show ?thesis using assms(3) by (auto simp: handshake_def h_def Let_def)
  next
    case False
    then obtain r where r: "handshake_keys cr capOf cfg p (hs_flight h) = Some r"
      using assms(3) by (auto simp: handshake_def h_def Let_def bind_eq_Some_conv)
    show ?thesis
    proof (cases r)
      case (Inl e)
      then show ?thesis using assms(3) False r by (auto simp: handshake_def h_def Let_def)
    next
      case (Inr x)
      obtain k cke fl where x: "x = (k, cke, fl)" by (rule prod_cases3)
      define h1 where "h1 = h\<lparr>hs_sess := fst (WriteTo (w_write w) fl (hs_sess h))\<rparr>"
      obtain h2 got where f: "finish_loop cr k (fst (w_finish w) + 6 * second) (snd (w_finish w)) h1 = (h2, got)" by fastforce
      have "live h1" using l by (simp add: h1_def live_def)
      then have l2: "live h2" using live_finish_loop [of cr k "fst (w_finish w) + 6 * second" "snd (w_finish w)" h1] f by simp
      let ?bs = "map (\<lambda>(now, ds). (now, readRDT (cr_open cr (k_server k)) (k_serverIV k) ds)) (snd (w_setup w))"
      have res: "Some res = (if \<not> got then Some (closed_with NoServerFinished (hs_sess h2))
          else case setup_tunnel (fst (w_setup w)) (tc_Port cfg) ?bs newTunnel of
            Inl e \<Rightarrow> Some (closed_with (SetupError e) (hs_sess h2)) | Inr t \<Rightarrow> Some (hs_sess h2, Inr (t, k)))"
        using assms(3) False r Inr x f
        by (auto simp: handshake_def h_def [symmetric] h1_def [symmetric] Let_def split: if_splits)
      then show ?thesis
        using l2 fresh_setup [of "fst (w_setup w)" "tc_Port cfg" ?bs]
        by (auto simp: hs_outcome_def live_def closed_with_def Session_Close_def split: if_splits sum.splits)
    qed
  qed
qed

section \<open>Properties\<close>


definition toy_crypto :: crypto where
  "toy_crypto = \<lparr>cr_hmac = toy_hmac, cr_sha = (\<lambda>m. replicate 32 (word_of_nat (length m))), cr_pub = (\<lambda>x. x),
     cr_ecdh = (\<lambda>a b. Some (map2 (XOR) a b)), cr_seal = (\<lambda>_. toy_seal), cr_open = (\<lambda>_. toy_open)\<rparr>"

definition toy_flight :: flight where
  "toy_flight = \<lparr>fl_sh = Some (replicate 46 2), fl_ske = Some (ske_msg [] [7, 8]), fl_shd = Some [14]\<rparr>"

definition toy_cfg :: TunnelConfig where
  "toy_cfg = \<lparr>tc_PSK = [1, 2], tc_Identity = [3], tc_ClientHelloRecord = replicate 60 5, tc_Port = 4700, tc_Device = demo_dev\<rparr>"

lemma toy_crypto_ok: "hmac32 (cr_hmac toy_crypto)" "\<forall>key. aead_ok (cr_seal toy_crypto key) (cr_open toy_crypto key)"
  by (simp_all add: toy_crypto_def hmac32_def toy_hmac_def aead_ok_def toy_seal_def toy_open_def comp_def)


text \<open>
  C28. \<open>OpenTunnel\<close> leaves no session behind: when it fails after \<open>Dial\<close>, whatever the cause, the
  session is closed and its keepalive stopped; when it succeeds the session is live, the next
  reliable sequence number is 3, and the pump starts in a state that satisfies the tunnel
  invariant.
\<close>

theorem open_tunnel_outcome:
  assumes "s_pcOpen sess" "\<not> s_stopped sess" "OpenTunnel cr capOf cfg (Inr sess) myPriv w = Some (os, r)" "os = Some s"
  shows "case r of Inl e \<Rightarrow> \<not> s_pcOpen s \<and> s_stopped s
     | Inr (t, k) \<Rightarrow> s_pcOpen s \<and> \<not> s_stopped s \<and> txSeq t = 3 \<and> tun_inv (pump_init now t)"
proof -
  obtain res where "handshake cr capOf cfg myPriv w sess = Some res" "res = (s, r)"
    using assms(3,4) by (auto simp: OpenTunnel_def split: if_splits)
  then have "hs_outcome (s, r)" using handshake_outcome [OF assms(1,2)] by simp
  then show ?thesis by (auto simp: hs_outcome_def tun_inv_pump_init split: sum.splits)
qed

theorem open_tunnel_outcome_witness:
  "OpenTunnel toy_crypto (\<lambda>n. n) toy_cfg (Inr demo_session) [5, 6] \<lparr>w_flight = (0, []), w_write = True, w_finish = (0, []), w_setup = (0, [])\<rparr> =
      Some (Some (Session_Close demo_session), Inl (IncompleteFlight False False False)) \<and>
   \<not> s_pcOpen (Session_Close demo_session)"
proof -
  have o: "s_pcOpen demo_session" "\<not> s_stopped demo_session" by (simp_all add: demo_session_def)
  have "OpenTunnel toy_crypto (\<lambda>n. n) toy_cfg (Inr demo_session) [5, 6] \<lparr>w_flight = (0, []), w_write = True, w_finish = (0, []), w_setup = (0, [])\<rparr> =
      Some (Some (Session_Close demo_session), Inl (IncompleteFlight False False False))"
    by (simp add: OpenTunnel_def toy_cfg_def handshake_def no_flight_def incomplete_def closed_with_def Let_def)
  with open_tunnel_outcome [OF o this refl] show ?thesis by simp
qed

text \<open>
  A short ServerHello crashes the client. The server's random is sliced out of the hello without a
  length check, so a hello record of fewer than 46 bytes, unauthenticated at this point, makes
  \<open>OpenTunnel\<close> panic when the copy's capacity is below 46 bytes, and otherwise silently uses zeros for
  the missing part of the random; no error is returned in either case.
\<close>

theorem short_server_hello:
  assumes "fl_sh f = Some sh" "length sh < 46" "\<forall>n. n \<le> capOf n"
  shows "if capOf (length sh) < 46 then handshake_keys cr capOf cfg a f = Some (Inl SlicePanic)
     else \<exists>n. 0 < n \<and> server_random capOf sh = Some (drop 14 sh @ replicate n 0)"
proof (cases "capOf (length sh) < 46")
  case True
  then show ?thesis using assms(1) by (simp add: handshake_keys_def server_random_def Let_def)
next
  case False
  then have "server_random capOf sh = Some (drop 14 sh @ replicate (min 32 (46 - length sh)) 0)"
    using assms(2) by (simp add: server_random_def min_def)
  moreover have "0 < min 32 (46 - length sh)" using assms(2) by simp
  ultimately show ?thesis using False by (simp only: if_False) blast
qed

theorem short_server_hello_witness:
  "handshake_keys toy_crypto (\<lambda>n. n) toy_cfg [5, 6] (toy_flight\<lparr>fl_sh := Some [2]\<rparr>) = Some (Inl SlicePanic)"
  using short_server_hello [of "toy_flight\<lparr>fl_sh := Some [2]\<rparr>" "[2]" "\<lambda>n. n" toy_crypto toy_cfg "[5, 6]"] by simp

end
