(* ===== verification/Go_Files.thy ===== *)
theory Go_Files
  imports Go_Strings
begin

text \<open>
  What the commands use of Go's \<open>os\<close> and \<open>path\<close> packages: positioned writes to a file, and the lexical cleaning of
  slash-separated paths. The lemmas say when positioned writes in any order rebuild a given content; both
  the download and the upload of a file rest on them.
\<close>

section \<open>Positioned writes\<close>

text \<open>\<open>WriteAt\<close> beyond the end leaves a hole that reads as zeros.\<close>

definition WriteAt :: "bytes \<Rightarrow> nat \<Rightarrow> bytes \<Rightarrow> bytes" where
  "WriteAt f pos b = take pos f @ replicate (pos - length f) 0 @ b @ drop (pos + length b) f"

lemma length_WriteAt [simp]: "length (WriteAt f pos b) = max (length f) (pos + length b)"
  by (simp add: WriteAt_def)

lemma nth_WriteAt:
  "i < length (WriteAt f pos b) \<Longrightarrow> WriteAt f pos b ! i =
     (if pos \<le> i \<and> i < pos + length b then b ! (i - pos) else if i < length f then f ! i else 0)"
  by (auto simp: WriteAt_def nth_append min_def)

text \<open>A piece of a content at its position, and the indices a list of pieces covers.\<close>

definition slice_of :: "bytes \<Rightarrow> nat \<Rightarrow> bytes \<Rightarrow> bool" where
  "slice_of content pos d \<longleftrightarrow> pos + length d \<le> length content \<and> d = take (length d) (drop pos content)"

definition covered :: "(nat \<times> bytes) list \<Rightarrow> nat set" where
  "covered ws = (\<Union>(pos, d)\<in>set ws. {pos..<pos + length d})"

definition agrees :: "bytes \<Rightarrow> nat set \<Rightarrow> bytes \<Rightarrow> bool" where
  "agrees content I f \<longleftrightarrow> length f \<le> length content \<and> (\<forall>i\<in>I. i < length f \<and> f ! i = content ! i)"

lemma covered_simps [simp]:
  "covered [] = {}" "covered ((pos, d) # ws) = {pos..<pos + length d} \<union> covered ws"
  "covered (ws @ vs) = covered ws \<union> covered vs"
  by (auto simp: covered_def)

lemma agrees_empty [simp]: "agrees content {} []"
  by (simp add: agrees_def)

lemma slice_nth: "slice_of content pos d \<Longrightarrow> j < length d \<Longrightarrow> d ! j = content ! (pos + j)"
  by (metis add_leD1 nth_drop nth_take slice_of_def)

lemma agrees_WriteAt:
  assumes "agrees content I f" "slice_of content pos d" "d \<noteq> []"
  shows "agrees content (I \<union> {pos..<pos + length d}) (WriteAt f pos d)"
proof -
  have "WriteAt f pos d ! i = content ! i" if "i \<in> I \<or> pos \<le> i \<and> i < pos + length d" "i < length (WriteAt f pos d)" for i
    using that assms(1) slice_nth [OF assms(2), of "i - pos"] nth_WriteAt [OF that(2)] by (auto simp: agrees_def)
  then show ?thesis using assms by (auto simp: agrees_def slice_of_def less_max_iff_disj)
qed

lemma agrees_complete:
  assumes "agrees content I f" "{0..<length content} \<subseteq> I"
  shows "f = content"
proof -
  have "i < length f \<and> f ! i = content ! i" if "i < length content" for i
    using assms that by (auto simp: agrees_def)
  moreover from this [of "length content - 1"] have "length f = length content"
    using assms(1) by (cases "length content") (auto simp: agrees_def)
  ultimately show ?thesis by (simp add: nth_equalityI)
qed

text \<open>
  The interface of a pool that writes pieces of one file: \<open>step\<close> processes one piece, \<open>bad\<close> says that an error is
  recorded. An error is never forgotten, and a fair step that records none has written its
  piece and counted it. The order of the pieces does not matter.
\<close>

locale range_writer =
  fixes step :: "'r \<Rightarrow> 's \<Rightarrow> 's" and target :: "'s \<Rightarrow> bytes" and bad :: "'s \<Rightarrow> bool" and count :: "'s \<Rightarrow> nat"
    and piece :: "'r \<Rightarrow> nat \<times> bytes" and fair :: "'r \<Rightarrow> bool"
  assumes bad_stays: "bad s \<Longrightarrow> bad (step r s)"
    and step_writes: "\<not> bad (step r s) \<Longrightarrow> fair r \<Longrightarrow>
      target (step r s) = (if snd (piece r) = [] then target s else WriteAt (target s) (fst (piece r)) (snd (piece r))) \<and>
      count (step r s) = count s + length (snd (piece r))"
begin

lemma fold_bad: "bad s \<Longrightarrow> bad (fold step rs s)"
  by (induction rs arbitrary: s) (simp_all add: bad_stays)

lemma fold_agrees:
  assumes "list_all fair rs" "\<forall>r\<in>set rs. slice_of content (fst (piece r)) (snd (piece r))"
    "\<not> bad (fold step rs s)" "agrees content I (target s)"
  shows "agrees content (I \<union> covered (map piece rs)) (target (fold step rs s)) \<and>
    count (fold step rs s) = count s + sum_list (map (\<lambda>r. length (snd (piece r))) rs)"
  using assms
proof (induction rs arbitrary: s I)
  case (Cons r rs)
  obtain p d where j: "piece r = (p, d)" by fastforce
  have "\<not> bad (step r s)" using Cons.prems(3) fold_bad by auto
  then have w: "target (step r s) = (if d = [] then target s else WriteAt (target s) p d)" "count (step r s) = count s + length d"
    using step_writes [of r s] Cons.prems(1) j by simp_all
  have "agrees content (I \<union> {p..<p + length d}) (target (step r s))"
    using Cons.prems(2,4) j w(1) agrees_WriteAt [of content I "target s" p d] by (cases "d = []") auto
  with Cons.IH [of "step r s" "I \<union> {p..<p + length d}"] Cons.prems j w(2) show ?case by (simp add: Un_assoc)
qed simp

lemma fold_rebuilds:
  assumes "list_all fair rs" "\<forall>r\<in>set rs. slice_of content (fst (piece r)) (snd (piece r))"
    "\<not> bad (fold step rs s)" "target s = []" "{0..<length content} \<subseteq> covered (map piece rs)"
  shows "target (fold step rs s) = content"
  using fold_agrees [OF assms(1-3), of "{}"] assms(4,5) by (auto intro: agrees_complete)

end

section \<open>Paths\<close>

text \<open>\<open>path.Clean\<close> on the segments: empty and \<open>.\<close> segments go, \<open>..\<close> removes the segment before it.\<close>

fun clean_segs :: "bool \<Rightarrow> string list \<Rightarrow> string list \<Rightarrow> string list" where
  "clean_segs rooted out [] = rev out"
| "clean_segs rooted out (s # ss) =
     (if s = [] \<or> s = ''.'' then clean_segs rooted out ss
      else if s = ''..'' then
        (if out \<noteq> [] \<and> hd out \<noteq> ''..'' then clean_segs rooted (tl out) ss
         else if rooted then clean_segs rooted out ss
         else clean_segs rooted (s # out) ss)
      else clean_segs rooted (s # out) ss)"

definition path_Clean :: "string \<Rightarrow> string" where
  "path_Clean p =
     (if p = [] then ''.''
      else let rooted = (hd p = CHR ''/'');
               r = Join (clean_segs rooted [] (Split CHR ''/'' p)) ''/''
           in if rooted then CHR ''/'' # r else if r = [] then ''.'' else r)"

text \<open>\<open>path.Dir\<close>: everything up to the last slash, cleaned.\<close>

definition path_Dir :: "string \<Rightarrow> string" where
  "path_Dir p = path_Clean (rev (dropWhile (\<lambda>c. c \<noteq> CHR ''/'') (rev p)))"

lemma path_Clean_examples:
  "path_Clean ''a//b/./c/..'' = ''a/b''" "path_Clean ''/../x'' = ''/x''" "path_Clean ''..'' = ''..''" "path_Clean ''a/..'' = ''.''"
  "path_Dir ''MyWorks/finals/M31.fit'' = ''MyWorks/finals''" "path_Dir ''M31.fit'' = ''.''"
  by (simp_all add: path_Clean_def path_Dir_def Let_def)

end
