(* ===== verification/Go_Json.thy ===== *)
theory Go_Json
  imports Go_Strings
begin

unbundle bit_operations_syntax

text \<open>
  The encoders of Go's library that the commands and the cloud client put their strings through, on ASCII:
  the string form of \<open>encoding/json\<close>, the query escaping of \<open>net/url\<close> and the hexadecimal of \<open>encoding/hex\<close> and \<open>%X\<close>,
  each with its decoder and the law that the decoder undoes it.
\<close>

section \<open>Hexadecimal\<close>

definition hex_digit :: "nat \<Rightarrow> char" where
  "hex_digit n = char_of (if n < 10 then 48 + n else 87 + n)"

definition HEX_digit :: "nat \<Rightarrow> char" where
  "HEX_digit n = char_of (if n < 10 then 48 + n else 55 + n)"

text \<open>The value of a digit of either case, as \<open>hex.DecodeString\<close> takes it.\<close>

definition hex_val :: "char \<Rightarrow> nat option" where
  "hex_val c = (let n = of_char c :: nat
     in if 48 \<le> n \<and> n \<le> 57 then Some (n - 48)
        else if 97 \<le> n \<and> n \<le> 102 then Some (n - 87)
        else if 65 \<le> n \<and> n \<le> 70 then Some (n - 55) else None)"

fun DecodeString :: "string \<Rightarrow> bytes option" where
  "DecodeString [] = Some []"
| "DecodeString [_] = None"
| "DecodeString (a # b # cs) =
     (case (hex_val a, hex_val b, DecodeString cs) of
        (Some x, Some y, Some bs) \<Rightarrow> Some (of_nat (16 * x + y) # bs)
      | _ \<Rightarrow> None)"

definition HEX_byte :: "byte \<Rightarrow> string" where
  "HEX_byte b = [HEX_digit (unat b div 16), HEX_digit (unat b mod 16)]"

definition HEX :: "bytes \<Rightarrow> string" where
  "HEX bs = concat (map HEX_byte bs)"

lemma char_of_of_char [simp]: "char_of (of_char c :: nat) = c"
  by simp

lemma hex_val_digit [simp]: "n < 16 \<Longrightarrow> hex_val (hex_digit n) = Some n" "n < 16 \<Longrightarrow> hex_val (HEX_digit n) = Some n"
  by (auto simp: hex_val_def hex_digit_def HEX_digit_def)

lemma DecodeString_length: "DecodeString s = Some bs \<Longrightarrow> length s = 2 * length bs"
  by (induction s arbitrary: bs rule: DecodeString.induct) (auto split: option.splits)

lemma HEX_Cons [simp]: "HEX [] = []" "HEX (b # bs) = HEX_byte b @ HEX bs" "HEX (xs @ ys) = HEX xs @ HEX ys"
  by (simp_all add: HEX_def)

lemma length_HEX [simp]: "length (HEX bs) = 2 * length bs"
  by (induction bs) (simp_all add: HEX_byte_def)

lemma DecodeString_HEX: "DecodeString (HEX bs) = Some bs"
proof (induction bs)
  case (Cons b bs)
  have "unat b div 16 < 16" "unat b mod 16 < 16" using byte_less [of b] by auto
  moreover have "(of_nat (16 * (unat b div 16) + unat b mod 16) :: byte) = b" by simp
  ultimately show ?case using Cons by (simp add: HEX_byte_def del: of_nat_add of_nat_mult)
qed simp

definition is_HEX :: "char \<Rightarrow> bool" where
  "is_HEX c \<longleftrightarrow> (let n = of_char c :: nat in 48 \<le> n \<and> n \<le> 57 \<or> 65 \<le> n \<and> n \<le> 70)"

lemma is_HEX_digit: "n < 16 \<Longrightarrow> is_HEX (HEX_digit n)"
  by (auto simp: is_HEX_def HEX_digit_def)

lemma list_all_HEX: "list_all is_HEX (HEX bs)"
proof (induction bs)
  case (Cons b bs)
  have "unat b div 16 < 16" "unat b mod 16 < 16" using byte_less [of b] by auto
  then show ?case using Cons by (simp add: HEX_byte_def is_HEX_digit)
qed simp

section \<open>JSON strings\<close>

definition json_char :: "char \<Rightarrow> string" where
  "json_char c =
     (let n = of_char c :: nat
      in if c = CHR 0x22 \<or> c = CHR 0x5C then [CHR 0x5C, c]
         else if n = 8 then [CHR 0x5C, CHR ''b''] else if n = 12 then [CHR 0x5C, CHR ''f'']
         else if n = 10 then [CHR 0x5C, CHR ''n''] else if n = 13 then [CHR 0x5C, CHR ''r'']
         else if n = 9 then [CHR 0x5C, CHR ''t'']
         else if n < 32 \<or> c = CHR ''<'' \<or> c = CHR ''>'' \<or> c = CHR ''&''
           then [CHR 0x5C, CHR ''u'', CHR ''0'', CHR ''0'', hex_digit (n div 16), hex_digit (n mod 16)]
         else [c])"

definition json_string :: "string \<Rightarrow> string" where
  "json_string s = [CHR 0x22] @ concat (map json_char s) @ [CHR 0x22]"

text \<open>Reading a string up to its closing quote: the string and the rest of the text.\<close>

definition json_simple :: "char \<Rightarrow> char option" where
  "json_simple c =
     (if c = CHR 0x22 \<or> c = CHR 0x5C \<or> c = CHR ''/'' then Some c
      else if c = CHR ''b'' then Some (char_of (8 :: nat)) else if c = CHR ''f'' then Some (char_of (12 :: nat))
      else if c = CHR ''n'' then Some (char_of (10 :: nat)) else if c = CHR ''r'' then Some (char_of (13 :: nat))
      else if c = CHR ''t'' then Some (char_of (9 :: nat)) else None)"

fun json_unescape :: "string \<Rightarrow> (string \<times> string) option" where
  "json_unescape [] = None"
| "json_unescape (c # cs) =
     (if c = CHR 0x22 then Some ([], cs)
      else if c = CHR 0x5C then
        (case cs of
           [] \<Rightarrow> None
         | e # es \<Rightarrow>
             (if e = CHR ''u'' then
                (case es of
                   z0 # z1 # a # b # ds \<Rightarrow>
                     (case (hex_val a, hex_val b) of
                        (Some x, Some y) \<Rightarrow>
                          if z0 = CHR ''0'' \<and> z1 = CHR ''0'' then
                            map_option (\<lambda>(s, r). (char_of (16 * x + y) # s, r)) (json_unescape ds) else None
                      | _ \<Rightarrow> None)
                 | _ \<Rightarrow> None)
              else case json_simple e of
                     None \<Rightarrow> None
                   | Some d \<Rightarrow> map_option (\<lambda>(s, r). (d # s, r)) (json_unescape es)))
      else map_option (\<lambda>(s, r). (c # s, r)) (json_unescape cs))"

lemma json_unescape_char:
  "json_unescape (json_char c @ t) = map_option (\<lambda>(s, r). (c # s, r)) (json_unescape t)"
proof -
  let ?n = "of_char c :: nat"
  have undo: "?n = k \<Longrightarrow> char_of k = c" for k by (metis char_of_of_char)
  let ?q = "c = CHR 0x22 \<or> c = CHR 0x5C" and ?s = "?n = 8 \<or> ?n = 12 \<or> ?n = 10 \<or> ?n = 13 \<or> ?n = 9"
  let ?l = "?n < 32 \<or> c = CHR ''<'' \<or> c = CHR ''>'' \<or> c = CHR ''&''"
  consider (quoted) "?q" | (short) "\<not> ?q" "?s" | (long) "\<not> ?q" "\<not> ?s" "?l" | (plain) "\<not> ?q" "\<not> ?s" "\<not> ?l"
    by blast
  then show ?thesis
  proof cases
    case quoted
    then show ?thesis by (auto simp: json_char_def json_simple_def Let_def)
  next
    case short
    then show ?thesis
      using undo [of 8] undo [of 12] undo [of 10] undo [of 13] undo [of 9] by (auto simp: json_char_def json_simple_def Let_def)
  next
    case long
    then have e: "json_char c = [CHR 0x5C, CHR ''u'', CHR ''0'', CHR ''0'', hex_digit (?n div 16), hex_digit (?n mod 16)]"
      by (simp add: json_char_def Let_def)
    have "?n div 16 < 16" using nat_of_char_less_256 [of c] by linarith
    then show ?thesis unfolding e by simp
  next
    case plain
    then have "json_char c = [c]" by (simp add: json_char_def Let_def)
    then show ?thesis using plain by simp
  qed
qed

lemma json_string_roundtrip: "json_unescape (concat (map json_char s) @ CHR 0x22 # t) = Some (s, t)"
  by (induction s) (simp_all add: json_unescape_char del: json_unescape.simps(2), simp)

section \<open>Query escaping\<close>

definition unreserved :: "char \<Rightarrow> bool" where
  "unreserved c \<longleftrightarrow> (let n = of_char c :: nat
     in 48 \<le> n \<and> n \<le> 57 \<or> 65 \<le> n \<and> n \<le> 90 \<or> 97 \<le> n \<and> n \<le> 122) \<or> c \<in> set ''-_.~''"

definition query_char :: "char \<Rightarrow> string" where
  "query_char c =
     (if unreserved c then [c] else if c = CHR '' '' then ''+''
      else let n = of_char c in [CHR ''%'', HEX_digit (n div 16), HEX_digit (n mod 16)])"

definition QueryEscape :: "string \<Rightarrow> string" where
  "QueryEscape s = concat (map query_char s)"

fun QueryUnescape :: "string \<Rightarrow> string option" where
  "QueryUnescape [] = Some []"
| "QueryUnescape (c # cs) =
     (if c = CHR ''+'' then map_option ((#) CHR '' '') (QueryUnescape cs)
      else if c = CHR ''%'' then
        (case cs of
           a # b # ds \<Rightarrow>
             (case (hex_val a, hex_val b) of
                (Some x, Some y) \<Rightarrow> map_option ((#) (char_of (16 * x + y))) (QueryUnescape ds)
              | _ \<Rightarrow> None)
         | _ \<Rightarrow> None)
      else map_option ((#) c) (QueryUnescape cs))"

lemma unreserved_not: "unreserved c \<Longrightarrow> c \<noteq> CHR ''+'' \<and> c \<noteq> CHR ''%'' \<and> c \<noteq> CHR ''&''"
  by (auto simp: unreserved_def)

lemma query_roundtrip: "QueryUnescape (QueryEscape s) = Some s"
proof (induction s)
  case (Cons c s)
  have "(of_char c :: nat) div 16 < 16" using nat_of_char_less_256 [of c] by linarith
  then show ?case using Cons unreserved_not [of c] by (auto simp: QueryEscape_def query_char_def Let_def)
qed (simp add: QueryEscape_def)

lemma HEX_digit_not_amp: "n < 16 \<Longrightarrow> HEX_digit n \<noteq> CHR ''&''"
proof -
  assume "n < 16"
  then have "(of_char (HEX_digit n) :: nat) \<noteq> of_char CHR ''&''" by (auto simp: HEX_digit_def)
  then show ?thesis by metis
qed

lemma query_no_amp: "CHR ''&'' \<notin> set (QueryEscape s)"
proof (induction s)
  case (Cons c s)
  have "(of_char c :: nat) div 16 < 16" using nat_of_char_less_256 [of c] by linarith
  then have "CHR ''&'' \<notin> set (query_char c)"
    using unreserved_not [of c] HEX_digit_not_amp [of "of_char c div 16"] HEX_digit_not_amp [of "of_char c mod 16"]
    by (auto simp: query_char_def Let_def)
  then show ?case using Cons by (simp add: QueryEscape_def)
qed (simp add: QueryEscape_def)

end
