(* ===== verification/Cloud.thy ===== *)
theory Cloud
  imports Go_Json
begin

unbundle bit_operations_syntax

text \<open>
  The cloud client, \<open>seestar/cloud.go\<close> and \<open>seestar/devices.go\<close>, up to \<open>Dial\<close> (theory \<open>Connect\<close>): the requests it
  builds and what it makes of the answers.

  \<^item> HTTP is outside the model: \<open>http\<close> is what a call gave. A request is modelled by the parts the code builds (the URL, the body, the headers).
  \<^item> The decoding of a JSON answer is a parameter: the fields the code reads, or \<open>None\<close> for text that is not JSON.
    A field that is absent decodes to the empty string.
\<close>

section \<open>Answers\<close>

datatype http = BuildFailed | DoFailed | ReadBodyFailed nat | Answer nat string

datatype cloud_err =
    BuildRequest
  | Transport
  | ReadBody nat
  | Malformed nat string
  | LoginRefused nat string
  | BadCode nat int

text \<open>The steps every call shares: the request, the transport, the body and its decoding.\<close>

definition decode_answer :: "(string \<Rightarrow> 'a option) \<Rightarrow> http \<Rightarrow> cloud_err + nat \<times> string \<times> 'a" where
  "decode_answer dec h =
     (case h of
        BuildFailed \<Rightarrow> Inl BuildRequest
      | DoFailed \<Rightarrow> Inl Transport
      | ReadBodyFailed st \<Rightarrow> Inl (ReadBody st)
      | Answer st b \<Rightarrow> (case dec b of None \<Rightarrow> Inl (Malformed st b) | Some v \<Rightarrow> Inr (st, b, v)))"

section \<open>Login\<close>

text \<open>\<open>json.Marshal\<close> writes the keys of a map in order.\<close>

definition login_body :: "string \<Rightarrow> string \<Rightarrow> string" where
  "login_body email password =
     ''{'' @ json_string ''authKey'' @ '':'' @ json_string email @ '','' @ json_string ''authType'' @ '':'' @ json_string ''email'' @ '','' @
     json_string ''password'' @ '':'' @ json_string password @ ''}''"

definition Login :: "(string \<Rightarrow> string option) \<Rightarrow> http \<Rightarrow> cloud_err + string" where
  "Login accessToken h =
     (case decode_answer accessToken h of
        Inl e \<Rightarrow> Inl e
      | Inr (st, b, tok) \<Rightarrow> if tok = [] then Inl (LoginRefused st b) else Inr tok)"

section \<open>The connection window\<close>

definition slice :: "nat \<Rightarrow> nat \<Rightarrow> bytes \<Rightarrow> bytes" where
  "slice i j b = take (j - i) (drop i b)"

text \<open>\<open>randUUID\<close> on its sixteen random bytes.\<close>

definition randUUID :: "bytes \<Rightarrow> string" where
  "randUUID r =
     (let b = r[6 := (r ! 6 AND 0x0f) OR 0x40]; b = b[8 := (b ! 8 AND 0x3f) OR 0x80]
      in HEX (slice 0 4 b) @ ''-'' @ HEX (slice 4 6 b) @ ''-'' @ HEX (slice 6 8 b) @ ''-'' @ HEX (slice 8 10 b) @ ''-'' @
         HEX (slice 10 16 b))"

definition online_link_url :: "string \<Rightarrow> string \<Rightarrow> string \<Rightarrow> string" where
  "online_link_url model sn uuid =
     ''https://api-ithings.zwoastro.com/v1/device-p2p/online-link?deviceModel='' @ QueryEscape model @ ''&deviceSn='' @
     QueryEscape sn @ ''&srcId='' @ uuid"

definition quote :: "string \<Rightarrow> string" where
  "quote s = [CHR 0x22] @ s @ [CHR 0x22]"

definition x_params :: "string \<Rightarrow> string" where
  "x_params appVer =
     ''{'' @ quote ''app_version'' @ '':'' @ quote appVer @ '','' @ quote ''country_code'' @ '':'' @ quote ''US'' @ '','' @
     quote ''model'' @ '':'' @ quote ''iPad Pro (12.9 inch, 3rd generation)'' @ '','' @ quote ''channel'' @ '':'' @
     quote ''appstore'' @ '','' @ quote ''os_version'' @ '':'' @ quote ''26.5'' @ '','' @ quote ''platform'' @ '':'' @
     quote ''iOS'' @ ''}''"

definition user_agent :: "string \<Rightarrow> string" where
  "user_agent appVer = ''Seestar/'' @ appVer @ '' (iPad; iOS 26.5; Scale/2.00)''"

definition cloud_headers :: "string \<Rightarrow> string \<Rightarrow> (string \<times> string) list" where
  "cloud_headers token appVer =
     [(''Authorization'', token), (''x-service-platform'', ''seestar''), (''x-lang'', ''en''),
      (''x-params'', x_params appVer), (''User-Agent'', user_agent appVer)]"

record remoteConnectData =
  rc_ConID :: string
  rc_DeviceUID :: string
  rc_Username :: string
  rc_Password :: string
  rc_P2PLicenseKey :: string
  rc_SDKLicenseKey :: string
  rc_P2PStatus :: int

definition onlineLink :: "(string \<Rightarrow> remoteConnectData option) \<Rightarrow> http \<Rightarrow> cloud_err + remoteConnectData \<times> nat" where
  "onlineLink dec h =
     (case decode_answer dec h of Inl e \<Rightarrow> Inl e | Inr (st, _, d) \<Rightarrow> Inr (d, st))"

text \<open>The body of \<open>reportEvent\<close>: its arguments go into the text as they are.\<close>

definition report_body :: "string \<Rightarrow> string \<Rightarrow> string \<Rightarrow> string \<Rightarrow> string" where
  "report_body conID model sn event =
     ''{'' @ quote ''conId'' @ '':'' @ quote conID @ '','' @ quote ''deviceModel'' @ '':'' @ quote model @ '','' @
     quote ''deviceSn'' @ '':'' @ quote sn @ '','' @ quote ''event'' @ '':'' @ quote event @ ''}''"

section \<open>Devices\<close>

record Device =
  d_Sn :: string
  d_Model :: string
  d_Alias :: string
  d_SSID :: string
  d_Status :: int
  d_Shared :: bool
  d_ShareStatus :: int

definition shareNone :: int where "shareNone = 0"
definition shareOut :: int where "shareOut = 1"
definition shareReceived :: int where "shareReceived = 2"

definition SharedWithMe :: "Device \<Rightarrow> bool" where
  "SharedWithMe d \<longleftrightarrow> d_ShareStatus d = shareReceived"

definition Label :: "Device \<Rightarrow> string" where
  "Label d =
     (let name = d_Alias d;
          name = (if name = [] then d_SSID d else name);
          name = (if name = [] then d_Model d else name);
          label = name @ '' ('' @ d_Sn d @ '', '' @ d_Model d @ '')''
      in if SharedWithMe d then label @ '' [shared with you]'' else label)"

definition default_appVer :: "string \<Rightarrow> string" where
  "default_appVer v = (if v = [] then ''3.3.0'' else v)"

text \<open>The answer's \<open>code\<close> and devices; the query is encoded in the order of its keys.\<close>

definition devices_url :: string where
  "devices_url = ''https://api-ithings.zwoastro.com/v1/my-device?current=1&isContainShared=1&pageSize=100''"

definition ListDevices :: "(string \<Rightarrow> (int \<times> Device list) option) \<Rightarrow> http \<Rightarrow> cloud_err + Device list" where
  "ListDevices dec h =
     (case decode_answer dec h of
        Inl e \<Rightarrow> Inl e
      | Inr (st, _, code, items) \<Rightarrow> if code \<noteq> 200 then Inl (BadCode st code) else Inr items)"

section \<open>Properties\<close>

text \<open>The server's reading of a query: split at \<open>&\<close>, each pair cut at \<open>=\<close> and unescaped.\<close>

definition query_pair :: "string \<Rightarrow> string \<times> string option" where
  "query_pair p = (case Cut p CHR ''='' of (k, v, _) \<Rightarrow> (k, QueryUnescape v))"

definition query_pairs :: "string \<Rightarrow> (string \<times> string option) list" where
  "query_pairs q = map query_pair (Split CHR ''&'' q)"

lemma Split_fresh: "c \<notin> set s \<Longrightarrow> Split c s = [s]"
  by (induction s) auto

lemma query_pairs_Cons: "CHR ''&'' \<notin> set p \<Longrightarrow> query_pairs (p @ CHR ''&'' # q) = query_pair p # query_pairs q"
  using Split_Cons [of "CHR ''&''" p q] by (simp add: query_pairs_def)

lemma HEX_chars: "c \<in> set (HEX bs) \<Longrightarrow> is_HEX c"
  using list_all_HEX [of bs] by (auto simp: list_all_iff)

lemma UUID_chars: "c \<in> set (randUUID r) \<Longrightarrow> is_HEX c \<or> c = CHR ''-''"
  by (auto simp: randUUID_def Let_def dest: HEX_chars)

lemma uuid_plain: "c \<in> set (randUUID r) \<Longrightarrow> c \<noteq> CHR ''&'' \<and> c \<noteq> CHR ''+'' \<and> c \<noteq> CHR ''%'' \<and> c \<noteq> CHR ''=''"
  using UUID_chars [of c r] by (auto simp: is_HEX_def)

lemma QueryUnescape_plain: "\<forall>c\<in>set s. c \<noteq> CHR ''+'' \<and> c \<noteq> CHR ''%'' \<Longrightarrow> QueryUnescape s = Some s"
  by (induction s) auto

text \<open>
  The query of the online-link request carries its arguments intact: whatever characters the device's model and
  serial contain, \<open>&\<close>, \<open>=\<close>, \<open>+\<close>, \<open>%\<close> and spaces included, the server that splits and unescapes the query
  reads back exactly the three parameters with the values the client put in.
\<close>

theorem online_link_query:
  "\<exists>q. online_link_url model sn (randUUID r) = ''https://api-ithings.zwoastro.com/v1/device-p2p/online-link?'' @ q \<and>
     query_pairs q = [(''deviceModel'', Some model), (''deviceSn'', Some sn), (''srcId'', Some (randUUID r))]"
proof -
  let ?u = "randUUID r"
  let ?q = "(''deviceModel='' @ QueryEscape model) @ CHR ''&'' # ((''deviceSn='' @ QueryEscape sn) @ CHR ''&'' # (''srcId='' @ ?u))"
  have cut: "query_pair (k @ CHR ''='' # v) = (k, QueryUnescape v)" if "CHR ''='' \<notin> set k" for k v
    using Cut_first [OF that, of v] by (simp add: query_pair_def)
  have u: "CHR ''&'' \<notin> set ?u" "QueryUnescape ?u = Some ?u"
    using uuid_plain by (auto intro: QueryUnescape_plain)
  have "query_pairs ?q = [query_pair (''deviceModel='' @ QueryEscape model), query_pair (''deviceSn='' @ QueryEscape sn), query_pair (''srcId='' @ ?u)]"
    using query_no_amp u(1) by (subst query_pairs_Cons, simp)+ (simp add: query_pairs_def Split_fresh)
  moreover have "online_link_url model sn ?u = ''https://api-ithings.zwoastro.com/v1/device-p2p/online-link?'' @ ?q"
    by (simp add: online_link_url_def)
  ultimately show ?thesis
    using cut [of "''deviceModel''"] cut [of "''deviceSn''"] cut [of "''srcId''"] u(2) by (auto simp: query_roundtrip)
qed

lemma digit_chars:
  "char_of (52 :: nat) = CHR ''4''" "char_of (56 :: nat) = CHR ''8''" "char_of (57 :: nat) = CHR ''9''"
  "char_of (65 :: nat) = CHR ''A''" "char_of (66 :: nat) = CHR ''B''"
  by code_simp+

lemma version_digit: "HEX_digit (unat ((b AND 0x0f) OR 0x40 :: byte) div 16) = CHR ''4''"
proof -
  have "unat b AND 15 = take_bit 4 (unat b)" using take_bit_eq_mask [of 4 "unat b"] by (simp add: mask_eq_exp_minus_1)
  then have "(unat b AND 15) div 16 = 0" by (simp add: take_bit_eq_mod)
  moreover have "drop_bit 4 ((unat b AND 15) OR 64) = drop_bit 4 (unat b AND 15) OR drop_bit 4 (64 :: nat)" by (rule drop_bit_or)
  ultimately have "drop_bit 4 ((unat b AND 15) OR 64) = 4" by (simp add: drop_bit_eq_div)
  then have "unat ((b AND 0x0f) OR 0x40) div 16 = 4" by (simp add: unsigned_or_eq unsigned_and_eq drop_bit_eq_div)
  then show ?thesis by (simp add: HEX_digit_def digit_chars)
qed

lemma variant_digit: "HEX_digit (unat ((b AND 0x3f) OR 0x80 :: byte) div 16) \<in> set ''89AB''"
proof -
  define m where "m = (unat b AND 63) div 16"
  have "unat b AND 63 = take_bit 6 (unat b)" using take_bit_eq_mask [of 6 "unat b"] by (simp add: mask_eq_exp_minus_1)
  then have m: "m < 4" by (simp add: take_bit_eq_mod m_def)
  have "drop_bit 4 ((unat b AND 63) OR 128) = drop_bit 4 (unat b AND 63) OR drop_bit 4 (128 :: nat)" by (rule drop_bit_or)
  then have "drop_bit 4 ((unat b AND 63) OR 128) = m OR 8" by (simp add: drop_bit_eq_div m_def)
  then have e: "unat ((b AND 0x3f) OR 0x80) div 16 = m OR 8" by (simp add: unsigned_or_eq unsigned_and_eq drop_bit_eq_div)
  from m have "m = 0 \<or> m = 1 \<or> m = 2 \<or> m = 3" by auto
  then show ?thesis unfolding e by (auto simp: HEX_digit_def digit_chars)
qed

text \<open>
  \<open>randUUID\<close> is a version 4 UUID in upper case for all sixteen random bytes: 36 characters, dashes at 8, 13, 18 and
  23, the version digit 4 at 14, a variant digit among 8, 9, A and B at 19, hexadecimal digits elsewhere.
\<close>

theorem rand_uuid_v4:
  assumes "length r = 16"
  shows "length (randUUID r) = 36 \<and> (\<forall>i<36. if i \<in> {8, 13, 18, 23} then randUUID r ! i = CHR ''-'' else is_HEX (randUUID r ! i)) \<and>
    randUUID r ! 14 = CHR ''4'' \<and> randUUID r ! 19 \<in> set ''89AB''"
proof -
  obtain a0 a1 a2 a3 a4 a5 a6 a7 a8 a9 a10 a11 a12 a13 a14 a15
    where r: "r = [a0, a1, a2, a3, a4, a5, a6, a7, a8, a9, a10, a11, a12, a13, a14, a15]"
    using assms by (auto simp: length_Suc_conv eval_nat_numeral)
  have u: "randUUID r = HEX [a0, a1, a2, a3] @ ''-'' @ HEX [a4, a5] @ ''-'' @ HEX [(a6 AND 0x0f) OR 0x40, a7] @ ''-'' @
      HEX [(a8 AND 0x3f) OR 0x80, a9] @ ''-'' @ HEX [a10, a11, a12, a13, a14, a15]"
    by (simp add: r randUUID_def slice_def Let_def)
  have h: "is_HEX (HEX_digit (unat b div 16))" "is_HEX (HEX_digit (unat b mod 16))" for b :: byte
    using byte_less [of b] by (auto intro!: is_HEX_digit)
  have "list_all2 (\<lambda>i c. if i \<in> {8, 13, 18, 23} then c = CHR ''-'' else is_HEX c) [0..<36] (randUUID r)"
    unfolding u by (simp add: HEX_byte_def h upt_conv_Cons)
  then have "length (randUUID r) = 36" "\<forall>i<36. if i \<in> {8, 13, 18, 23} then randUUID r ! i = CHR ''-'' else is_HEX (randUUID r ! i)"
    by (simp_all add: list_all2_conv_all_nth)
  moreover have "randUUID r ! 14 = CHR ''4''" "randUUID r ! 19 \<in> set ''89AB''"
    unfolding u using version_digit [of a6] variant_digit [of a8] by (simp_all add: HEX_byte_def)
  ultimately show ?thesis by blast
qed

theorem rand_uuid_v4_witness:
  "length (replicate 16 (0xff :: byte)) = 16 \<and> length (randUUID (replicate 16 0xff)) = 36"
  using rand_uuid_v4 [of "replicate 16 0xff"] by simp

text \<open>
  The body of a login parses back: reading the JSON strings at the places of the two values gives exactly the e-mail address and the
  password, with quotes, backslashes and control characters in them escaped.
\<close>

theorem login_body_parses:
  "\<exists>t. login_body email password = ''{'' @ json_string ''authKey'' @ '':'' @ [CHR 0x22] @ t \<and>
     (case json_unescape t of
        None \<Rightarrow> False
      | Some (e, rest) \<Rightarrow> e = email \<and>
          (\<exists>t'. rest = '','' @ json_string ''authType'' @ '':'' @ json_string ''email'' @ '','' @ json_string ''password'' @ '':'' @ [CHR 0x22] @ t' \<and>
             json_unescape t' = Some (password, ''}'')))"
proof -
  let ?t' = "concat (map json_char password) @ CHR 0x22 # ''}''"
  let ?rest = "'','' @ json_string ''authType'' @ '':'' @ json_string ''email'' @ '','' @ json_string ''password'' @ '':'' @ [CHR 0x22] @ ?t'"
  let ?t = "concat (map json_char email) @ CHR 0x22 # ?rest"
  have "login_body email password = ''{'' @ json_string ''authKey'' @ '':'' @ [CHR 0x22] @ ?t"
    unfolding login_body_def json_string_def [of email] json_string_def [of password] by simp
  moreover have r: "json_unescape ?t = Some (email, ?rest)" by (rule json_string_roundtrip)
  have "json_unescape ?t' = Some (password, ''}'')" by (rule json_string_roundtrip)
  then have "case json_unescape ?t of None \<Rightarrow> False | Some (e, rest) \<Rightarrow> e = email \<and>
      (\<exists>t'. rest = '','' @ json_string ''authType'' @ '':'' @ json_string ''email'' @ '','' @ json_string ''password'' @ '':'' @ [CHR 0x22] @ t' \<and>
         json_unescape t' = Some (password, ''}''))"
    unfolding r option.case prod.case by blast
  ultimately show ?thesis by (intro exI conjI)
qed

text \<open>
  The body of a lifecycle report is not escaped: two different pairs of model and serial give the same body as soon
  as a quote may occur in them.
\<close>

theorem report_body_ambiguous:
  "\<exists>model sn model' sn'. (model, sn) \<noteq> (model', sn') \<and> report_body c model sn e = report_body c model' sn' e"
proof -
  let ?k = "[CHR 0x22] @ '','' @ quote ''deviceSn'' @ '':'' @ [CHR 0x22]"
  have "report_body c (''a'' @ ?k @ ''b'') ''c'' e = report_body c ''a'' (''b'' @ ?k @ ''c'') e"
    by (simp add: report_body_def quote_def)
  moreover have "(''a'' @ ?k @ ''b'', ''c'') \<noteq> (''a'', ''b'' @ ?k @ ''c'')" by simp
  ultimately show ?thesis by (intro exI conjI)
qed

end
