(* ===== verification/Config.thy ===== *)
theory Config
  imports Cloud Control
begin

text \<open>
  The configuration of the commands, \<open>internal/cli/config.go\<close>: environment, prompts, the choice of the device and the
  recorded ClientHello.

  \<^item> The environment maps names to values, the empty string for a variable that is not set.
  \<^item> Standard input is the list of the chunks its successive reads return: a line each on a terminal, up to 4096 bytes
    each on a pipe. Every \<open>ask\<close> makes a buffered reader of its own, so what a chunk holds beyond the first line
    is gone with that reader.
  \<^item> The cloud calls, the file read for \<open>SEESTAR_CH\<close> and \<open>term.ReadPassword\<close> are parameters.
\<close>

section \<open>Environment\<close>

type_synonym env = "string \<Rightarrow> string"

definition EnvOr :: "env \<Rightarrow> string \<Rightarrow> string \<Rightarrow> string" where
  "EnvOr env k def = (if env k \<noteq> [] then env k else def)"

definition EnvIntOr :: "env \<Rightarrow> string \<Rightarrow> int \<Rightarrow> int" where
  "EnvIntOr env k def =
     (if env k \<noteq> [] then (case Atoi (env k) of Some n \<Rightarrow> n | None \<Rightarrow> def) else def)"

definition NoPrompt :: "env \<Rightarrow> bool \<Rightarrow> bool" where
  "NoPrompt env flag \<longleftrightarrow> flag \<or> env ''SEESTAR_NO_PROMPT'' \<noteq> []"

section \<open>Prompts\<close>

datatype config_err =
    ReadInput
  | ReadPasswordErr
  | CredentialsUnset
  | CloudErr cloud_err
  | NoDevices
  | ManyDevices nat "string list"
  | ChFile
  | HelloShort nat
  | HelloNotHex
  | HelloRecordShort

record stdin =
  si_term :: bool
  si_chunks :: "string list"

definition newline :: char where "newline = CHR 0x0A"

text \<open>\<open>ReadString\<close> of a fresh reader: the line with its newline, and the chunks left to the next reader.\<close>

fun ReadString :: "string \<Rightarrow> string list \<Rightarrow> string option \<times> string list" where
  "ReadString acc [] = (None, [])"
| "ReadString acc (c # cs) =
     (if newline \<in> set c then (Some (acc @ takeWhile (\<lambda>x. x \<noteq> newline) c @ [newline]), cs) else ReadString (acc @ c) cs)"

definition ask :: "stdin \<Rightarrow> stdin \<times> (config_err + string)" where
  "ask s =
     (case ReadString [] (si_chunks s) of
        (None, cs) \<Rightarrow> (s\<lparr>si_chunks := cs\<rparr>, Inl ReadInput)
      | (Some line, cs) \<Rightarrow> (s\<lparr>si_chunks := cs\<rparr>, Inr (TrimSpace line)))"

definition askSecret :: "(string list \<Rightarrow> string option \<times> string list) \<Rightarrow> stdin \<Rightarrow> stdin \<times> (config_err + string)" where
  "askSecret ReadPassword s =
     (if \<not> si_term s then ask s
      else case ReadPassword (si_chunks s) of
             (None, cs) \<Rightarrow> (s\<lparr>si_chunks := cs\<rparr>, Inl ReadPasswordErr)
           | (Some p, cs) \<Rightarrow> (s\<lparr>si_chunks := cs\<rparr>, Inr p))"

lemma ReadString_shrinks: "ReadString acc cs = (Some l, cs') \<Longrightarrow> length cs' < length cs"
  by (induction acc cs rule: ReadString.induct) (auto split: if_splits)

lemma ask_shrinks: "ask s = (s', Inr l) \<Longrightarrow> length (si_chunks s') < length (si_chunks s)"
  by (auto simp: ask_def dest: ReadString_shrinks split: prod.splits option.splits)

section \<open>The device\<close>

function choose_device :: "Device list \<Rightarrow> stdin \<Rightarrow> stdin \<times> (config_err + Device)" where
  "choose_device devices s =
     (case ask s of
        (s', Inl e) \<Rightarrow> (s', Inl e)
      | (s', Inr l) \<Rightarrow>
          (case Atoi (TrimSpace l) of
             Some n \<Rightarrow> if n \<ge> 1 \<and> n \<le> int (length devices) then (s', Inr (devices ! (nat n - 1))) else choose_device devices s'
           | None \<Rightarrow> choose_device devices s'))"
  by pat_completeness auto
termination by (relation "measure (\<lambda>(_, s). length (si_chunks s))") (auto dest: ask_shrinks sym)

declare choose_device.simps [simp del]

definition selectDevice :: "(cloud_err + Device list) \<Rightarrow> bool \<Rightarrow> stdin \<Rightarrow> stdin \<times> (config_err + string \<times> string)" where
  "selectDevice listed noPrompt s =
     (case listed of
        Inl e \<Rightarrow> (s, Inl (CloudErr e))
      | Inr devices \<Rightarrow>
          if devices = [] then (s, Inl NoDevices)
          else if length devices = 1 then (s, Inr (d_Sn (hd devices), d_Model (hd devices)))
          else if noPrompt then (s, Inl (ManyDevices (length devices) (map d_Sn devices)))
          else (case choose_device devices s of
                  (s, Inl e) \<Rightarrow> (s, Inl e)
                | (s, Inr d) \<Rightarrow> (s, Inr (d_Sn d, d_Model d))))"

section \<open>The recorded ClientHello\<close>

definition embeddedClientHello :: string where
  "embeddedClientHello =
     ''6e6c1def40d9c0da3d2de83d90eecac8abd88a52422e21c5adb0280ccee4a2e0712e6dcc40d0c0ca2d6d280c40e4cad'' @
     ''86dfe0c06d34013f8cd70280ccfe4c437b02279e7baf4ba0710cb533d92369d2548a3b23a599b6f0000006cc02cc030'' @
     ''009fcca9cca8ccaac02bc02f009ec024c028006bc023c0270067c00ac0140039c009c013003300ad00abccaeccadcca'' @
     ''c009d00a9ccab00ac00aa009c00a8003d003cc038c03600b700b300950091003500af008dc037c03500b600b2009400'' @
     ''90002f00ae008c00ff01000052000b000403000102000a000c000a001d0017001e00190018002300000016000000170'' @
     ''000000d002a0028040305030603080708080809080a080b080408050806040105010601030303010302040205020602''"

definition clientHello :: "env \<Rightarrow> (string \<Rightarrow> string option) \<Rightarrow> config_err + bytes" where
  "clientHello env ReadFile =
     (let path = env ''SEESTAR_CH'';
          text = (if path \<noteq> [] then ReadFile path else Some embeddedClientHello)
      in case text of
           None \<Rightarrow> Inl ChFile
         | Some chHex \<Rightarrow>
             if length chHex < 570 then Inl (HelloShort (length chHex))
             else case DecodeString (take 570 chHex) of
                    None \<Rightarrow> Inl HelloNotHex
                  | Some wire \<Rightarrow> if length wire < 28 then Inl HelloRecordShort else Inr (drop 28 (DecodePayloadData wire)))"

section \<open>Resolve\<close>

record ConnectConfig =
  cc_Email :: string
  cc_Password :: string
  cc_Token :: string
  cc_DeviceModel :: string
  cc_DeviceSn :: string
  cc_Master :: string
  cc_ClientHelloRecord :: bytes
  cc_AppVersion :: string

record cli_world =
  cw_env :: env
  cw_readFile :: "string \<Rightarrow> string option"
  cw_readPassword :: "string list \<Rightarrow> string option \<times> string list"
  cw_login :: "string \<Rightarrow> string \<Rightarrow> cloud_err + string"
  cw_list :: "string \<Rightarrow> cloud_err + Device list"

definition credentials :: "cli_world \<Rightarrow> bool \<Rightarrow> stdin \<Rightarrow> stdin \<times> (config_err + string \<times> string)" where
  "credentials w noPrompt s =
     (let email = cw_env w ''SEESTAR_EMAIL''; password = cw_env w ''SEESTAR_PASSWORD''
      in if email \<noteq> [] \<and> password \<noteq> [] then (s, Inr (email, password))
         else if noPrompt then (s, Inl CredentialsUnset)
         else case ask s of
                (s, Inl e) \<Rightarrow> (s, Inl e)
              | (s, Inr email) \<Rightarrow>
                  (case askSecret (cw_readPassword w) s of
                     (s, Inl e) \<Rightarrow> (s, Inl e)
                   | (s, Inr password) \<Rightarrow> (s, Inr (email, password))))"

definition device_choice :: "cli_world \<Rightarrow> string \<Rightarrow> bool \<Rightarrow> stdin \<Rightarrow> stdin \<times> (config_err + string \<times> string)" where
  "device_choice w token noPrompt s =
     (if cw_env w ''SEESTAR_SN'' \<noteq> [] then (s, Inr (cw_env w ''SEESTAR_SN'', cw_env w ''SEESTAR_MODEL''))
      else selectDevice (cw_list w token) noPrompt s)"

definition Resolve :: "cli_world \<Rightarrow> bool \<Rightarrow> stdin \<Rightarrow> stdin \<times> (config_err + ConnectConfig)" where
  "Resolve w noPrompt s =
     (case clientHello (cw_env w) (cw_readFile w) of
        Inl e \<Rightarrow> (s, Inl e)
      | Inr chRecord \<Rightarrow>
          (case credentials w noPrompt s of
             (s, Inl e) \<Rightarrow> (s, Inl e)
           | (s, Inr (email, password)) \<Rightarrow>
               (case cw_login w email password of
                  Inl e \<Rightarrow> (s, Inl (CloudErr e))
                | Inr token \<Rightarrow>
                    (case device_choice w token noPrompt s of
                       (s, Inl e) \<Rightarrow> (s, Inl e)
                     | (s, Inr (sn, model)) \<Rightarrow>
                         (s, Inr \<lparr>cc_Email = email, cc_Password = password, cc_Token = token,
                            cc_DeviceModel = (if model = [] then ''Seestar S30 Pro'' else model), cc_DeviceSn = sn,
                            cc_Master = EnvOr (cw_env w) ''SEESTAR_MASTER'' ''119.45.181.137:3478'',
                            cc_ClientHelloRecord = chRecord, cc_AppVersion = []\<rparr>)))))"

section \<open>The command line\<close>

text \<open>\<open>ParseFlags\<close>: the exit status, \<open>None\<close> when the command goes on.\<close>

datatype flag_result = FlagsOk | FlagsHelp | FlagsErr string

definition ParseFlags :: "flag_result \<Rightarrow> nat option" where
  "ParseFlags r = (case r of FlagsOk \<Rightarrow> None | FlagsHelp \<Rightarrow> Some 0 | FlagsErr _ \<Rightarrow> Some 2)"

section \<open>Laws\<close>

lemma clientHello_length: "clientHello env ReadFile = Inr rec \<Longrightarrow> length rec = 257"
proof -
  assume "clientHello env ReadFile = Inr rec"
  then obtain chHex wire where h: "\<not> length chHex < 570" "DecodeString (take 570 chHex) = Some wire" "rec = drop 28 (DecodePayloadData wire)"
    by (auto simp: clientHello_def Let_def split: option.splits if_splits)
  have "length wire = 285" using DecodeString_length [OF h(2)] h(1) by simp
  then show ?thesis using h(3) by (simp add: wire_len)
qed

text \<open>Lines typed at a terminal.\<close>

definition typed :: "string list \<Rightarrow> stdin" where
  "typed ls = \<lparr>si_term = True, si_chunks = map (\<lambda>l. l @ [newline]) ls\<rparr>"

lemma ask_typed [simp]:
  "ask (typed []) = (typed [], Inl ReadInput)"
  "newline \<notin> set l \<Longrightarrow> ask (typed (l # ls)) = (typed ls, Inr (TrimSpace (l @ [newline])))"
  by (simp_all add: ask_def typed_def takeWhile_append)

definition valid_choice :: "Device list \<Rightarrow> string \<Rightarrow> Device option" where
  "valid_choice devices l =
     (case Atoi (TrimSpace (TrimSpace (l @ [newline]))) of
        Some n \<Rightarrow> if 1 \<le> n \<and> n \<le> int (length devices) then Some (devices ! (nat n - 1)) else None
      | None \<Rightarrow> None)"

lemma choose_typed:
  "\<forall>l\<in>set ls. newline \<notin> set l \<Longrightarrow>
   snd (choose_device devices (typed ls)) =
     (case find (\<lambda>l. valid_choice devices l \<noteq> None) ls of None \<Rightarrow> Inl ReadInput | Some l \<Rightarrow> Inr (the (valid_choice devices l)))"
proof (induction ls)
  case Nil
  then show ?case by (subst choose_device.simps) simp
next
  case (Cons l ls)
  have "newline \<notin> set l" using Cons.prems by simp
  then show ?case
    using Cons by (subst choose_device.simps) (auto simp: valid_choice_def split: option.splits)
qed

lemma ask_device: "choose_device devices s = (s', Inr d) \<Longrightarrow> d \<in> set devices"
proof (induction devices s arbitrary: s' d rule: choose_device.induct)
  case (1 devices s)
  obtain s1 r where a: "ask s = (s1, r)" by fastforce
  from "1.prems" a show ?case
    using "1.IH" by (subst (asm) choose_device.simps) (auto split: sum.splits option.splits if_splits)
qed

lemma credentials_no_prompt: "fst (credentials w True s) = s"
  by (simp add: credentials_def Let_def)

lemma device_no_prompt: "fst (device_choice w token True s) = s"
  by (simp add: device_choice_def selectDevice_def split: sum.splits)

lemma select_listed: "selectDevice l np s = (s', Inr (sn, model)) \<Longrightarrow> \<exists>ds. l = Inr ds \<and> sn \<in> d_Sn ` set ds"
  using ask_device by (auto simp: selectDevice_def split: sum.splits prod.splits if_splits)

lemma resolve_facts:
  "snd (Resolve w noPrompt s) = Inr cfg \<Longrightarrow> length (cc_ClientHelloRecord cfg) = 257 \<and>
     cw_login w (cc_Email cfg) (cc_Password cfg) = Inr (cc_Token cfg) \<and> cc_DeviceModel cfg \<noteq> [] \<and>
     (if cw_env w ''SEESTAR_SN'' \<noteq> [] then cc_DeviceSn cfg = cw_env w ''SEESTAR_SN''
      else \<exists>ds. cw_list w (cc_Token cfg) = Inr ds \<and> cc_DeviceSn cfg \<in> d_Sn ` set ds)"
  by (auto simp: Resolve_def device_choice_def clientHello_length select_listed split: sum.splits prod.splits if_splits)

section \<open>Properties\<close>

text \<open>
  C34. \<open>Resolve\<close>: with prompting disabled it never touches standard input, so a scripted run fails and does not block. Whatever
  it returns carries a ClientHello record of 257 bytes, the token of a login with the returned credentials, and a model
  that is not empty; the serial is \<open>SEESTAR_SN\<close> when that is set and otherwise that of a device on the account's list.
\<close>

theorem resolve_sound:
  "fst (Resolve w True s) = s \<and>
   (case snd (Resolve w noPrompt s) of
      Inl _ \<Rightarrow> True
    | Inr cfg \<Rightarrow> length (cc_ClientHelloRecord cfg) = 257 \<and>
        cw_login w (cc_Email cfg) (cc_Password cfg) = Inr (cc_Token cfg) \<and> cc_DeviceModel cfg \<noteq> [] \<and>
        (if cw_env w ''SEESTAR_SN'' \<noteq> [] then cc_DeviceSn cfg = cw_env w ''SEESTAR_SN''
         else \<exists>ds. cw_list w (cc_Token cfg) = Inr ds \<and> cc_DeviceSn cfg \<in> d_Sn ` set ds))"
proof
  show "fst (Resolve w True s) = s"
    using credentials_no_prompt [of w s] device_no_prompt [of w _ s]
    by (auto simp: Resolve_def split: sum.splits prod.splits) (metis fst_conv)+
  show "case snd (Resolve w noPrompt s) of
      Inl _ \<Rightarrow> True
    | Inr cfg \<Rightarrow> length (cc_ClientHelloRecord cfg) = 257 \<and>
        cw_login w (cc_Email cfg) (cc_Password cfg) = Inr (cc_Token cfg) \<and> cc_DeviceModel cfg \<noteq> [] \<and>
        (if cw_env w ''SEESTAR_SN'' \<noteq> [] then cc_DeviceSn cfg = cw_env w ''SEESTAR_SN''
         else \<exists>ds. cw_list w (cc_Token cfg) = Inr ds \<and> cc_DeviceSn cfg \<in> d_Sn ` set ds)"
    using resolve_facts [of w noPrompt s] by (cases "snd (Resolve w noPrompt s)") simp_all
qed

text \<open>
  Choosing a device at the terminal: of the lines typed, those that are not a number on the list are asked for again, and the first
  that is picks the device with that number; the end of the input is an error.
\<close>

theorem choose_first_valid:
  assumes "length devices > 1" "\<forall>l\<in>set ls. newline \<notin> set l"
  shows "snd (selectDevice (Inr devices) False (typed ls)) =
    (case find (\<lambda>l. valid_choice devices l \<noteq> None) ls of
       None \<Rightarrow> Inl ReadInput
     | Some l \<Rightarrow> Inr (d_Sn (the (valid_choice devices l)), d_Model (the (valid_choice devices l))))"
proof -
  have "devices \<noteq> []" "length devices \<noteq> 1" using assms(1) by auto
  then show ?thesis using choose_typed [OF assms(2), of devices]
    by (auto simp: selectDevice_def split: sum.splits prod.splits option.splits)
qed

theorem choose_first_valid_witness:
  "\<exists>d e. snd (selectDevice (Inr [d\<lparr>d_Sn := ''a''\<rparr>, e\<lparr>d_Sn := ''b'', d_Model := ''M''\<rparr>]) False (typed [''x'', '' 2 ''])) = Inr (''b'', ''M'')"
proof (intro exI)
  fix d e
  let ?ds = "[d\<lparr>d_Sn := ''a''\<rparr>, e\<lparr>d_Sn := ''b'', d_Model := ''M''\<rparr>] :: Device list"
  have "Atoi (TrimSpace (TrimSpace (''x'' @ [newline]))) = None" "Atoi (TrimSpace (TrimSpace ('' 2 '' @ [newline]))) = Some 2" by code_simp+
  then have "valid_choice ?ds ''x'' = None" "valid_choice ?ds '' 2 '' = Some (e\<lparr>d_Sn := ''b'', d_Model := ''M''\<rparr>)"
    by (simp_all add: valid_choice_def)
  then show "snd (selectDevice (Inr ?ds) False (typed [''x'', '' 2 ''])) = Inr (''b'', ''M'')"
    using choose_first_valid [of ?ds "[''x'', '' 2 '']"] by (simp add: newline_def)
qed

text \<open>
  Answers that arrive together are lost: when one read of standard input returns two lines, as from a pipe, the first
  prompt takes its line and drops the second with its reader, and the second prompt fails.
\<close>

theorem piped_answers_lost:
  assumes "newline \<notin> set email" "noPrompt = False" "cw_env w ''SEESTAR_EMAIL'' = []"
  shows "snd (credentials w noPrompt \<lparr>si_term = False, si_chunks = [email @ [newline] @ password @ [newline]]\<rparr>) = Inl ReadInput"
  using assms by (simp add: credentials_def ask_def askSecret_def takeWhile_append)

theorem piped_answers_lost_witness:
  "snd (credentials \<lparr>cw_env = \<lambda>_. [], cw_readFile = \<lambda>_. None, cw_readPassword = \<lambda>cs. (None, cs), cw_login = \<lambda>_ _. Inl Transport, cw_list = \<lambda>_. Inl Transport\<rparr>
     False \<lparr>si_term = False, si_chunks = [''me'' @ [newline] @ ''secret'' @ [newline]]\<rparr>) = Inl ReadInput"
  by (rule piped_answers_lost) (simp_all add: newline_def)

end
