(* ===== verification/Connect.thy ===== *)
theory Connect
  imports Config Handshake Tnauth
begin

text \<open>
  \<open>Dial\<close> of \<open>seestar/cloud.go\<close>, which puts the parts together: the login when there is no token yet, the
  connection window, the authkey from the licence, and \<open>OpenTunnel\<close> with what they gave. SHA-256 is that of the crypto record.
\<close>

datatype connect_failure =
    LoginErr cloud_err
  | LinkErr cloud_err
  | NoCreds nat
  | AuthKeyErr auth_error
  | TunnelErr hs_error

record cloud_world =
  cl_login :: "string \<Rightarrow> string \<Rightarrow> cloud_err + string"
  cl_link :: "string \<Rightarrow> string \<Rightarrow> http"
  cl_linkData :: "string \<Rightarrow> remoteConnectData option"
  cl_pub :: rsa_pub
  cl_b64 :: "string \<Rightarrow> bytes option"
  cl_realm :: "bytes \<Rightarrow> bytes option"

definition str_bytes :: "string \<Rightarrow> bytes" where
  "str_bytes s = map (\<lambda>c. of_nat (of_char c)) s"

text \<open>What a dial did in the cloud: whether it logged in, and the event it reported.\<close>

record cloud_trace =
  ct_loggedIn :: bool
  ct_event :: "(string \<times> string) option"

definition link_config :: "crypto \<Rightarrow> ConnectConfig \<Rightarrow> int \<Rightarrow> remoteConnectData \<Rightarrow> bytes \<Rightarrow> TunnelConfig" where
  "link_config cr cfg port link authKey =
     \<lparr>tc_PSK = cr_sha cr (str_bytes (rc_Password link)), tc_Identity = str_bytes (rc_Username link),
      tc_ClientHelloRecord = cc_ClientHelloRecord cfg, tc_Port = port,
      tc_Device = \<lparr>di_UID = str_bytes (rc_DeviceUID link), di_Sn = str_bytes (cc_DeviceSn cfg),
        di_ConID = str_bytes (rc_ConID link), di_AuthKey = authKey\<rparr>\<rparr>"

definition get_token :: "cloud_world \<Rightarrow> ConnectConfig \<Rightarrow> cloud_err + string" where
  "get_token cl cfg = (if cc_Token cfg = [] then cl_login cl (cc_Email cfg) (cc_Password cfg) else Inr (cc_Token cfg))"

text \<open>The cloud's half of \<open>Dial\<close>: the configuration of the tunnel, or the failure.\<close>

definition authorize :: "crypto \<Rightarrow> cloud_world \<Rightarrow> ConnectConfig \<Rightarrow> int \<Rightarrow> cloud_trace \<times> (connect_failure + TunnelConfig)" where
  "authorize cr cl cfg port =
     (let appVer = default_appVer (cc_AppVersion cfg);
          t = \<lparr>ct_loggedIn = (cc_Token cfg = []), ct_event = None\<rparr>
      in case get_token cl cfg of
           Inl e \<Rightarrow> (t, Inl (LoginErr e))
         | Inr token \<Rightarrow>
             (case onlineLink (cl_linkData cl) (cl_link cl token appVer) of
                Inl e \<Rightarrow> (t, Inl (LinkErr e))
              | Inr (link, status) \<Rightarrow>
                  if rc_DeviceUID link = [] \<or> rc_Password link = [] then (t, Inl (NoCreds status))
                  else
                    let t = t\<lparr>ct_event := Some (rc_ConID link, ''p2pConnectStart'')\<rparr>
                    in case DeriveAuthKey (cl_pub cl) (cl_b64 cl) (cl_realm cl) (rc_SDKLicenseKey link) of
                         Inl e \<Rightarrow> (t, Inl (AuthKeyErr e))
                       | Inr authKey \<Rightarrow> (t, Inr (link_config cr cfg port link authKey))))"

definition seestar_Dial ::
  "crypto \<Rightarrow> (nat \<Rightarrow> nat) \<Rightarrow> cloud_world \<Rightarrow> (DeviceIdentity \<Rightarrow> dial_error + Session) \<Rightarrow> bytes \<Rightarrow> hs_world \<Rightarrow> ConnectConfig \<Rightarrow> int \<Rightarrow>
     (Session option \<times> (connect_failure + Tunnel \<times> keys)) option" where
  "seestar_Dial cr capOf cl dial myPriv w cfg port =
     (case snd (authorize cr cl cfg port) of
        Inl e \<Rightarrow> Some (None, Inl e)
      | Inr tc \<Rightarrow>
          map_option (\<lambda>(s, r). (s, case r of Inl e \<Rightarrow> Inl (TunnelErr e) | Inr x \<Rightarrow> Inr x))
            (OpenTunnel cr capOf tc (dial (tc_Device tc)) myPriv w))"

section \<open>Facts\<close>

lemma Login_token: "Login dec h = Inr tok \<Longrightarrow> tok \<noteq> []"
  by (auto simp: Login_def split: sum.splits if_splits)

lemma DeriveAuthKey_not_nil: "DeriveAuthKey p b r l = Inr k \<Longrightarrow> k \<noteq> []"
  by (auto simp: DeriveAuthKey_def Let_def split: option.splits if_splits)

lemma authorize_config:
  assumes "snd (authorize cr cl cfg port) = Inr tc"
  shows "\<exists>link k. tc = link_config cr cfg port link k \<and> k \<noteq> [] \<and> rc_DeviceUID link \<noteq> [] \<and> rc_Password link \<noteq> []"
proof -
  obtain token where t: "get_token cl cfg = Inr token"
    using assms by (cases "get_token cl cfg") (simp_all add: authorize_def Let_def)
  obtain link st where l: "onlineLink (cl_linkData cl) (cl_link cl token (default_appVer (cc_AppVersion cfg))) = Inr (link, st)"
    using assms t by (cases "onlineLink (cl_linkData cl) (cl_link cl token (default_appVer (cc_AppVersion cfg)))")
      (auto simp: authorize_def Let_def)
  have c: "rc_DeviceUID link \<noteq> []" "rc_Password link \<noteq> []"
    using assms t l by (simp_all add: authorize_def Let_def split: if_splits)
  obtain k where k: "DeriveAuthKey (cl_pub cl) (cl_b64 cl) (cl_realm cl) (rc_SDKLicenseKey link) = Inr k"
    using assms t l c by (cases "DeriveAuthKey (cl_pub cl) (cl_b64 cl) (cl_realm cl) (rc_SDKLicenseKey link)")
      (simp_all add: authorize_def Let_def)
  have "tc = link_config cr cfg port link k" using assms t l c k by (simp add: authorize_def Let_def)
  then show ?thesis using c DeriveAuthKey_not_nil [OF k] by blast
qed

lemma parse_SKE_not_short: "parse_SKE ske \<noteq> Inl HelloTooShort"
  by (simp add: parse_SKE_def Let_def)

lemma keys_not_short: "handshake_keys cr capOf cfg myPriv f \<noteq> Some (Inl HelloTooShort)"
  using parse_SKE_not_short [of "the (fl_ske f)"]
  by (auto simp: handshake_keys_def Let_def bind_eq_Some_conv split: option.splits sum.splits)

lemma handshake_not_short: "handshake cr capOf cfg myPriv w sess \<noteq> Some (s, Inl HelloTooShort)"
  using keys_not_short
  by (auto simp: handshake_def closed_with_def Let_def bind_eq_Some_conv split: sum.splits if_splits prod.splits)

lemma embedded_wire: "length embeddedClientHello = 570" "DecodeString embeddedClientHello \<noteq> None"
  by code_simp+

text \<open>What \<open>Dial\<close> leaves behind, for a ClientHello of the right length.\<close>

definition dial_end :: "int \<Rightarrow> Session option \<times> (connect_failure + Tunnel \<times> keys) \<Rightarrow> bool" where
  "dial_end now res = (case res of (ss, r) \<Rightarrow>
     (case r of
       Inl e \<Rightarrow> e \<noteq> TunnelErr HelloTooShort \<and> (case ss of None \<Rightarrow> True | Some s \<Rightarrow> \<not> s_pcOpen s \<and> s_stopped s)
     | Inr (t, k) \<Rightarrow> (case ss of None \<Rightarrow> False
         | Some s \<Rightarrow> s_pcOpen s \<and> \<not> s_stopped s \<and> txSeq t = 3 \<and> tun_inv (pump_init now t))))"

lemma dial_outcome:
  assumes "seestar_Dial cr capOf cl dial myPriv hw cfg port = Some res" "length (cc_ClientHelloRecord cfg) = 257"
    "\<forall>dev sess. dial dev = Inr sess \<longrightarrow> s_pcOpen sess \<and> \<not> s_stopped sess"
  shows "dial_end now res"
proof (cases "snd (authorize cr cl cfg port)")
  case (Inl e)
  then have r: "res = (None, Inl e)" using assms(1) by (simp add: seestar_Dial_def)
  have "e \<noteq> TunnelErr x" for x
    using Inl by (auto simp: authorize_def Let_def split: sum.splits if_splits)
  then show ?thesis using r by (simp add: dial_end_def)
next
  case (Inr tc)
  then have l: "length (tc_ClientHelloRecord tc) = 257"
    using authorize_config [OF Inr] assms(2) by (auto simp: link_config_def)
  show ?thesis
  proof (cases "dial (tc_Device tc)")
    case (Inl e)
    then show ?thesis using assms(1) Inr l by (auto simp: seestar_Dial_def OpenTunnel_def dial_end_def)
  next
    case sess: (Inr sess)
    then obtain s x where h: "handshake cr capOf tc myPriv hw sess = Some (s, x)"
      "res = (Some s, case x of Inl e \<Rightarrow> Inl (TunnelErr e) | Inr y \<Rightarrow> Inr y)"
      using assms(1) Inr l by (auto simp: seestar_Dial_def OpenTunnel_def)
    have "hs_outcome (s, x)" using handshake_outcome [OF _ _ h(1)] assms(3) sess by blast
    then show ?thesis using h handshake_not_short [of cr capOf tc myPriv hw sess s]
      by (auto simp: dial_end_def hs_outcome_def tun_inv_pump_init split: sum.splits)
  qed
qed

definition embedded_record :: bytes where
  "embedded_record = drop 28 (DecodePayloadData (the (DecodeString embeddedClientHello)))"

lemma clientHello_embedded: "env ''SEESTAR_CH'' = [] \<Longrightarrow> clientHello env ReadFile = Inr embedded_record"
proof -
  assume e: "env ''SEESTAR_CH'' = []"
  obtain wire where w: "DecodeString embeddedClientHello = Some wire" using embedded_wire(2) by blast
  have "length wire = 285" using DecodeString_length [OF w] embedded_wire(1) by simp
  then show ?thesis using e w embedded_wire(1) by (simp add: clientHello_def embedded_record_def)
qed

definition is_hello_record :: "bytes \<Rightarrow> bool" where
  "is_hello_record b \<longleftrightarrow> (case ParseDTLSRecords b of
     [r] \<Rightarrow> dr_CT r = 0x16 \<and> dr_Epoch r = 0 \<and> dr_Seq r = 0 \<and> dr_Body r ! 0 = 1 \<and> length (dr_Body r) = 244
   | _ \<Rightarrow> False)"

lemma embedded_head: "take 14 embedded_record = [0x16, 0xfe, 0xff, 0, 0, 0, 0, 0, 0, 0, 0, 0, 244, 1]"
  by code_simp

lemma embedded_length: "length embedded_record = 257"
proof -
  have "clientHello (\<lambda>_. []) (\<lambda>_. None) = Inr embedded_record" by (rule clientHello_embedded) simp
  then show ?thesis by (rule clientHello_length)
qed

lemma embedded_hello: "is_hello_record embedded_record" "\<not> isClientHello embedded_record"
proof -
  define rest where "rest = drop 14 embedded_record"
  have b: "embedded_record = [0x16, 0xfe, 0xff, 0, 0, 0, 0, 0, 0, 0, 0, 0, 244, 1] @ rest"
    using append_take_drop_id [of 14 embedded_record] embedded_head by (simp add: rest_def)
  have l: "length rest = 243" using embedded_length by (simp add: rest_def)
  have pl: "unat (be_word (take 2 (drop 11 embedded_record)) :: u16) = 244" unfolding b by (simp add: be_word_def)
  have "ParseDTLSRecords embedded_record =
     \<lparr>dr_CT = embedded_record ! 0, dr_Epoch = be_word (take 2 (drop 3 embedded_record)),
      dr_Seq = be_word (take 6 (drop 5 embedded_record)), dr_Body = take 244 (drop 13 embedded_record)\<rparr>
       # ParseDTLSRecords (drop (13 + 244) embedded_record)"
    by (rule parse_record_step [OF _ pl]) (simp add: embedded_length)
  moreover have "ParseDTLSRecords (drop (13 + 244) embedded_record) = []"
    by (subst ParseDTLSRecords.simps) (simp add: embedded_length)
  ultimately show "is_hello_record embedded_record"
    unfolding is_hello_record_def by (simp add: embedded_length) (simp add: b l be_word_def)
  show "\<not> isClientHello embedded_record" unfolding b isClientHello_def by simp
qed

section \<open>Properties\<close>

text \<open>
  The embedded ClientHello is good: when \<open>SEESTAR_CH\<close> is not set, the configuration always gets a record, and it is a
  single DTLS handshake record of 257 bytes with a ClientHello in it, long enough for \<open>OpenTunnel\<close>. Its record version
  is already the one the device expects, so the session sends it unchanged.
\<close>

theorem embedded_hello_good:
  assumes "env ''SEESTAR_CH'' = []"
  shows "\<exists>rec. clientHello env ReadFile = Inr rec \<and> length rec = 257 \<and> is_hello_record rec \<and> \<not> isClientHello rec"
  using clientHello_embedded [where env = env and ReadFile = ReadFile, OF assms] embedded_length embedded_hello by blast

theorem embedded_hello_good_witness: "\<exists>rec. clientHello (\<lambda>_. []) (\<lambda>_. None) = Inr rec \<and> length rec = 257"
  using embedded_hello_good [of "\<lambda>_. []" "\<lambda>_. None"] by auto


definition demo_env :: env where
  "demo_env k = (if k = ''SEESTAR_EMAIL'' then ''me'' else if k = ''SEESTAR_PASSWORD'' then ''pw'' else if k = ''SEESTAR_SN'' then ''sn'' else [])"

definition demo_cli :: cli_world where
  "demo_cli = \<lparr>cw_env = demo_env, cw_readFile = \<lambda>_. None, cw_readPassword = \<lambda>cs. (None, cs),
     cw_login = \<lambda>_ _. Inr ''tok'', cw_list = \<lambda>_. Inl Transport\<rparr>"

definition demo_cloud :: cloud_world where
  "demo_cloud = \<lparr>cl_login = \<lambda>_ _. Inl Transport, cl_link = \<lambda>_ _. Answer 400 [],
     cl_linkData = \<lambda>_. Some \<lparr>rc_ConID = [], rc_DeviceUID = [], rc_Username = [], rc_Password = [], rc_P2PLicenseKey = [],
       rc_SDKLicenseKey = [], rc_P2PStatus = 0\<rparr>,
     cl_pub = demo_pub, cl_b64 = \<lambda>_. None, cl_realm = \<lambda>_. None\<rparr>"


end
