(* ===== verification/Smb_Conn.thy ===== *)
theory Smb_Conn
  imports Kalay_Prelude
begin

text \<open>
  The connection under the SMB client of the download and upload commands, \<open>cmd/download/main.go\<close>:
  \<open>tunConn\<close>, which buffers a tunnel channel behind \<open>net.Conn\<close>, and the \<open>connect\<close> closure with its retries,
  its setup timeout and its two-stage teardown.

  \<^item> \<open>tunConn\<close> is a monitor: every method runs under its mutex, so a run is a sequence of atomic steps. \<open>Read\<close>
    waits on a condition variable; a step of a waiting \<open>Read\<close> is one look at the state after a wake-up.
  \<^item> The channel, the SMB library and the dialler are parameters: what they return is given to the step.
\<close>

section \<open>The buffered connection\<close>

datatype conn_err = ChannelErr string | ErrDeadlineExceeded

record tunConn =
  tc_buf :: bytes
  tc_rerr :: "conn_err option"
  tc_rdl :: "int option"

definition newTunConn :: tunConn where
  "newTunConn = \<lparr>tc_buf = [], tc_rerr = None, tc_rdl = None\<rparr>"

text \<open>One round of the pump on what the channel's \<open>Read\<close> returned. It stops at the first error.\<close>

definition tc_pump :: "bytes \<Rightarrow> string option \<Rightarrow> tunConn \<Rightarrow> tunConn" where
  "tc_pump data err c =
     (let c = (if data \<noteq> [] then c\<lparr>tc_buf := tc_buf c @ data\<rparr> else c)
      in case err of None \<Rightarrow> c | Some e \<Rightarrow> c\<lparr>tc_rerr := Some (ChannelErr e)\<rparr>)"

text \<open>One look of \<open>Read\<close> at the state: \<open>None\<close> when it goes (back) to waiting.\<close>

definition tc_read :: "int \<Rightarrow> nat \<Rightarrow> tunConn \<Rightarrow> (tunConn \<times> (conn_err + bytes)) option" where
  "tc_read now plen c =
     (if tc_buf c = [] then
        (case tc_rerr c of
           Some e \<Rightarrow> Some (c, Inl e)
         | None \<Rightarrow>
             (case tc_rdl c of
                Some t \<Rightarrow> if now > t then Some (c, Inl ErrDeadlineExceeded) else None
              | None \<Rightarrow> None))
      else Some (c\<lparr>tc_buf := drop plen (tc_buf c)\<rparr>, Inr (take plen (tc_buf c))))"

definition SetReadDeadline :: "int option \<Rightarrow> tunConn \<Rightarrow> tunConn" where
  "SetReadDeadline t c = c\<lparr>tc_rdl := t\<rparr>"

text \<open>When the timer that \<open>Read\<close> arms before it waits wakes it; \<open>None\<close> for no timer.\<close>

definition tc_timer :: "int \<Rightarrow> tunConn \<Rightarrow> int option" where
  "tc_timer now c = (case tc_rdl c of None \<Rightarrow> None | Some t \<Rightarrow> Some (max now t))"

section \<open>Runs of the connection\<close>

datatype tc_event =
    Pumped bytes "string option"
  | ReadReturns "conn_err + bytes"
  | DeadlineSet "int option"

inductive tc_step :: "tunConn \<Rightarrow> tc_event \<Rightarrow> tunConn \<Rightarrow> bool" where
  pump: "tc_rerr c = None \<Longrightarrow> tc_step c (Pumped data err) (tc_pump data err c)"
| read: "tc_read now plen c = Some (c', r) \<Longrightarrow> tc_step c (ReadReturns r) c'"
| set: "tc_step c (DeadlineSet t) (SetReadDeadline t c)"

inductive_cases tc_stepE: "tc_step c e c'"

inductive tc_run :: "tc_event list \<Rightarrow> tunConn \<Rightarrow> bool" where
  start: "tc_run [] newTunConn"
| more: "tc_run es c \<Longrightarrow> tc_step c e c' \<Longrightarrow> tc_run (es @ [e]) c'"

fun pumped_bytes :: "tc_event list \<Rightarrow> bytes" where
  "pumped_bytes [] = []"
| "pumped_bytes (Pumped d _ # es) = d @ pumped_bytes es"
| "pumped_bytes (_ # es) = pumped_bytes es"

fun read_bytes :: "tc_event list \<Rightarrow> bytes" where
  "read_bytes [] = []"
| "read_bytes (ReadReturns (Inr d) # es) = d @ read_bytes es"
| "read_bytes (_ # es) = read_bytes es"

fun pump_error :: "tc_event list \<Rightarrow> string option" where
  "pump_error [] = None"
| "pump_error (Pumped _ (Some e) # es) = Some e"
| "pump_error (_ # es) = pump_error es"

lemma trace_append [simp]:
  "pumped_bytes (es @ fs) = pumped_bytes es @ pumped_bytes fs"
  "read_bytes (es @ fs) = read_bytes es @ read_bytes fs"
  "pump_error (es @ fs) = (case pump_error es of None \<Rightarrow> pump_error fs | Some e \<Rightarrow> Some e)"
proof -
  show "pumped_bytes (es @ fs) = pumped_bytes es @ pumped_bytes fs" by (induction es rule: pumped_bytes.induct) auto
  show "read_bytes (es @ fs) = read_bytes es @ read_bytes fs" by (induction es rule: read_bytes.induct) auto
  show "pump_error (es @ fs) = (case pump_error es of None \<Rightarrow> pump_error fs | Some e \<Rightarrow> Some e)"
    by (induction es rule: pump_error.induct) auto
qed

definition tc_inv :: "tc_event list \<Rightarrow> tunConn \<Rightarrow> bool" where
  "tc_inv es c \<longleftrightarrow> pumped_bytes es = read_bytes es @ tc_buf c \<and> tc_rerr c = map_option ChannelErr (pump_error es)"

lemma tc_step_inv: "tc_step c e c' \<Longrightarrow> tc_inv es c \<Longrightarrow> tc_inv (es @ [e]) c'"
proof (induction rule: tc_step.induct)
  case (pump c data err)
  then show ?case by (cases err) (auto simp: tc_inv_def tc_pump_def)
next
  case (read now plen c c' r)
  then show ?case
    by (cases r) (auto simp: tc_inv_def tc_read_def split: if_splits option.splits)
next
  case (set c t)
  then show ?case by (simp add: tc_inv_def SetReadDeadline_def split: option.splits)
qed

lemma tc_run_inv: "tc_run es c \<Longrightarrow> tc_inv es c"
  by (induction rule: tc_run.induct) (auto simp: tc_step_inv, simp add: tc_inv_def newTunConn_def)

section \<open>Connecting\<close>

definition dial_attempts :: nat where "dial_attempts = 6"

datatype setup_res = SetupOk | OpenErr | SmbDialErr | MountErr | SetupTimeout

datatype connect_err = DialErr | SetupErr setup_res

record conn_trace =
  ct_dials :: nat
  ct_sleeps :: "int list"
  ct_tunnel :: bool
  ct_session :: bool

text \<open>\<open>seestar.Dial\<close>, at most \<open>n\<close> times with 12 s after each failure.\<close>

fun dial_loop :: "nat \<Rightarrow> bool list \<Rightarrow> conn_trace \<Rightarrow> conn_trace" where
  "dial_loop 0 oks t = t"
| "dial_loop (Suc n) [] t = dial_loop n [] (t\<lparr>ct_dials := ct_dials t + 1, ct_sleeps := ct_sleeps t @ [12 * second]\<rparr>)"
| "dial_loop (Suc n) (ok # oks) t =
     (let t = t\<lparr>ct_dials := ct_dials t + 1\<rparr>
      in if ok then t\<lparr>ct_tunnel := True\<rparr> else dial_loop n oks (t\<lparr>ct_sleeps := ct_sleeps t @ [12 * second]\<rparr>))"

definition connect :: "bool list \<Rightarrow> setup_res \<Rightarrow> conn_trace \<times> connect_err option" where
  "connect oks setup_result =
     (let t = dial_loop dial_attempts oks \<lparr>ct_dials = 0, ct_sleeps = [], ct_tunnel = False, ct_session = False\<rparr>
      in if \<not> ct_tunnel t then (t, Some DialErr)
         else if setup_result = SetupOk then (t\<lparr>ct_session := True\<rparr>, None)
         else (t\<lparr>ct_tunnel := False\<rparr>, Some (SetupErr setup_result)))"

text \<open>The closer: how long the graceful teardown takes, \<open>None\<close> when it only returns once the tunnel is closed.\<close>

definition closer :: "int option \<Rightarrow> conn_trace \<Rightarrow> conn_trace \<times> bool" where
  "closer graceful t =
     (case graceful of
        Some d \<Rightarrow> if d \<le> 8 * second then (t\<lparr>ct_tunnel := False, ct_session := False\<rparr>, True)
                  else (t\<lparr>ct_tunnel := False\<rparr>, False)
      | None \<Rightarrow> (t\<lparr>ct_tunnel := False\<rparr>, False))"

lemma dial_loop_spec:
  "ct_dials (dial_loop n oks t) \<le> ct_dials t + n"
  "ct_session (dial_loop n oks t) = ct_session t"
  "\<not> ct_tunnel t \<Longrightarrow> ct_tunnel (dial_loop n oks t) \<longleftrightarrow> True \<in> set (take n oks)"
  by (induction n oks t rule: dial_loop.induct) (auto simp: Let_def)

text \<open>
  The buffered connection is a faithful pipe. In every run, the bytes the readers got so far followed
  by the buffer are exactly the bytes the channel delivered, in order: nothing is lost, duplicated
  or reordered, however the pump, the reads of any size and the changes of the deadline interleave. A reader sees the
  channel's error only after it has read every byte that came before it, and a deadline only
  when there is nothing to read and no channel error.
\<close>

theorem tun_conn_pipe:
  assumes "tc_run es c"
  shows "pumped_bytes es = read_bytes es @ tc_buf c \<and>
    (\<forall>now plen c' r. tc_read now plen c = Some (c', r) \<longrightarrow>
       (case r of
          Inr d \<Rightarrow> d = take plen (drop (length (read_bytes es)) (pumped_bytes es)) \<and> (plen \<noteq> 0 \<longrightarrow> d \<noteq> [])
        | Inl ErrDeadlineExceeded \<Rightarrow> read_bytes es = pumped_bytes es \<and> pump_error es = None \<and> (\<exists>t. tc_rdl c = Some t \<and> t < now)
        | Inl (ChannelErr e) \<Rightarrow> read_bytes es = pumped_bytes es \<and> pump_error es = Some e))"
  using tc_run_inv [OF assms]
  by (auto simp: tc_inv_def tc_read_def split: if_splits option.splits)

theorem tun_conn_pipe_witness:
  "tc_run [Pumped [1, 2, 3] None, ReadReturns (Inr [1, 2])]
     \<lparr>tc_buf = [3], tc_rerr = None, tc_rdl = None\<rparr> \<and>
   pumped_bytes [Pumped [1, 2, 3] None, ReadReturns (Inr [1, 2])] = [1, 2] @ [3]"
proof -
  have "tc_run ([] @ [Pumped [1, 2, 3] None]) (tc_pump [1, 2, 3] None newTunConn)"
    by (rule tc_run.more [OF tc_run.start tc_step.pump]) (simp add: newTunConn_def)
  moreover have "tc_step (tc_pump [1, 2, 3] None newTunConn) (ReadReturns (Inr [1, 2])) \<lparr>tc_buf = [3], tc_rerr = None, tc_rdl = None\<rparr>"
    by (rule tc_step.read [where now = 0 and plen = 2]) (simp add: tc_read_def tc_pump_def newTunConn_def)
  ultimately have r: "tc_run [Pumped [1, 2, 3] None, ReadReturns (Inr [1, 2])] \<lparr>tc_buf = [3], tc_rerr = None, tc_rdl = None\<rparr>"
    using tc_run.more by fastforce
  from tun_conn_pipe [OF r] r show ?thesis by simp
qed

text \<open>
  No tunnel outlives a failed connection. \<open>connect\<close> succeeds exactly when one of the first six dials succeeds and the SMB
  setup does; it then hands out an open tunnel. On every error (six failed dials, an SMB
  error, the 35 s setup timeout) no tunnel is left open, and after the closer has
  run the tunnel is closed on both of its paths, so the device's only session is released.
\<close>

theorem connect_no_leak:
  "case connect oks res of
     (t, None) \<Rightarrow> True \<in> set (take 6 oks) \<and> res = SetupOk \<and> ct_tunnel t \<and> \<not> ct_tunnel (fst (closer graceful t))
   | (t, Some e) \<Rightarrow> \<not> ct_tunnel t \<and> \<not> ct_session t \<and> \<not> (True \<in> set (take 6 oks) \<and> res = SetupOk)"
  using dial_loop_spec(2) [of dial_attempts oks "\<lparr>ct_dials = 0, ct_sleeps = [], ct_tunnel = False, ct_session = False\<rparr>"]
    dial_loop_spec(3) [of "\<lparr>ct_dials = 0, ct_sleeps = [], ct_tunnel = False, ct_session = False\<rparr>" dial_attempts oks]
  by (auto simp: connect_def closer_def Let_def dial_attempts_def split: option.splits)

end
