(* ===== verification/Download.thy ===== *)
theory Download
  imports Go_Files "HOL-Library.List_Lexorder" "HOL-Library.Char_ord"
begin

text \<open>
  The mirror command, \<open>cmd/download/main.go\<close>: the scope filters, the recursive listing, the fetch of one file
  by parallel range reads, the streaming walk with its retry bookkeeping, and the verification.

  \<^item> The SMB library and the device are the outside world. A listing is the tree a pass sees
    (\<open>listing\<close>, with \<open>ReadErr\<close> where \<open>ReadDir\<close> fails), a range read is what \<open>ReadAt\<close> returned.
  \<^item> The workers of \<open>fetchFile\<close> take offsets from one channel; a run is the list of the ranges they process,
    in any order. The local file system maps paths to contents.
  \<^item> Sizes and counters are \<open>int64\<close> in Go; a file's size is a natural number here and stays below its range.
    Progress output is left out.
\<close>

section \<open>Environment and scope\<close>

definition dl_envInt :: "string \<Rightarrow> int \<Rightarrow> int" where
  "dl_envInt v def = (if v \<noteq> [] then (case Atoi v of Some n \<Rightarrow> n | None \<Rightarrow> def) else def)"

definition readChunk :: nat where "readChunk = 2 ^ 20"

definition fetchFloorBps :: "string \<Rightarrow> int" where
  "fetchFloorBps v = max (dl_envInt v 400000) 1"

definition comma_entry :: "bool \<Rightarrow> string \<Rightarrow> string" where
  "comma_entry low p =
     (if low then (let p = ToLower p in if HasPrefix p ''.'' then p else ''.'' @ p) else p)"

definition commaSet :: "string \<Rightarrow> bool \<Rightarrow> string set" where
  "commaSet v low =
     fold (\<lambda>p out. let p = TrimSpace p in if p = [] then out else insert (comma_entry low p) out)
       (Split CHR '','' v) {}"

record scope =
  targets :: "string set"
  excludeExt :: "string set"

definition top_segment :: "string \<Rightarrow> string" where
  "top_segment rel = (case Cut rel CHR ''/'' of (before, _, found) \<Rightarrow> if found then before else rel)"

definition inScope :: "scope \<Rightarrow> string \<Rightarrow> bool" where
  "inScope sc rel \<longleftrightarrow> targets sc = {} \<or> rel = [] \<or> top_segment rel \<in> targets sc"

definition wantFile :: "scope \<Rightarrow> string \<Rightarrow> bool" where
  "wantFile sc name \<longleftrightarrow> excludeExt sc = {} \<or> ToLower (Ext name) \<notin> excludeExt sc"

text \<open>A filter set in order, for the banner.\<close>

definition setStr :: "string set \<Rightarrow> string \<Rightarrow> string" where
  "setStr m empty_str = (if m = {} then empty_str else Join (sorted_list_of_set m) '','')"

section \<open>Listing\<close>

datatype dev_entry = DFile string nat | DDir string listing
  and listing = ReadErr | Entries "dev_entry list"

record fileEnt =
  fe_rel :: string
  fe_size :: nat

definition child_rel :: "string \<Rightarrow> string \<Rightarrow> string" where
  "child_rel rel n = (if rel \<noteq> [] then rel @ ''/'' @ n else n)"

definition devPath :: "string \<Rightarrow> string \<Rightarrow> string" where
  "devPath share_root rel = ReplaceAll CHR ''/'' (CHR 0x5C) (if rel \<noteq> [] then share_root @ ''/'' @ rel else share_root)"

definition dot_name :: "string \<Rightarrow> bool" where
  "dot_name n \<longleftrightarrow> n = ''.'' \<or> n = ''..''"

text \<open>\<open>walk\<close>; an error is the directory whose \<open>ReadDir\<close> failed.\<close>

fun walk :: "scope \<Rightarrow> string \<Rightarrow> listing \<Rightarrow> string + fileEnt list"
  and walk_entries :: "scope \<Rightarrow> string \<Rightarrow> dev_entry list \<Rightarrow> string + fileEnt list" where
  "walk sc rel ReadErr = Inl rel"
| "walk sc rel (Entries es) = walk_entries sc rel es"
| "walk_entries sc rel [] = Inr []"
| "walk_entries sc rel (DDir n l # es) =
     (if dot_name n \<or> \<not> inScope sc (child_rel rel n) then walk_entries sc rel es
      else case walk sc (child_rel rel n) l of
             Inl e \<Rightarrow> Inl e
           | Inr fs \<Rightarrow> (case walk_entries sc rel es of Inl e \<Rightarrow> Inl e | Inr gs \<Rightarrow> Inr (fs @ gs)))"
| "walk_entries sc rel (DFile n sz # es) =
     (if dot_name n \<or> \<not> inScope sc (child_rel rel n) \<or> \<not> wantFile sc n then walk_entries sc rel es
      else case walk_entries sc rel es of
             Inl e \<Rightarrow> Inl e
           | Inr fs \<Rightarrow> Inr (\<lparr>fe_rel = child_rel rel n, fe_size = sz\<rparr> # fs))"

section \<open>Fetching one file\<close>

datatype fetch_err =
    OpenFailed
  | RangeFailed
  | LocalWriteFailed
  | ShortRead nat nat
  | DeadSession
  | FullStall nat
  | HardCapped nat
  | RenameFailed
  | Wedged

type_synonym local_fs = "string \<rightharpoonup> bytes"

text \<open>The offsets the feeder sends.\<close>

function job_offsets :: "nat \<Rightarrow> nat \<Rightarrow> nat list" where
  "job_offsets pos fsize = (if pos < fsize then pos # job_offsets (pos + readChunk) fsize else [])"
  by pat_completeness auto
termination by (relation "measure (\<lambda>(pos, fsize). fsize - pos)") (auto simp: readChunk_def)

declare job_offsets.simps [simp del]

definition jobs :: "nat \<Rightarrow> nat list" where
  "jobs fsize = job_offsets 0 fsize"

record range_read =
  rr_off :: nat
  rr_data :: bytes
  rr_err :: bool
  rr_writeErr :: bool

record fetch_state =
  fx_part :: bytes
  fx_done :: nat
  fx_rerr :: "fetch_err option"

definition first_err :: "fetch_err \<Rightarrow> fetch_state \<Rightarrow> fetch_state" where
  "first_err e s = (if fx_rerr s = None then s\<lparr>fx_rerr := Some e\<rparr> else s)"

text \<open>One range by a worker. \<open>rr_err\<close> is an error other than \<open>io.EOF\<close>.\<close>

definition fetch_job :: "range_read \<Rightarrow> fetch_state \<Rightarrow> fetch_state" where
  "fetch_job r s =
     (if rr_data r \<noteq> [] \<and> rr_writeErr r then first_err LocalWriteFailed s
      else
        let s = (if rr_data r \<noteq> [] then s\<lparr>fx_part := WriteAt (fx_part s) (rr_off r) (rr_data r)\<rparr> else s);
            s = s\<lparr>fx_done := fx_done s + length (rr_data r)\<rparr>
        in if rr_err r then first_err RangeFailed s else s)"

record limits =
  deadStart :: int
  stallGap :: int
  hardCap :: int

text \<open>The watchdog: ticks are (time, bytes done); \<open>None\<close> when the workers finish before it fires.\<close>

fun watch :: "limits \<Rightarrow> int \<Rightarrow> int \<Rightarrow> nat \<Rightarrow> (int \<times> nat) list \<Rightarrow> fetch_err option" where
  "watch lm start lastProg lastDone [] = None"
| "watch lm start lastProg lastDone ((now, d) # ticks) =
     (let (lastDone, lastProg) = (if d > lastDone then (d, now) else (lastDone, lastProg))
      in if d = 0 \<and> since now start > deadStart lm then Some DeadSession
         else if since now lastProg > stallGap lm then Some (FullStall d)
         else if since now start > hardCap lm then Some (HardCapped d)
         else watch lm start lastProg lastDone ticks)"

definition part_path :: "string \<Rightarrow> string" where
  "part_path dest = dest @ ''.part''"

definition abort_part :: "string \<Rightarrow> local_fs \<Rightarrow> fetch_err \<Rightarrow> local_fs \<times> (fetch_err + nat)" where
  "abort_part dest fs e = (fs(part_path dest := None), Inl e)"

definition fetchFile ::
  "limits \<Rightarrow> string \<Rightarrow> bool \<Rightarrow> nat \<Rightarrow> int \<Rightarrow> (int \<times> nat) list \<Rightarrow> range_read list \<Rightarrow> bool \<Rightarrow> local_fs \<Rightarrow>
     local_fs \<times> (fetch_err + nat)" where
  "fetchFile lm dest opened fsize start ticks reads renames fs =
     (if \<not> opened then (fs, Inl OpenFailed)
      else
        let s = fold fetch_job reads \<lparr>fx_part = [], fx_done = 0, fx_rerr = None\<rparr>;
            fs = fs(part_path dest \<mapsto> fx_part s)
        in case watch lm start start 0 ticks of
             Some e \<Rightarrow> abort_part dest fs e
           | None \<Rightarrow>
               (case fx_rerr s of
                  Some e \<Rightarrow> abort_part dest fs e
                | None \<Rightarrow>
                    if fx_done s \<noteq> fsize then abort_part dest fs (ShortRead (fx_done s) fsize)
                    else if \<not> renames then (fs, Inl RenameFailed)
                    else (fs(dest \<mapsto> fx_part s, part_path dest := None), Inr fsize)))"

text \<open>A call bounded by a timer: it took \<open>took\<close>, \<open>None\<close> when it never returns.\<close>

definition fetchWithTimeout :: "int \<Rightarrow> int option \<Rightarrow> fetch_err + nat \<Rightarrow> fetch_err + nat" where
  "fetchWithTimeout hard took r =
     (case took of None \<Rightarrow> Inl Wedged | Some t \<Rightarrow> if t \<le> hard + 20 * second then r else Inl Wedged)"

definition readDirTimeout :: "int \<Rightarrow> int option \<Rightarrow> listing \<Rightarrow> listing" where
  "readDirTimeout d took l = (case took of None \<Rightarrow> ReadErr | Some t \<Rightarrow> if t \<le> d then l else ReadErr)"

text \<open>The size-scaled ceiling: 90 s plus the size over the throughput floor.\<close>

definition file_hardCap :: "int \<Rightarrow> nat \<Rightarrow> int" where
  "file_hardCap bps fsize = i64 (90 * second + i64 (go_quot (int fsize) bps * second))"

section \<open>The manifest\<close>

definition manifest_line :: "fileEnt \<Rightarrow> string" where
  "manifest_line f = fe_rel f @ [CHR 0x09] @ itoa (fe_size f) @ [CHR 0x0A]"

definition writeManifest :: "fileEnt list \<Rightarrow> string" where
  "writeManifest fs = concat (map manifest_line fs)"

text \<open>\<open>LIST_ONLY\<close> writes the files in the order of their paths.\<close>

definition list_only_manifest :: "fileEnt list \<Rightarrow> string" where
  "list_only_manifest files = writeManifest (sort_key fe_rel files)"

section \<open>The streaming walk\<close>

definition maxFails :: nat where "maxFails = 4"

record mirror =
  mi_local :: "string \<rightharpoonup> nat"
  mi_fails :: "string \<Rightarrow> nat"
  mi_got :: nat
  mi_pass :: "fileEnt list"
  mi_stat :: "string \<Rightarrow> nat"
  mi_fetches :: "bool list"

text \<open>
  The next fetch: the size of the committed file, which is what the device reports when the file is
  opened, or a failure. \<open>mi_fetches\<close> lists which fetches succeed; those beyond it fail.
\<close>

definition next_fetch :: "string \<Rightarrow> mirror \<Rightarrow> mirror \<times> nat option" where
  "next_fetch child m =
     (case mi_fetches m of
        [] \<Rightarrow> (m, None)
      | ok # rs \<Rightarrow> (m\<lparr>mi_fetches := rs\<rparr>, if ok then Some (mi_stat m child) else None))"

definition stream_file :: "string \<Rightarrow> nat \<Rightarrow> mirror \<Rightarrow> mirror \<times> bool" where
  "stream_file child sz m =
     (let m = m\<lparr>mi_pass := mi_pass m @ [\<lparr>fe_rel = child, fe_size = sz\<rparr>]\<rparr>
      in if mi_local m child = Some sz then (m, True)
         else if mi_fails m child \<ge> maxFails then (m, True)
         else case next_fetch child m of
                (m, None) \<Rightarrow> (m\<lparr>mi_fails := (mi_fails m)(child := mi_fails m child + 1)\<rparr>, False)
              | (m, Some n) \<Rightarrow> (m\<lparr>mi_local := (mi_local m)(child \<mapsto> n), mi_got := mi_got m + 1\<rparr>, True))"

fun streamWalk :: "scope \<Rightarrow> string \<Rightarrow> listing \<Rightarrow> mirror \<Rightarrow> mirror \<times> bool"
  and stream_entries :: "scope \<Rightarrow> string \<Rightarrow> dev_entry list \<Rightarrow> mirror \<Rightarrow> mirror \<times> bool" where
  "streamWalk sc rel ReadErr m = (m, False)"
| "streamWalk sc rel (Entries es) m = stream_entries sc rel es m"
| "stream_entries sc rel [] m = (m, True)"
| "stream_entries sc rel (DDir n l # es) m =
     (if dot_name n \<or> \<not> inScope sc (child_rel rel n) then stream_entries sc rel es m
      else case streamWalk sc (child_rel rel n) l m of
             (m, False) \<Rightarrow> (m, False)
           | (m, True) \<Rightarrow> stream_entries sc rel es m)"
| "stream_entries sc rel (DFile n sz # es) m =
     (if dot_name n \<or> \<not> inScope sc (child_rel rel n) \<or> \<not> wantFile sc n then stream_entries sc rel es m
      else case stream_file (child_rel rel n) sz m of
             (m, False) \<Rightarrow> (m, False)
           | (m, True) \<Rightarrow> stream_entries sc rel es m)"

section \<open>The main loop\<close>

definition rest_time :: "nat \<Rightarrow> int" where
  "rest_time consecFail = min (int (40 + consecFail * 20) * second) (5 * 60 * second)"

record main_state =
  ma_mirror :: mirror
  ma_consecFail :: nat
  ma_rests :: "int list"
  ma_manifest :: "fileEnt list option"

text \<open>
  One turn of the loop on what it meets: no connection, or a connection with the tree it lists, the sizes
  it reports and the outcomes of the fetches. The boolean says that the loop ends.
\<close>

definition mirror_turn :: "scope \<Rightarrow> (listing \<times> (string \<Rightarrow> nat) \<times> bool list) option \<Rightarrow> main_state \<Rightarrow> main_state \<times> bool" where
  "mirror_turn sc w s =
     (case w of
        None \<Rightarrow>
          let cf = ma_consecFail s + 1
          in (s\<lparr>ma_consecFail := cf, ma_rests := ma_rests s @ [rest_time cf]\<rparr>, False)
      | Some (l, st, fetches) \<Rightarrow>
          let (m, complete) = streamWalk sc [] l ((ma_mirror s)\<lparr>mi_got := 0, mi_pass := [], mi_stat := st, mi_fetches := fetches\<rparr>);
              s = s\<lparr>ma_mirror := m\<rparr>
          in if complete then (s\<lparr>ma_manifest := Some (mi_pass m), ma_consecFail := 0\<rparr>, mi_got m = 0)
             else ((if mi_got m > 0 then s\<lparr>ma_consecFail := 0\<rparr> else s)\<lparr>ma_rests := ma_rests s @ [4 * second]\<rparr>, False))"

fun mirror_loop :: "scope \<Rightarrow> (listing \<times> (string \<Rightarrow> nat) \<times> bool list) option list \<Rightarrow> main_state \<Rightarrow> main_state \<times> bool" where
  "mirror_loop sc [] s = (s, False)"
| "mirror_loop sc (w # ws) s =
     (case mirror_turn sc w s of
        (s, True) \<Rightarrow> (s, True)
      | (s, False) \<Rightarrow> mirror_loop sc ws s)"

text \<open>\<open>enumerate\<close>: at most six attempts, each a listing or a failed connection.\<close>

fun enumerate_tries :: "nat \<Rightarrow> scope \<Rightarrow> listing option list \<Rightarrow> fileEnt list option" where
  "enumerate_tries 0 sc ws = None"
| "enumerate_tries (Suc n) sc [] = None"
| "enumerate_tries (Suc n) sc (None # ws) = enumerate_tries n sc ws"
| "enumerate_tries (Suc n) sc (Some l # ws) =
     (case walk sc [] l of Inl _ \<Rightarrow> enumerate_tries n sc ws | Inr fs \<Rightarrow> Some fs)"

definition dl_enumerate :: "scope \<Rightarrow> listing option list \<Rightarrow> fileEnt list option" where
  "dl_enumerate sc ws = enumerate_tries 6 sc ws"

definition verify_missing :: "(string \<rightharpoonup> nat) \<Rightarrow> fileEnt list \<Rightarrow> string list" where
  "verify_missing loc fs = map fe_rel (filter (\<lambda>f. loc (fe_rel f) = None) fs)"

definition verify_mismatch :: "(string \<rightharpoonup> nat) \<Rightarrow> fileEnt list \<Rightarrow> string list" where
  "verify_mismatch loc fs =
     map fe_rel (filter (\<lambda>f. case loc (fe_rel f) of None \<Rightarrow> False | Some n \<Rightarrow> n \<noteq> fe_size f) fs)"

text \<open>The exit status of the verification: 1 when the device cannot be listed, 2 when something is missing.\<close>

definition verify_exit :: "scope \<Rightarrow> (string \<rightharpoonup> nat) \<Rightarrow> listing option list \<Rightarrow> nat" where
  "verify_exit sc loc ws =
     (case dl_enumerate sc ws of
        None \<Rightarrow> 1
      | Some fs \<Rightarrow> if verify_missing loc fs = [] \<and> verify_mismatch loc fs = [] then 0 else 2)"

end
