(* ===== verification/Download_Facts.thy ===== *)
theory Download_Facts
  imports Download
begin

text \<open>
  What the mirror command guarantees: a committed file is the device's file byte for byte, whatever the order
  in which its ranges arrive; the walk lists exactly the files in scope; the streaming loop ends on a
  device that answers; and the verification reports exactly what is missing.
\<close>

section \<open>Ranges\<close>

definition range_len :: "nat \<Rightarrow> nat \<Rightarrow> nat" where
  "range_len fsize pos = min (pos + readChunk) fsize - pos"

lemma readChunk_pos [simp]: "0 < readChunk"
  by (simp add: readChunk_def)

lemma job_offsets_bounds: "pos \<in> set (job_offsets start fsize) \<Longrightarrow> start \<le> pos \<and> pos < fsize"
proof (induction start fsize rule: job_offsets.induct)
  case (1 start fsize)
  then show ?case using job_offsets.simps [of start fsize] by (auto split: if_splits)
qed

lemma job_offsets_ranges:
  "distinct (job_offsets start fsize) \<and> sum_list (map (range_len fsize) (job_offsets start fsize)) = fsize - start"
proof (induction start fsize rule: job_offsets.induct)
  case (1 start fsize)
  show ?case
  proof (cases "start < fsize")
    case True
    have "start \<notin> set (job_offsets (start + readChunk) fsize)"
      using job_offsets_bounds [of start "start + readChunk" fsize] readChunk_pos by linarith
    moreover have "range_len fsize start + (fsize - (start + readChunk)) = fsize - start"
      using True by (simp add: range_len_def)
    ultimately show ?thesis using 1 [OF True] True job_offsets.simps [of start fsize] by simp
  next
    case False
    then show ?thesis by (subst (1 2) job_offsets.simps) simp
  qed
qed

lemma job_offsets_cover: "start \<le> i \<Longrightarrow> i < fsize \<Longrightarrow>
    \<exists>pos\<in>set (job_offsets start fsize). pos \<le> i \<and> i < pos + range_len fsize pos"
proof (induction start fsize rule: job_offsets.induct)
  case (1 start fsize)
  then have s: "start < fsize" by simp
  show ?case
  proof (cases "i < start + readChunk")
    case True
    then show ?thesis using s 1(2,3) by (subst job_offsets.simps) (auto simp: range_len_def)
  next
    case False
    then show ?thesis using s 1(1) [OF s] 1(3) by (subst job_offsets.simps) auto
  qed
qed

section \<open>A committed file is the device's file\<close>

text \<open>What \<open>ReadAt\<close> returns for a range: a prefix of the file's bytes there.\<close>

definition honest_read :: "bytes \<Rightarrow> range_read \<Rightarrow> bool" where
  "honest_read remote r \<longleftrightarrow> rr_off r \<in> set (jobs (length remote)) \<and>
     length (rr_data r) \<le> range_len (length remote) (rr_off r) \<and>
     rr_data r = take (length (rr_data r)) (drop (rr_off r) remote)"

definition pieces :: "range_read list \<Rightarrow> (nat \<times> bytes) list" where
  "pieces rs = map (\<lambda>r. (rr_off r, rr_data r)) rs"

lemma first_err_some [simp]: "fx_rerr (first_err e s) \<noteq> None"
  by (simp add: first_err_def)

lemma honest_slice: "honest_read remote r \<Longrightarrow> slice_of remote (rr_off r) (rr_data r)"
  using job_offsets_bounds [of "rr_off r" 0 "length remote"]
  by (auto simp: honest_read_def range_len_def jobs_def slice_of_def)

interpretation fetcher: range_writer fetch_job fx_part "\<lambda>s. fx_rerr s \<noteq> None" fx_done "\<lambda>r. (rr_off r, rr_data r)" "\<lambda>_. True"
proof
  show "fx_rerr (fetch_job r s) \<noteq> None" if "fx_rerr s \<noteq> None" for r s
    using that by (auto simp: fetch_job_def first_err_def Let_def)
  show "fx_part (fetch_job r s) = (if snd (rr_off r, rr_data r) = [] then fx_part s
        else WriteAt (fx_part s) (fst (rr_off r, rr_data r)) (snd (rr_off r, rr_data r))) \<and>
      fx_done (fetch_job r s) = fx_done s + length (snd (rr_off r, rr_data r))" if "\<not> fx_rerr (fetch_job r s) \<noteq> None" for r s
    using that by (auto simp: fetch_job_def Let_def split: if_splits)
qed

text \<open>Counting: distinct ranges whose lengths add up to the size of the file are all complete.\<close>

definition got_at :: "range_read list \<Rightarrow> nat \<Rightarrow> nat" where
  "got_at rs pos = sum_list (map (\<lambda>r. if rr_off r = pos then length (rr_data r) else 0) rs)"

lemma sum_got_at:
  assumes "finite J" "\<forall>r\<in>set rs. rr_off r \<in> J"
  shows "sum (got_at rs) J = sum_list (map (\<lambda>r. length (rr_data r)) rs)"
  using assms(2)
proof (induction rs)
  case Nil
  then show ?case by (simp add: got_at_def)
next
  case (Cons r rs)
  have "sum (got_at (r # rs)) J = (\<Sum>p\<in>J. (if rr_off r = p then length (rr_data r) else 0) + got_at rs p)"
    by (simp add: got_at_def)
  also have "\<dots> = length (rr_data r) + sum (got_at rs) J"
    using Cons.prems assms(1) by (simp add: sum.distrib)
  finally show ?case using Cons by simp
qed

lemma got_at_Cons [simp]: "got_at [] pos = 0"
  "got_at (r # rs) pos = (if rr_off r = pos then length (rr_data r) else 0) + got_at rs pos"
  by (simp_all add: got_at_def)

lemma got_at_zero: "pos \<notin> rr_off ` set rs \<Longrightarrow> got_at rs pos = 0"
  by (induction rs) auto

lemma got_at_one: "distinct (map rr_off rs) \<Longrightarrow> r \<in> set rs \<Longrightarrow> got_at rs (rr_off r) = length (rr_data r)"
  by (induction rs) (auto simp: got_at_zero image_iff)

lemma complete_ranges:
  assumes "list_all (honest_read remote) rs" "distinct (map rr_off rs)"
    "sum_list (map (\<lambda>r. length (rr_data r)) rs) = length remote" "pos \<in> set (jobs (length remote))"
  shows "\<exists>r\<in>set rs. rr_off r = pos \<and> length (rr_data r) = range_len (length remote) pos"
proof -
  let ?J = "set (jobs (length remote))" and ?l = "range_len (length remote)"
  have on: "\<forall>r\<in>set rs. rr_off r \<in> ?J" using assms(1) by (simp add: list_all_iff honest_read_def)
  have le: "got_at rs p \<le> ?l p" for p
  proof (cases "p \<in> rr_off ` set rs")
    case True
    then show ?thesis using assms(1) got_at_one [OF assms(2)] by (auto simp: list_all_iff honest_read_def)
  qed (simp add: got_at_zero)
  have "sum ?l ?J = length remote"
    using job_offsets_ranges [of 0 "length remote"] sum_list_distinct_conv_sum_set [of "jobs (length remote)" ?l]
    by (simp add: jobs_def)
  then have "sum (got_at rs) ?J = sum ?l ?J" using sum_got_at [OF _ on] assms(3) by simp
  from sum_mono_inv [OF this _ assms(4)] le have eq: "got_at rs pos = ?l pos" by simp
  have "0 < ?l pos" using job_offsets_bounds [of pos 0 "length remote"] assms(4) readChunk_pos
    by (simp add: jobs_def range_len_def)
  then have "pos \<in> rr_off ` set rs" using eq got_at_zero [of pos rs] by auto
  then show ?thesis using eq got_at_one [OF assms(2)] by auto
qed

lemma fetch_complete:
  assumes "list_all (honest_read remote) rs" "distinct (map rr_off rs)"
    "fx_rerr (fold fetch_job rs \<lparr>fx_part = [], fx_done = 0, fx_rerr = None\<rparr>) = None"
    "fx_done (fold fetch_job rs \<lparr>fx_part = [], fx_done = 0, fx_rerr = None\<rparr>) = length remote"
  shows "fx_part (fold fetch_job rs \<lparr>fx_part = [], fx_done = 0, fx_rerr = None\<rparr>) = remote"
proof -
  let ?s0 = "\<lparr>fx_part = [], fx_done = 0, fx_rerr = None\<rparr>"
  have fair: "list_all (\<lambda>_. True) rs" by (simp add: list_all_iff)
  have sl: "\<forall>r\<in>set rs. slice_of remote (fst (rr_off r, rr_data r)) (snd (rr_off r, rr_data r))"
    using assms(1) honest_slice by (simp add: list_all_iff)
  have ok: "\<not> fx_rerr (fold fetch_job rs ?s0) \<noteq> None" using assms(3) by simp
  have "sum_list (map (\<lambda>r. length (rr_data r)) rs) = length remote"
    using fetcher.fold_agrees [OF fair sl ok, of "{}"] assms(4) by simp
  note C = complete_ranges [OF assms(1,2) this]
  have "i \<in> covered (pieces rs)" if i: "i < length remote" for i
  proof -
    obtain pos where "pos \<in> set (jobs (length remote))" "pos \<le> i" "i < pos + range_len (length remote) pos"
      using job_offsets_cover [of 0 i "length remote"] i by (auto simp: jobs_def)
    then obtain r where "r \<in> set rs" "rr_off r \<le> i" "i < rr_off r + length (rr_data r)" using C by fastforce
    then show ?thesis by (auto simp: covered_def pieces_def)
  qed
  then have "{0..<length remote} \<subseteq> covered (map (\<lambda>r. (rr_off r, rr_data r)) rs)" by (auto simp: pieces_def)
  then show ?thesis by (intro fetcher.fold_rebuilds [OF fair sl ok]) simp_all
qed

text \<open>Ranges that all arrive in full leave no error and add up to the size.\<close>

lemma clean_fetch_gen:
  assumes "list_all (\<lambda>r. \<not> rr_err r \<and> \<not> rr_writeErr r) rs" "fx_rerr s = None"
  shows "fx_rerr (fold fetch_job rs s) = None \<and>
    fx_done (fold fetch_job rs s) = fx_done s + sum_list (map (\<lambda>r. length (rr_data r)) rs)"
  using assms
proof (induction rs arbitrary: s)
  case (Cons r rs)
  have "fx_rerr (fetch_job r s) = None" "fx_done (fetch_job r s) = fx_done s + length (rr_data r)"
    using Cons.prems by (auto simp: fetch_job_def Let_def)
  then show ?case using Cons.IH [of "fetch_job r s"] Cons.prems(1) by simp
qed simp

lemma clean_fetch:
  assumes "list_all (\<lambda>r. \<not> rr_err r \<and> \<not> rr_writeErr r \<and> length (rr_data r) = range_len fsize (rr_off r)) rs"
    "distinct (map rr_off rs)" "rr_off ` set rs = set (jobs fsize)"
  shows "fx_rerr (fold fetch_job rs \<lparr>fx_part = [], fx_done = 0, fx_rerr = None\<rparr>) = None \<and>
    fx_done (fold fetch_job rs \<lparr>fx_part = [], fx_done = 0, fx_rerr = None\<rparr>) = fsize"
proof -
  have "sum_list (map (\<lambda>r. length (rr_data r)) rs) = sum_list (map (range_len fsize) (map rr_off rs))"
    using assms(1) by (induction rs) auto
  also have "\<dots> = sum (range_len fsize) (set (jobs fsize))"
    using sum_list_distinct_conv_sum_set [OF assms(2), of "range_len fsize"] assms(3) by simp
  also have "\<dots> = fsize"
    using job_offsets_ranges [of 0 fsize] sum_list_distinct_conv_sum_set [of "jobs fsize" "range_len fsize"] by (simp add: jobs_def)
  finally show ?thesis
    using clean_fetch_gen [of rs "\<lparr>fx_part = [], fx_done = 0, fx_rerr = None\<rparr>"] assms(1) by (simp add: list_all_iff)
qed

section \<open>The walk lists exactly the files in scope\<close>

text \<open>The whole tree: every file with its name, and the directories that cannot be read.\<close>

fun all_files :: "string \<Rightarrow> listing \<Rightarrow> (string \<times> fileEnt) list"
  and entry_files :: "string \<Rightarrow> dev_entry list \<Rightarrow> (string \<times> fileEnt) list" where
  "all_files rel ReadErr = []"
| "all_files rel (Entries es) = entry_files rel es"
| "entry_files rel [] = []"
| "entry_files rel (DDir n l # es) = (if dot_name n then [] else all_files (child_rel rel n) l) @ entry_files rel es"
| "entry_files rel (DFile n sz # es) =
     (if dot_name n then [] else [(n, \<lparr>fe_rel = child_rel rel n, fe_size = sz\<rparr>)]) @ entry_files rel es"

fun unreadable :: "string \<Rightarrow> listing \<Rightarrow> string list"
  and entry_unreadable :: "string \<Rightarrow> dev_entry list \<Rightarrow> string list" where
  "unreadable rel ReadErr = [rel]"
| "unreadable rel (Entries es) = entry_unreadable rel es"
| "entry_unreadable rel [] = []"
| "entry_unreadable rel (DDir n l # es) = (if dot_name n then [] else unreadable (child_rel rel n) l) @ entry_unreadable rel es"
| "entry_unreadable rel (DFile n sz # es) = entry_unreadable rel es"

definition wanted :: "scope \<Rightarrow> string \<times> fileEnt \<Rightarrow> bool" where
  "wanted sc x \<longleftrightarrow> inScope sc (fe_rel (snd x)) \<and> wantFile sc (fst x)"

lemma top_segment_child: "rel \<noteq> [] \<Longrightarrow> top_segment (child_rel rel n) = top_segment rel"
proof -
  assume r: "rel \<noteq> []"
  have "takeWhile (\<lambda>x. x \<noteq> CHR ''/'') (rel @ CHR ''/'' # n) = takeWhile (\<lambda>x. x \<noteq> CHR ''/'') rel"
    by (induction rel) auto
  moreover have "CHR ''/'' \<notin> set rel \<Longrightarrow> takeWhile (\<lambda>x. x \<noteq> CHR ''/'') rel = rel"
    by (simp add: takeWhile_eq_all_conv) auto
  ultimately show ?thesis using r by (auto simp: top_segment_def child_rel_def Cut_def)
qed

lemma child_rel_nil: "child_rel rel n = [] \<longleftrightarrow> rel = [] \<and> n = []"
  by (simp add: child_rel_def)

text \<open>Below a directory out of scope nothing is in scope.\<close>

lemma out_of_scope:
  assumes "\<not> inScope sc rel"
  shows "\<forall>x\<in>set (all_files rel l). \<not> inScope sc (fe_rel (snd x))" "\<forall>d\<in>set (unreadable rel l). \<not> inScope sc d"
    "\<forall>x\<in>set (entry_files rel es). \<not> inScope sc (fe_rel (snd x))" "\<forall>d\<in>set (entry_unreadable rel es). \<not> inScope sc d"
proof -
  have c: "\<not> inScope sc (child_rel rel n)" if "\<not> inScope sc rel" for rel n
    using that by (simp add: inScope_def top_segment_child child_rel_nil)
  show "\<forall>x\<in>set (all_files rel l). \<not> inScope sc (fe_rel (snd x))" "\<forall>x\<in>set (entry_files rel es). \<not> inScope sc (fe_rel (snd x))"
    using assms by (induction rel l and rel es rule: all_files_entry_files.induct) (auto simp: c)
  show "\<forall>d\<in>set (unreadable rel l). \<not> inScope sc d" "\<forall>d\<in>set (entry_unreadable rel es). \<not> inScope sc d"
    using assms by (induction rel l and rel es rule: unreadable_entry_unreadable.induct) (auto simp: c)
qed

definition walk_spec :: "scope \<Rightarrow> string list \<Rightarrow> (string \<times> fileEnt) list \<Rightarrow> string + fileEnt list \<Rightarrow> bool" where
  "walk_spec sc bad fs res \<longleftrightarrow>
     (case filter (inScope sc) bad of
        [] \<Rightarrow> res = Inr (map snd (filter (wanted sc) fs))
      | d # _ \<Rightarrow> res = Inl d)"

lemma filter_out: "\<forall>x\<in>set xs. \<not> P x \<Longrightarrow> filter P xs = []"
  by (simp add: filter_empty_conv)

lemma walk_exact_gen:
  "inScope sc rel \<Longrightarrow> walk_spec sc (unreadable rel l) (all_files rel l) (walk sc rel l)"
  "inScope sc rel \<Longrightarrow> walk_spec sc (entry_unreadable rel es) (entry_files rel es) (walk_entries sc rel es)"
proof (induction sc rel l and sc rel es rule: walk_walk_entries.induct)
  case (4 sc rel n l es)
  show ?case
  proof (cases "dot_name n \<or> \<not> inScope sc (child_rel rel n)")
    case True
    have bad: "filter (inScope sc) (entry_unreadable rel (DDir n l # es)) = filter (inScope sc) (entry_unreadable rel es)"
      and fs: "filter (wanted sc) (entry_files rel (DDir n l # es)) = filter (wanted sc) (entry_files rel es)"
      using True out_of_scope(1,2) [of sc "child_rel rel n" l] by (auto simp: wanted_def filter_empty_conv)
    have w: "walk_entries sc rel (DDir n l # es) = walk_entries sc rel es" using True by simp
    show ?thesis using 4(1) [OF True 4(4)] unfolding walk_spec_def bad fs w .
  next
    case False
    have d: "walk_spec sc (unreadable (child_rel rel n) l) (all_files (child_rel rel n) l) (walk sc (child_rel rel n) l)"
      using 4(2) False by simp
    show ?thesis
    proof (cases "walk sc (child_rel rel n) l")
      case (Inl e)
      then show ?thesis using d False by (auto simp: walk_spec_def split: list.splits)
    next
      case (Inr fs)
      then have "walk_spec sc (entry_unreadable rel es) (entry_files rel es) (walk_entries sc rel es)"
        using 4(3) [OF False] 4(4) by simp
      then show ?thesis using d False Inr by (auto simp: walk_spec_def split: list.splits)
    qed
  qed
next
  case (5 sc rel n sz es)
  show ?case
  proof (cases "dot_name n \<or> \<not> inScope sc (child_rel rel n) \<or> \<not> wantFile sc n")
    case True
    have fs: "filter (wanted sc) (entry_files rel (DFile n sz # es)) = filter (wanted sc) (entry_files rel es)"
      using True by (auto simp: wanted_def)
    have w: "walk_entries sc rel (DFile n sz # es) = walk_entries sc rel es" using True by simp
    show ?thesis using 5(1) [OF True 5(3)] unfolding walk_spec_def fs w by simp
  next
    case False
    then show ?thesis using 5(2) [OF False 5(3)] by (auto simp: walk_spec_def wanted_def split: list.splits)
  qed
qed (auto simp: walk_spec_def)

section \<open>The streaming pass\<close>

text \<open>The files a pass meets, in order, and whether it reaches the end of the tree.\<close>

fun seen :: "scope \<Rightarrow> string \<Rightarrow> listing \<Rightarrow> fileEnt list \<times> bool"
  and seen_entries :: "scope \<Rightarrow> string \<Rightarrow> dev_entry list \<Rightarrow> fileEnt list \<times> bool" where
  "seen sc rel ReadErr = ([], False)"
| "seen sc rel (Entries es) = seen_entries sc rel es"
| "seen_entries sc rel [] = ([], True)"
| "seen_entries sc rel (DDir n l # es) =
     (if dot_name n \<or> \<not> inScope sc (child_rel rel n) then seen_entries sc rel es
      else case seen sc (child_rel rel n) l of
             (fs, False) \<Rightarrow> (fs, False)
           | (fs, True) \<Rightarrow> (let (gs, b) = seen_entries sc rel es in (fs @ gs, b)))"
| "seen_entries sc rel (DFile n sz # es) =
     (if dot_name n \<or> \<not> inScope sc (child_rel rel n) \<or> \<not> wantFile sc n then seen_entries sc rel es
      else let (gs, b) = seen_entries sc rel es in (\<lparr>fe_rel = child_rel rel n, fe_size = sz\<rparr> # gs, b))"

lemma seen_walk:
  "case walk sc rel l of Inl e \<Rightarrow> \<not> snd (seen sc rel l) | Inr fs \<Rightarrow> seen sc rel l = (fs, True)"
  "case walk_entries sc rel es of Inl e \<Rightarrow> \<not> snd (seen_entries sc rel es) | Inr fs \<Rightarrow> seen_entries sc rel es = (fs, True)"
  by (induction sc rel l and sc rel es rule: walk_walk_entries.induct)
    (auto split: sum.splits prod.splits bool.splits)

fun stream_all :: "fileEnt list \<Rightarrow> mirror \<Rightarrow> mirror \<times> bool" where
  "stream_all [] m = (m, True)"
| "stream_all (f # fs) m =
     (case stream_file (fe_rel f) (fe_size f) m of
        (m, False) \<Rightarrow> (m, False)
      | (m, True) \<Rightarrow> stream_all fs m)"

lemma stream_all_append:
  "stream_all (fs @ gs) m = (case stream_all fs m of (m, False) \<Rightarrow> (m, False) | (m, True) \<Rightarrow> stream_all gs m)"
  by (induction fs arbitrary: m) (auto split: prod.splits bool.splits)

lemma stream_seen:
  "streamWalk sc rel l m = (case stream_all (fst (seen sc rel l)) m of (m, b) \<Rightarrow> (m, b \<and> snd (seen sc rel l)))"
  "stream_entries sc rel es m =
     (case stream_all (fst (seen_entries sc rel es)) m of (m, b) \<Rightarrow> (m, b \<and> snd (seen_entries sc rel es)))"
  by (induction sc rel l m and sc rel es m rule: streamWalk_stream_entries.induct)
    (auto simp: stream_all_append split: sum.splits prod.splits bool.splits)

section \<open>Progress\<close>

definition present :: "mirror \<Rightarrow> fileEnt \<Rightarrow> bool" where
  "present m f \<longleftrightarrow> mi_local m (fe_rel f) = Some (fe_size f)"

definition settled :: "mirror \<Rightarrow> fileEnt \<Rightarrow> bool" where
  "settled m f \<longleftrightarrow> present m f \<or> maxFails \<le> mi_fails m (fe_rel f)"

definition cost :: "mirror \<Rightarrow> fileEnt \<Rightarrow> nat" where
  "cost m f = (if present m f then 0 else 1 + (maxFails - mi_fails m (fe_rel f)))"

definition total_cost :: "fileEnt list \<Rightarrow> mirror \<Rightarrow> nat" where
  "total_cost F m = sum_list (map (cost m) F)"

definition stat_ok :: "fileEnt list \<Rightarrow> mirror \<Rightarrow> bool" where
  "stat_ok F m \<longleftrightarrow> (\<forall>f\<in>set F. mi_stat m (fe_rel f) = fe_size f)"

lemma pass_irrelevant [simp]:
  "present (m\<lparr>mi_pass := p\<rparr>) = present m" "settled (m\<lparr>mi_pass := p\<rparr>) = settled m"
  "total_cost F (m\<lparr>mi_pass := p\<rparr>) = total_cost F m" "stat_ok F (m\<lparr>mi_pass := p\<rparr>) = stat_ok F m"
proof -
  have c: "cost (m\<lparr>mi_pass := p\<rparr>) = cost m" by (rule ext) (simp add: cost_def present_def)
  show "total_cost F (m\<lparr>mi_pass := p\<rparr>) = total_cost F m" by (simp add: total_cost_def c)
qed (auto simp: present_def settled_def stat_ok_def fun_eq_iff)

lemma total_cost_le: "total_cost F m \<le> 5 * length F"
proof (induction F)
  case (Cons f F)
  have "cost m f \<le> 5" by (simp add: cost_def maxFails_def)
  then show ?case using Cons by (simp add: total_cost_def)
qed (simp add: total_cost_def)

lemma total_cost_drop:
  assumes "distinct (map fe_rel F)" "f \<in> set F" "cost m' f < cost m f"
    "\<And>g. g \<in> set F \<Longrightarrow> fe_rel g \<noteq> fe_rel f \<Longrightarrow> cost m' g = cost m g"
  shows "total_cost F m' < total_cost F m"
proof -
  obtain xs ys where F: "F = xs @ f # ys" using assms(2) by (meson split_list)
  then have "\<forall>g\<in>set xs \<union> set ys. cost m' g = cost m g" using assms(1,4) by (auto simp: image_iff)
  then have "map (cost m') xs = map (cost m) xs" "map (cost m') ys = map (cost m) ys" by auto
  then show ?thesis using assms(3) by (simp add: total_cost_def F del: map_eq_conv)
qed

lemma stream_file_cases:
  assumes "stream_file (fe_rel f) (fe_size f) m = (m', b)"
  obtains (skip) "settled m f" "b" "m' = m\<lparr>mi_pass := mi_pass m @ [f]\<rparr>"
  | (got) "\<not> settled m f" "b" "mi_local m' = (mi_local m)(fe_rel f \<mapsto> mi_stat m (fe_rel f))" "mi_fails m' = mi_fails m"
      "mi_got m' = mi_got m + 1" "mi_stat m' = mi_stat m"
  | (failed) "\<not> settled m f" "\<not> b" "mi_local m' = mi_local m" "mi_stat m' = mi_stat m"
      "mi_fails m' = (mi_fails m)(fe_rel f := mi_fails m (fe_rel f) + 1)"
  using assms
  by (auto simp: stream_file_def next_fetch_def settled_def present_def Let_def split: if_splits list.splits)

lemma stream_file_cost:
  assumes "stream_file (fe_rel f) (fe_size f) m = (m', b)" "f \<in> set F" "distinct (map fe_rel F)" "stat_ok F m"
    "\<not> settled m f"
  shows "total_cost F m' < total_cost F m"
  using assms(1)
proof (cases rule: stream_file_cases)
  case skip
  then show ?thesis using assms(5) by simp
next
  case got
  then have "mi_stat m (fe_rel f) = fe_size f" using assms(2,4) by (simp add: stat_ok_def)
  then show ?thesis
    using got assms(5) by (intro total_cost_drop [OF assms(3,2)]) (auto simp: cost_def present_def settled_def)
next
  case failed
  then show ?thesis
    using assms(5) by (intro total_cost_drop [OF assms(3,2)]) (auto simp: cost_def present_def settled_def)
qed

text \<open>A pass either settles nothing new and reaches its end, or lowers the cost.\<close>

lemma stream_all_progress:
  assumes "stream_all fs m = (m', b)" "set fs \<subseteq> set F" "distinct (map fe_rel F)" "stat_ok F m"
  shows "(\<forall>f\<in>set fs. settled m f) \<and> b \<and> m' = m\<lparr>mi_pass := mi_pass m @ fs\<rparr> \<or>
    total_cost F m' < total_cost F m \<and> (b \<longrightarrow> mi_got m < mi_got m')"
  using assms
proof (induction fs arbitrary: m)
  case (Cons f fs)
  obtain m1 b1 where e: "stream_file (fe_rel f) (fe_size f) m = (m1, b1)" by fastforce
  from e show ?case
  proof (cases rule: stream_file_cases)
    case skip
    then have "stream_all fs m1 = (m', b)" "stat_ok F m1" using Cons.prems e by (auto simp: stat_ok_def)
    from Cons.IH [OF this(1) _ Cons.prems(3) this(2)] show ?thesis
      using Cons.prems(2) skip by auto
  next
    case got
    then have r: "stream_all fs m1 = (m', b)" "stat_ok F m1" using Cons.prems e by (auto simp: stat_ok_def)
    have "total_cost F m1 < total_cost F m" using stream_file_cost [OF e _ Cons.prems(3,4)] got Cons.prems(2) by simp
    with Cons.IH [OF r(1) _ Cons.prems(3) r(2)] show ?thesis
      using Cons.prems(2) got by auto
  next
    case failed
    then have "m' = m1" "\<not> b" using Cons.prems(1) e by auto
    then show ?thesis using stream_file_cost [OF e _ Cons.prems(3,4)] failed Cons.prems(2) by simp
  qed
qed simp

definition fresh_pass :: "(string \<Rightarrow> nat) \<Rightarrow> bool list \<Rightarrow> mirror \<Rightarrow> mirror" where
  "fresh_pass st fetches m = m\<lparr>mi_got := 0, mi_pass := [], mi_stat := st, mi_fetches := fetches\<rparr>"

lemma fresh_pass_simps [simp]:
  "present (fresh_pass st fetches m) = present m" "settled (fresh_pass st fetches m) = settled m"
  "total_cost F (fresh_pass st fetches m) = total_cost F m" "mi_got (fresh_pass st fetches m) = 0"
  "mi_pass (fresh_pass st fetches m) = []"
proof -
  have c: "cost (fresh_pass st fetches m) = cost m" by (rule ext) (simp add: cost_def present_def fresh_pass_def)
  show "total_cost F (fresh_pass st fetches m) = total_cost F m" by (simp add: total_cost_def c)
qed (auto simp: present_def settled_def fresh_pass_def fun_eq_iff)

text \<open>A session on a device whose tree is \<open>F\<close>: it may break off anywhere, and it reports the listed sizes.\<close>

definition session_of :: "scope \<Rightarrow> fileEnt list \<Rightarrow> (listing \<times> (string \<Rightarrow> nat) \<times> bool list) option \<Rightarrow> bool" where
  "session_of sc F w = (case w of None \<Rightarrow> True | Some (l, st, _) \<Rightarrow>
     set (fst (seen sc [] l)) \<subseteq> set F \<and> (snd (seen sc [] l) \<longrightarrow> fst (seen sc [] l) = F) \<and>
     (\<forall>f\<in>set F. st (fe_rel f) = fe_size f))"

definition full_listing :: "scope \<Rightarrow> (listing \<times> (string \<Rightarrow> nat) \<times> bool list) option \<Rightarrow> bool" where
  "full_listing sc w = (case w of None \<Rightarrow> False | Some (l, _, _) \<Rightarrow> snd (seen sc [] l))"

definition mirrored :: "fileEnt list \<Rightarrow> main_state \<Rightarrow> bool" where
  "mirrored F s \<longleftrightarrow> (\<forall>f\<in>set F. settled (ma_mirror s) f) \<and> ma_manifest s = Some F"

lemma mirror_turn_progress:
  assumes "mirror_turn sc w s = (s', b)" "session_of sc F w" "distinct (map fe_rel F)"
  shows "b \<and> mirrored F s' \<or>
    \<not> b \<and> total_cost F (ma_mirror s') + (if full_listing sc w then 1 else 0) \<le> total_cost F (ma_mirror s)"
proof (cases w)
  case None
  then show ?thesis using assms(1) by (auto simp: mirror_turn_def full_listing_def Let_def)
next
  case (Some x)
  obtain l st fetches where x: "x = (l, st, fetches)" by (rule prod_cases3)
  let ?m = "fresh_pass st fetches (ma_mirror s)" and ?fs = "fst (seen sc [] l)"
  obtain m1 b1 where r: "stream_all ?fs ?m = (m1, b1)" by fastforce
  have w: "streamWalk sc [] l ?m = (m1, b1 \<and> snd (seen sc [] l))" by (simp add: stream_seen r)
  have so: "set ?fs \<subseteq> set F" "snd (seen sc [] l) \<Longrightarrow> ?fs = F" "stat_ok F ?m"
    using assms(2) by (auto simp: session_of_def Some x stat_ok_def fresh_pass_def)
  note P = stream_all_progress [OF r so(1) assms(3) so(3)]
  have t: "mirror_turn sc w s =
      (if b1 \<and> snd (seen sc [] l) then (s\<lparr>ma_mirror := m1, ma_manifest := Some (mi_pass m1), ma_consecFail := 0\<rparr>, mi_got m1 = 0)
       else ((if mi_got m1 > 0 then s\<lparr>ma_mirror := m1, ma_consecFail := 0\<rparr> else s\<lparr>ma_mirror := m1\<rparr>)\<lparr>ma_rests := ma_rests s @ [4 * second]\<rparr>, False))"
    using w unfolding fresh_pass_def by (simp add: mirror_turn_def Some x Let_def)
  have m: "ma_mirror s' = m1" and f: "full_listing sc w = snd (seen sc [] l)"
    using assms(1) unfolding t by (auto simp: full_listing_def Some x split: if_splits)
  from P show ?thesis
  proof
    assume skip: "(\<forall>f\<in>set ?fs. settled ?m f) \<and> b1 \<and> m1 = ?m\<lparr>mi_pass := mi_pass ?m @ ?fs\<rparr>"
    show ?thesis
    proof (cases "snd (seen sc [] l)")
      case True
      then show ?thesis using skip so(2) assms(1) unfolding t by (auto simp: mirrored_def)
    next
      case False
      then show ?thesis using skip assms(1) m f unfolding t by auto
    qed
  next
    assume "total_cost F m1 < total_cost F ?m \<and> (b1 \<longrightarrow> mi_got ?m < mi_got m1)"
    then show ?thesis using assms(1) m unfolding t by (auto split: if_splits)
  qed
qed

lemma mirror_loop_ends:
  assumes "distinct (map fe_rel F)" "\<forall>w\<in>set ws. session_of sc F w"
    "total_cost F (ma_mirror s) < length (filter (full_listing sc) ws)"
  shows "\<exists>s'. mirror_loop sc ws s = (s', True) \<and> mirrored F s'"
  using assms(2,3)
proof (induction ws arbitrary: s)
  case (Cons w ws)
  obtain s1 b where e: "mirror_turn sc w s = (s1, b)" by fastforce
  show ?case
  proof (cases b)
    case True
    then show ?thesis using mirror_turn_progress [OF e _ assms(1)] Cons.prems e by simp
  next
    case False
    then have "total_cost F (ma_mirror s1) + (if full_listing sc w then 1 else 0) \<le> total_cost F (ma_mirror s)"
      using mirror_turn_progress [OF e _ assms(1)] Cons.prems by simp
    then have "total_cost F (ma_mirror s1) < length (filter (full_listing sc) ws)" using Cons.prems by (auto split: if_splits)
    then show ?thesis using Cons.IH [of s1] Cons.prems e False by simp
  qed
qed simp

section \<open>The manifest\<close>

definition parse_line :: "string \<Rightarrow> fileEnt option" where
  "parse_line l = (case Cut l (CHR 0x09) of (rel, n, ok) \<Rightarrow>
     if ok then map_option (\<lambda>k. \<lparr>fe_rel = rel, fe_size = k\<rparr>) (digits_val 0 n) else None)"

definition parse_manifest :: "string \<Rightarrow> fileEnt option list" where
  "parse_manifest t = map parse_line (butlast (Split (CHR 0x0A) t))"

lemma itoa_no_control: "c \<in> set (itoa n) \<Longrightarrow> c \<noteq> CHR 0x0A \<and> c \<noteq> CHR 0x09"
  using itoa_digits [of c n] by auto

text \<open>The manifest reads back, for paths without a tab or a newline in them.\<close>

lemma manifest_roundtrip:
  assumes "\<forall>f\<in>set fs. CHR 0x09 \<notin> set (fe_rel f) \<and> CHR 0x0A \<notin> set (fe_rel f)"
  shows "parse_manifest (writeManifest fs) = map Some fs"
  using assms
proof (induction fs)
  case Nil
  then show ?case by (simp add: parse_manifest_def writeManifest_def)
next
  case (Cons f fs)
  let ?l = "fe_rel f @ [CHR 0x09] @ itoa (fe_size f)"
  have "CHR 0x0A \<notin> set ?l" using Cons.prems itoa_no_control [of "CHR 0x0A" "fe_size f"] by auto
  then have "Split (CHR 0x0A) (writeManifest (f # fs)) = ?l # Split (CHR 0x0A) (writeManifest fs)"
    using Split_Cons [of "CHR 0x0A" ?l "writeManifest fs"] by (simp add: writeManifest_def manifest_line_def)
  moreover have "parse_line ?l = Some f"
    using Cons.prems Cut_first [of "CHR 0x09" "fe_rel f" "itoa (fe_size f)"] by (simp add: parse_line_def digits_val_itoa)
  ultimately show ?case using Cons by (simp add: parse_manifest_def)
qed

section \<open>Verification\<close>

definition listed :: "scope \<Rightarrow> listing option \<Rightarrow> fileEnt list option" where
  "listed sc w = (case w of None \<Rightarrow> None | Some l \<Rightarrow>
     if filter (inScope sc) (unreadable [] l) = [] then Some (map snd (filter (wanted sc) (all_files [] l))) else None)"

lemma walk_listed: "listed sc (Some l) = (case walk sc [] l of Inl _ \<Rightarrow> None | Inr fs \<Rightarrow> Some fs)"
  using walk_exact_gen(1) [of sc "[]" l] by (auto simp: listed_def walk_spec_def inScope_def split: list.splits)

lemma enumerate_first:
  "enumerate_tries n sc ws = (case find (\<lambda>w. listed sc w \<noteq> None) (take n ws) of None \<Rightarrow> None | Some w \<Rightarrow> listed sc w)"
proof (induction n sc ws rule: enumerate_tries.induct)
  case (3 n sc ws)
  moreover have "listed sc None = None" by (simp add: listed_def)
  ultimately show ?case by simp
next
  case (4 n sc l ws)
  then show ?case by (auto simp: walk_listed split: sum.splits)
qed auto

lemma verify_verdict:
  "verify_missing loc fs = [] \<and> verify_mismatch loc fs = [] \<longleftrightarrow> (\<forall>f\<in>set fs. loc (fe_rel f) = Some (fe_size f))"
proof (induction fs)
  case (Cons f fs)
  then show ?case by (cases "loc (fe_rel f)") (auto simp: verify_missing_def verify_mismatch_def)
qed (simp add: verify_missing_def verify_mismatch_def)

section \<open>Properties\<close>

text \<open>
  \<open>fetchFile\<close> is all or nothing. Whatever order the workers process the ranges in, and with short
  reads, read errors, local write errors, the watchdog or a failed rename anywhere: when the fetch returns
  without an error, the destination holds exactly the device's bytes and the \<open>.part\<close> file is gone; when it
  returns an error, every path but the \<open>.part\<close> file is as before, and the \<open>.part\<close> file itself is removed
  unless the rename is what failed. A run in which every range arrives in full does commit.
\<close>

theorem fetch_commits_exact:
  assumes "list_all (honest_read remote) reads" "distinct (map rr_off reads)"
  shows "case fetchFile lm dest opened (length remote) start ticks reads renames fs of
      (fs', Inr n) \<Rightarrow> n = length remote \<and> fs' = fs(dest \<mapsto> remote, part_path dest := None)
    | (fs', Inl e) \<Rightarrow>
        (\<forall>p. p \<noteq> part_path dest \<longrightarrow> fs' p = fs p) \<and>
        (e \<noteq> OpenFailed \<and> e \<noteq> RenameFailed \<longrightarrow> fs' (part_path dest) = None) \<and>
        \<not> (opened \<and> renames \<and> watch lm start start 0 ticks = None \<and>
           list_all (\<lambda>r. \<not> rr_err r \<and> \<not> rr_writeErr r \<and> length (rr_data r) = range_len (length remote) (rr_off r)) reads \<and>
           rr_off ` set reads = set (jobs (length remote)))"
proof -
  let ?s = "fold fetch_job reads \<lparr>fx_part = [], fx_done = 0, fx_rerr = None\<rparr>"
  have ok: "fx_rerr ?s = None \<and> fx_done ?s = length remote"
    if "list_all (\<lambda>r. \<not> rr_err r \<and> \<not> rr_writeErr r \<and> length (rr_data r) = range_len (length remote) (rr_off r)) reads"
      "rr_off ` set reads = set (jobs (length remote))"
    using clean_fetch [OF that(1) assms(2) that(2)] .
  show ?thesis
  proof (cases "opened \<and> watch lm start start 0 ticks = None \<and> fx_rerr ?s = None \<and> fx_done ?s = length remote")
    case True
    then have "fx_part ?s = remote" using fetch_complete [OF assms] by simp
    then show ?thesis using True by (auto simp: fetchFile_def Let_def)
  next
    case False
    then show ?thesis using ok
      by (auto simp: fetchFile_def abort_part_def Let_def split: option.splits)
  qed
qed

theorem fetch_commits_exact_witness:
  "case fetchFile \<lparr>deadStart = 25, stallGap = 90, hardCap = 90\<rparr> ''a'' True 3 0 []
     [\<lparr>rr_off = 0, rr_data = [1, 2, 3], rr_err = False, rr_writeErr = False\<rparr>] True Map.empty of
     (fs', Inr n) \<Rightarrow> n = 3 \<and> fs' = Map.empty(''a'' \<mapsto> [1, 2, 3], part_path ''a'' := None)
   | (fs', Inl e) \<Rightarrow> False"
proof -
  let ?r = "\<lparr>rr_off = 0, rr_data = [1, 2, 3], rr_err = False, rr_writeErr = False\<rparr>"
  have j: "jobs (Suc (Suc (Suc 0))) = [0]" by (simp add: jobs_def job_offsets.simps readChunk_def)
  then have "list_all (honest_read [1, 2, 3]) [?r]" "distinct (map rr_off [?r])"
    by (simp_all add: honest_read_def range_len_def readChunk_def)
  from fetch_commits_exact [OF this, where lm = "\<lparr>deadStart = 25, stallGap = 90, hardCap = 90\<rparr>" and dest = "''a''"
      and opened = True and start = 0 and ticks = "[]" and renames = True and fs = Map.empty]
  show ?thesis using j by (simp add: range_len_def readChunk_def fetchFile_def fetch_job_def WriteAt_def)
qed

text \<open>
  C29. \<open>walk\<close> against the tree: it fails exactly when a directory in scope cannot be read, with the first such
  directory in listing order, and otherwise returns, in listing order and with their sizes, exactly the
  files that lie under a directory of \<open>TARGETS\<close> and whose extension is not excluded. Directories outside
  the scope are not opened, so one that cannot be read there does no harm.
\<close>

theorem walk_exact:
  "walk sc [] l =
     (case filter (inScope sc) (unreadable [] l) of
        [] \<Rightarrow> Inr (map snd (filter (wanted sc) (all_files [] l)))
      | d # _ \<Rightarrow> Inl d)"
  using walk_exact_gen(1) [of sc "[]" l] by (auto simp: walk_spec_def inScope_def split: list.splits)

text \<open>
  The mirror loop ends. On a device whose tree \<open>F\<close> stays the same, with any number of failed connections,
  sessions that break off in the middle of the listing and failing fetches in between, at most five times the
  number of files many sessions that list the whole tree are enough: the loop then stops, every file is
  present locally at the listed size or has failed four times, and the manifest is the tree.
\<close>

theorem mirror_terminates:
  assumes "distinct (map fe_rel F)" "\<forall>w\<in>set ws. session_of sc F w"
    "5 * length F < length (filter (full_listing sc) ws)"
  shows "\<exists>s'. mirror_loop sc ws s = (s', True) \<and> ma_manifest s' = Some F \<and>
    (\<forall>f\<in>set F. mi_local (ma_mirror s') (fe_rel f) = Some (fe_size f) \<or> maxFails \<le> mi_fails (ma_mirror s') (fe_rel f))"
proof -
  have "total_cost F (ma_mirror s) < length (filter (full_listing sc) ws)"
    using assms(3) total_cost_le [of F "ma_mirror s"] by simp
  from mirror_loop_ends [OF assms(1,2) this] show ?thesis by (auto simp: mirrored_def settled_def present_def)
qed

theorem mirror_terminates_witness:
  "\<exists>s'. mirror_loop \<lparr>targets = {}, excludeExt = {}\<rparr>
      (None # replicate 6 (Some (Entries [DFile ''a.fit'' 7], \<lambda>_. 7, [False])))
      \<lparr>ma_mirror = \<lparr>mi_local = Map.empty, mi_fails = \<lambda>_. 0, mi_got = 0, mi_pass = [], mi_stat = \<lambda>_. 0, mi_fetches = []\<rparr>,
        ma_consecFail = 0, ma_rests = [], ma_manifest = None\<rparr> = (s', True) \<and>
    ma_manifest s' = Some [\<lparr>fe_rel = ''a.fit'', fe_size = 7\<rparr>]"
proof -
  let ?F = "[\<lparr>fe_rel = ''a.fit'', fe_size = 7\<rparr>]" and ?sc = "\<lparr>targets = {}, excludeExt = {}\<rparr> :: scope"
  let ?w = "Some (Entries [DFile ''a.fit'' 7], \<lambda>_. 7, [False]) :: (listing \<times> (string \<Rightarrow> nat) \<times> bool list) option"
  have s: "seen ?sc [] (Entries [DFile ''a.fit'' 7]) = (?F, True)"
    by (simp add: dot_name_def inScope_def wantFile_def child_rel_def)
  have "session_of ?sc ?F ?w" "full_listing ?sc ?w" using s by (simp_all add: session_of_def full_listing_def)
  then show ?thesis using mirror_terminates [of ?F "None # replicate 6 ?w" ?sc] by (simp add: session_of_def full_listing_def) blast
qed

text \<open>
  The exit status of the verification tells the truth. The device is listed at most six times and the
  first attempt that can read every directory in scope counts. The status is 1 when there is none;
  otherwise it is 0 when every file in scope on the device is present locally at the listed size,
  and 2 when at least one is missing or has another size.
\<close>

theorem verify_exact:
  "verify_exit sc loc ws =
     (case find (\<lambda>w. listed sc w \<noteq> None) (take 6 ws) of
        None \<Rightarrow> 1
      | Some w \<Rightarrow> if \<forall>f \<in> set (the (listed sc w)). loc (fe_rel f) = Some (fe_size f) then 0 else 2)"
proof (cases "find (\<lambda>w. listed sc w \<noteq> None) (take 6 ws)")
  case None
  then show ?thesis by (simp add: verify_exit_def dl_enumerate_def enumerate_first)
next
  case (Some w)
  then have "listed sc w \<noteq> None" by (auto simp: find_Some_iff)
  then show ?thesis using Some by (auto simp: verify_exit_def dl_enumerate_def enumerate_first verify_verdict)
qed

theorem verify_exact_witness:
  "verify_exit \<lparr>targets = {}, excludeExt = {}\<rparr> [''a.fit'' \<mapsto> 7] [None, Some (Entries [DFile ''a.fit'' 7])] = 0"
  using verify_exact [of "\<lparr>targets = {}, excludeExt = {}\<rparr>" "[''a.fit'' \<mapsto> 7]" "[None, Some (Entries [DFile ''a.fit'' 7])]"]
  by (simp add: listed_def wanted_def dot_name_def inScope_def wantFile_def child_rel_def)

end
