(* ===== verification/Download_Main.thy ===== *)
theory Download_Main
  imports Download_Facts Config
begin

text \<open>
  \<open>main\<close> of \<open>cmd/download/main.go\<close>: the settings from the environment, the listing-only mode, the mirror loop and the
  verification, composed in the order of the code.

  \<^item> \<open>dl_world\<close> holds what \<open>main\<close> meets: the environment, whether \<open>cli.Resolve\<close> succeeds, the sizes of the local files
    below \<open>OUTBASE\<close>, the sessions of the mirror loop and the listings of the enumerations (for \<open>None\<close>, a failed connection).
  \<^item> The result is the exit status, the local files and the manifest written; \<open>None\<close> says that the mirror
    loop has not ended with the sessions given.
\<close>

record dl_world =
  dw_env :: env
  dw_resolves :: bool
  dw_local :: "string \<rightharpoonup> nat"
  dw_sessions :: "(listing \<times> (string \<Rightarrow> nat) \<times> bool list) option list"
  dw_lists :: "listing option list"

definition dl_scope :: "env \<Rightarrow> scope" where
  "dl_scope env = \<lparr>targets = commaSet (env ''TARGETS'') False, excludeExt = commaSet (env ''EXCLUDE_EXT'') True\<rparr>"

definition listOnly :: "env \<Rightarrow> bool" where
  "listOnly env \<longleftrightarrow> env ''LIST_ONLY'' \<noteq> []"

definition dl_start :: "(string \<rightharpoonup> nat) \<Rightarrow> main_state" where
  "dl_start loc = \<lparr>ma_mirror = \<lparr>mi_local = loc, mi_fails = \<lambda>_. 0, mi_got = 0, mi_pass = [], mi_stat = \<lambda>_. 0, mi_fetches = []\<rparr>,
     ma_consecFail = 0, ma_rests = [], ma_manifest = None\<rparr>"

definition download_main :: "dl_world \<Rightarrow> (nat \<times> (string \<rightharpoonup> nat) \<times> string option) option" where
  "download_main w =
     (if \<not> dw_resolves w then Some (1, dw_local w, None)
      else
        let sc = dl_scope (dw_env w)
        in if listOnly (dw_env w) then
             (case dl_enumerate sc (dw_lists w) of
                None \<Rightarrow> Some (1, dw_local w, None)
              | Some fs \<Rightarrow> Some (0, dw_local w, Some (list_only_manifest fs)))
           else
             (case mirror_loop sc (dw_sessions w) (dl_start (dw_local w)) of
                (s, False) \<Rightarrow> None
              | (s, True) \<Rightarrow>
                  Some (verify_exit sc (mi_local (ma_mirror s)) (dw_lists w), mi_local (ma_mirror s),
                        map_option writeManifest (ma_manifest s))))"

section \<open>A device that does not change\<close>

text \<open>Every session and every listing sees the files \<open>F\<close>; enough sessions list the whole tree.\<close>

definition stable :: "dl_world \<Rightarrow> fileEnt list \<Rightarrow> bool" where
  "stable w F \<longleftrightarrow> distinct (map fe_rel F) \<and>
     list_all (session_of (dl_scope (dw_env w)) F) (dw_sessions w) \<and>
     5 * length F < length (filter (full_listing (dl_scope (dw_env w))) (dw_sessions w)) \<and>
     list_all (\<lambda>v. listed (dl_scope (dw_env w)) v \<in> {None, Some F}) (dw_lists w) \<and>
     list_ex (\<lambda>v. listed (dl_scope (dw_env w)) v \<noteq> None) (take 6 (dw_lists w))"

lemma stable_enumerate:
  assumes "stable w F"
  shows "dl_enumerate (dl_scope (dw_env w)) (dw_lists w) = Some F"
proof -
  let ?sc = "dl_scope (dw_env w)"
  obtain v where v: "v \<in> set (take 6 (dw_lists w))" "listed ?sc v \<noteq> None"
    using assms by (auto simp: stable_def list_ex_iff)
  then obtain u where u: "find (\<lambda>v. listed ?sc v \<noteq> None) (take 6 (dw_lists w)) = Some u"
    by (cases "find (\<lambda>v. listed ?sc v \<noteq> None) (take 6 (dw_lists w))") (auto simp: find_None_iff)
  then have "u \<in> set (dw_lists w)" "listed ?sc u \<noteq> None"
    by (auto simp: find_Some_iff dest: in_set_takeD nth_mem)
  then have "listed ?sc u = Some F" using assms by (auto simp: stable_def list_all_iff)
  with u show ?thesis by (simp add: dl_enumerate_def enumerate_first)
qed

lemma stable_mirror:
  assumes "stable w F"
  obtains s where "mirror_loop (dl_scope (dw_env w)) (dw_sessions w) (dl_start (dw_local w)) = (s, True)" "mirrored F s"
proof -
  have "total_cost F (ma_mirror (dl_start (dw_local w))) <
      length (filter (full_listing (dl_scope (dw_env w))) (dw_sessions w))"
    using assms total_cost_le [of F "ma_mirror (dl_start (dw_local w))"] by (simp add: stable_def)
  then show ?thesis
    using mirror_loop_ends [of F "dw_sessions w" "dl_scope (dw_env w)" "dl_start (dw_local w)"] assms that
    by (auto simp: stable_def list_all_iff)
qed



end
