(* ===== verification/Upload.thy ===== *)
theory Upload
  imports Go_Files Smb_Conn "HOL-Library.Multiset"
begin

text \<open>
  The upload command, \<open>cmd/upload/main.go\<close>: where a file lands on the device, the creation of its parent
  directories, the chunked write of one file by a pool of workers, and the loop over the files.

  \<^item> The SMB share is a parameter. Its \<open>Mkdir\<close> and \<open>Stat\<close> are functions on a state of the share; a \<open>WriteAt\<close> is what
    the call returned, with the bytes it left on the device.
  \<^item> \<open>os.File.Read\<close> returns at most the length of its buffer, and nothing without an error for an empty buffer; how much it returns
    is a parameter. The reading loop is a \<^theory_text>\<open>partial_function\<close> whose \<open>None\<close> is divergence.
  \<^item> The workers take the chunks from one channel; a run is the list of the writes they made, in any order.
\<close>

section \<open>Paths\<close>

definition backslash :: char where "backslash = CHR 0x5C"

definition relPath :: "string \<Rightarrow> string" where
  "relPath arg = TrimLeft (path_Clean (ReplaceAll backslash CHR ''/'' arg)) CHR ''/''"

definition item_rel :: "string \<Rightarrow> string \<Rightarrow> string" where
  "item_rel rel sub = TrimLeft (rel @ ''/'' @ sub) CHR ''/''"

definition full_path :: "string \<Rightarrow> string \<Rightarrow> string" where
  "full_path share_root rel = (if rel \<noteq> [] then share_root @ ''/'' @ rel else share_root)"

definition win_path :: "string \<Rightarrow> string" where
  "win_path p = ReplaceAll CHR ''/'' backslash p"

section \<open>Parent directories\<close>

definition next_cur :: "string \<Rightarrow> string \<Rightarrow> string" where
  "next_cur cur seg = (if cur = [] then seg else cur @ [backslash] @ seg)"

text \<open>The loop of \<open>mkdirP\<close>: \<open>Inl\<close> names the directory that could not be made.\<close>

fun mkdir_segs ::
  "('s \<Rightarrow> string \<Rightarrow> 's \<times> bool) \<Rightarrow> ('s \<Rightarrow> string \<Rightarrow> bool option) \<Rightarrow> string \<Rightarrow> string list \<Rightarrow> 's \<Rightarrow> 's \<times> (string + unit)" where
  "mkdir_segs Mkdir Stat cur [] s = (s, Inr ())"
| "mkdir_segs Mkdir Stat cur (seg # segs) s =
     (if seg = [] then mkdir_segs Mkdir Stat cur segs s
      else
        let cur = next_cur cur seg; (s, ok) = Mkdir s cur
        in if \<not> ok \<and> Stat s cur \<noteq> Some True then (s, Inl cur)
           else mkdir_segs Mkdir Stat cur segs s)"

definition mkdirP ::
  "('s \<Rightarrow> string \<Rightarrow> 's \<times> bool) \<Rightarrow> ('s \<Rightarrow> string \<Rightarrow> bool option) \<Rightarrow> string \<Rightarrow> 's \<Rightarrow> 's \<times> (string + unit)" where
  "mkdirP Mkdir Stat winDir s =
     (if winDir = [] \<or> winDir = ''.'' \<or> winDir = [backslash] then (s, Inr ())
      else mkdir_segs Mkdir Stat [] (Split CHR ''/'' (ReplaceAll backslash CHR ''/'' winDir)) s)"

section \<open>Writing one file\<close>

datatype read_res = Got bytes | Eof | ReadFail

text \<open>\<open>Read\<close> at an offset. \<open>sched\<close> says how many bytes the call returns, or \<open>None\<close> for an error.\<close>

definition os_read :: "nat \<Rightarrow> (nat \<Rightarrow> nat option) \<Rightarrow> bytes \<Rightarrow> nat \<Rightarrow> read_res" where
  "os_read chunk sched content pos =
     (if chunk = 0 then Got []
      else case sched pos of
             None \<Rightarrow> ReadFail
           | Some k \<Rightarrow> if length content \<le> pos then Eof else Got (take (max 1 (min k chunk)) (drop pos content)))"

type_synonym job = "nat \<times> bytes"

partial_function (option) feed ::
  "nat \<Rightarrow> (nat \<Rightarrow> nat option) \<Rightarrow> bytes \<Rightarrow> nat \<Rightarrow> job list \<Rightarrow> (job list \<times> bool) option" where
  "feed chunk sched content pos js =
     (case os_read chunk sched content pos of
        Eof \<Rightarrow> Some (js, True)
      | ReadFail \<Rightarrow> Some (js, False)
      | Got b \<Rightarrow> if b \<noteq> [] then feed chunk sched content (pos + length b) (js @ [(pos, b)])
                 else feed chunk sched content pos js)"

declare feed.simps [code]

record write_res =
  wr_job :: job
  wr_n :: nat
  wr_err :: bool

record write_state =
  wx_file :: bytes
  wx_n :: nat
  wx_err :: bool

definition write_job :: "write_res \<Rightarrow> write_state \<Rightarrow> write_state" where
  "write_job r s =
     (let b = take (wr_n r) (snd (wr_job r))
      in s\<lparr>wx_file := (if b = [] then wx_file s else WriteAt (wx_file s) (fst (wr_job r)) b),
           wx_n := wx_n s + wr_n r, wx_err := wx_err s \<or> wr_err r\<rparr>)"

datatype upload_err =
    LocalOpen
  | CreateErr
  | LocalRead
  | WriteErr
  | CloseErr
  | PostStat
  | SizeMismatch nat nat nat

text \<open>
  \<open>writeOneFile\<close> after the feeder: the local file was opened, the remote one created (empty), the chunks were
  written as \<open>ws\<close>. The result is the remote file, the count and the error.
\<close>

definition finish_write ::
  "bool \<Rightarrow> write_res list \<Rightarrow> bool \<Rightarrow> (bytes \<Rightarrow> nat option) \<Rightarrow> nat \<Rightarrow> bytes \<times> nat \<times> upload_err option" where
  "finish_write read_ok ws closes stat expect =
     (let s = fold write_job ws \<lparr>wx_file = [], wx_n = 0, wx_err = False\<rparr>;
          f = wx_file s; n = wx_n s
      in if \<not> read_ok then (f, n, Some LocalRead)
         else if wx_err s then (f, n, Some WriteErr)
         else if \<not> closes then (f, n, Some CloseErr)
         else case stat f of
                None \<Rightarrow> (f, n, Some PostStat)
              | Some sz \<Rightarrow> if sz \<noteq> expect then (f, n, Some (SizeMismatch n sz expect)) else (f, n, None))"

definition writeOneFile ::
  "nat \<Rightarrow> (nat \<Rightarrow> nat option) \<Rightarrow> (job list \<Rightarrow> write_res list) \<Rightarrow> bool \<Rightarrow> (bytes \<Rightarrow> nat option) \<Rightarrow> bytes option \<Rightarrow> bool \<Rightarrow> nat \<Rightarrow>
     (bytes option \<times> nat \<times> upload_err option) option" where
  "writeOneFile chunk sched pool closes stat local_file creates expect =
     (case local_file of
        None \<Rightarrow> Some (None, 0, Some LocalOpen)
      | Some content \<Rightarrow>
          if \<not> creates then Some (None, 0, Some CreateErr)
          else case feed chunk sched content 0 [] of
                 None \<Rightarrow> None
               | Some (js, read_ok) \<Rightarrow>
                   (case finish_write read_ok (pool js) closes stat expect of (f, n, e) \<Rightarrow> Some (Some f, n, e)))"

section \<open>The files to upload\<close>

record item =
  it_local :: string
  it_rel :: string
  it_size :: nat

text \<open>What \<open>filepath.WalkDir\<close> meets, in order: a path, its part below the root, and what it is.\<close>

datatype walk_kind = WErr | WDir | WFile "nat option"

fun walk_items :: "string \<Rightarrow> (string \<times> string \<times> walk_kind) list \<Rightarrow> item list option" where
  "walk_items rel [] = Some []"
| "walk_items rel ((p, sub, WErr) # ws) = None"
| "walk_items rel ((p, sub, WDir) # ws) = walk_items rel ws"
| "walk_items rel ((p, sub, WFile None) # ws) = None"
| "walk_items rel ((p, sub, WFile (Some sz)) # ws) =
     map_option ((#) \<lparr>it_local = p, it_rel = item_rel rel sub, it_size = sz\<rparr>) (walk_items rel ws)"

datatype local_stat = StatErr | IsFile nat | IsDir "(string \<times> string \<times> walk_kind) list"

definition collect_items :: "string \<Rightarrow> string \<Rightarrow> local_stat \<Rightarrow> item list option" where
  "collect_items localPath rel st =
     (case st of
        StatErr \<Rightarrow> None
      | IsFile n \<Rightarrow> Some [\<lparr>it_local = localPath, it_rel = rel, it_size = n\<rparr>]
      | IsDir ws \<Rightarrow> (case walk_items rel ws of None \<Rightarrow> None | Some [] \<Rightarrow> None | Some its \<Rightarrow> Some its))"

section \<open>The loop over the files\<close>

text \<open>
  \<open>put\<close> is \<open>writeOneFile\<close> on the share. \<open>os.Exit\<close> runs no deferred function, so the teardown that logs off and closes
  the tunnel only happens when the loop falls through.
\<close>

record upload_run =
  ur_done :: nat
  ur_written :: "string list"
  ur_exit :: nat
  ur_closed :: bool

definition make_parent ::
  "('s \<Rightarrow> string \<Rightarrow> 's \<times> bool) \<Rightarrow> ('s \<Rightarrow> string \<Rightarrow> bool option) \<Rightarrow> string \<Rightarrow> 's \<Rightarrow> 's \<times> (string + unit)" where
  "make_parent Mkdir Stat full s =
     (let dir = path_Dir full
      in if dir \<noteq> ''.'' \<and> dir \<noteq> ''/'' then mkdirP Mkdir Stat (win_path dir) s else (s, Inr ()))"

fun upload_items ::
  "('s \<Rightarrow> string \<Rightarrow> 's \<times> bool) \<Rightarrow> ('s \<Rightarrow> string \<Rightarrow> bool option) \<Rightarrow> (string \<Rightarrow> item \<Rightarrow> 's \<Rightarrow> 's \<times> nat \<times> upload_err option) \<Rightarrow>
     string \<Rightarrow> item list \<Rightarrow> upload_run \<Rightarrow> 's \<Rightarrow> 's \<times> upload_run" where
  "upload_items Mkdir Stat put share_root [] r s = (s, r\<lparr>ur_exit := 0, ur_closed := True\<rparr>)"
| "upload_items Mkdir Stat put share_root (it # its) r s =
     (let full = full_path share_root (it_rel it)
      in case make_parent Mkdir Stat full s of
           (s, Inl _) \<Rightarrow> (s, r\<lparr>ur_exit := 1\<rparr>)
         | (s, Inr _) \<Rightarrow>
             (case put (win_path full) it s of
                (s, n, Some _) \<Rightarrow> (s, r\<lparr>ur_done := ur_done r + n, ur_exit := 1\<rparr>)
              | (s, n, None) \<Rightarrow>
                  upload_items Mkdir Stat put share_root its
                    (r\<lparr>ur_done := ur_done r + n, ur_written := ur_written r @ [win_path full]\<rparr>) s))"

definition run_start :: upload_run where
  "run_start = \<lparr>ur_done = 0, ur_written = [], ur_exit = 0, ur_closed = False\<rparr>"

section \<open>The chunks\<close>

text \<open>The feeder's chunks lie end to end.\<close>

fun chained :: "nat \<Rightarrow> job list \<Rightarrow> bool" where
  "chained pos [] \<longleftrightarrow> True"
| "chained pos (j # js) \<longleftrightarrow> fst j = pos \<and> snd j \<noteq> [] \<and> chained (pos + length (snd j)) js"

definition chunks_of :: "nat \<Rightarrow> bytes \<Rightarrow> nat \<Rightarrow> job list \<Rightarrow> bool" where
  "chunks_of chunk content pos js \<longleftrightarrow> (\<forall>j\<in>set js. slice_of content (fst j) (snd j) \<and> length (snd j) \<le> chunk \<and> snd j \<noteq> []) \<and>
     covered js = {0..<pos} \<and> sum_list (map (\<lambda>j. length (snd j)) js) = pos"

lemma feed_terminates:
  assumes "0 < chunk" "chunks_of chunk content pos js" "pos \<le> length content"
  shows "\<exists>js' ok pos'. feed chunk sched content pos js = Some (js', ok) \<and> chunks_of chunk content pos' js' \<and>
    pos' \<le> length content \<and> (ok \<longrightarrow> pos' = length content) \<and> ((\<forall>p. sched p \<noteq> None) \<longrightarrow> ok)"
  using assms(2,3)
proof (induction "length content - pos" arbitrary: pos js rule: less_induct)
  case less
  show ?case
  proof (cases "os_read chunk sched content pos")
    case (Got b)
    then obtain k where k: "b = take (max 1 (min k chunk)) (drop pos content)" "pos < length content"
      using assms(1) by (auto simp: os_read_def split: if_splits option.splits)
    then have b: "b \<noteq> []" "length b \<le> chunk" "pos + length b \<le> length content" using assms(1) by auto
    have "b = take (length b) (drop pos content)" using k(1) by (metis append_eq_conv_conj append_take_drop_id)
    then have sl: "slice_of content pos b" using b(3) by (simp add: slice_of_def)
    have ch: "chunks_of chunk content (pos + length b) (js @ [(pos, b)])"
      using less.prems(1) b sl by (auto simp: chunks_of_def)
    have lt: "length content - (pos + length b) < length content - pos" using b(1,3) by (cases b) auto
    have "feed chunk sched content pos js = feed chunk sched content (pos + length b) (js @ [(pos, b)])"
      using Got b(1) by (subst feed.simps) simp
    then show ?thesis using less.hyps [OF lt ch b(3)] by (simp only:)
  next
    case Eof
    then have "feed chunk sched content pos js = Some (js, True)" by (subst feed.simps) simp
    moreover have "pos = length content" using Eof less.prems(2) by (simp add: os_read_def split: if_splits option.splits)
    ultimately show ?thesis using less.prems by blast
  next
    case ReadFail
    then have "feed chunk sched content pos js = Some (js, False)" by (subst feed.simps) simp
    moreover have "sched pos = None" using ReadFail by (simp add: os_read_def split: if_splits option.splits)
    ultimately show ?thesis using less.prems by blast
  qed
qed

lemma feed_zero: "feed 0 sched content pos js = None"
proof -
  have "chunk \<noteq> 0" if "feed chunk sched content pos js = Some y" for chunk y
  proof (rule feed.raw_induct [where P = "\<lambda>c _ _ _ _ _. c \<noteq> 0", OF _ that])
    fix f :: "nat \<Rightarrow> (nat \<Rightarrow> nat option) \<Rightarrow> bytes \<Rightarrow> nat \<Rightarrow> job list \<Rightarrow> (job list \<times> bool) option"
    fix c sched content pos js y
    assume ih: "\<And>c sched content pos js y. f c sched content pos js = Some y \<Longrightarrow> c \<noteq> 0"
      and body: "(case os_read c sched content pos of
        Got b \<Rightarrow> if b \<noteq> [] then f c sched content (pos + length b) (js @ [(pos, b)]) else f c sched content pos js
      | Eof \<Rightarrow> Some (js, True) | ReadFail \<Rightarrow> Some (js, False)) = Some y"
    show "c \<noteq> 0"
    proof
      assume "c = 0"
      then show False using body ih [of c sched content pos js y] by (simp add: os_read_def)
    qed
  qed
  then show ?thesis by (metis option.exhaust)
qed

section \<open>The writes\<close>

text \<open>What the share's \<open>WriteAt\<close> promises (the contract of \<open>io.WriterAt\<close>): it writes a prefix, and all of it without an error.\<close>

definition honest_write :: "write_res \<Rightarrow> bool" where
  "honest_write r \<longleftrightarrow> wr_n r \<le> length (snd (wr_job r)) \<and> (\<not> wr_err r \<longrightarrow> wr_n r = length (snd (wr_job r)))"

definition honest_pool :: "(job list \<Rightarrow> write_res list) \<Rightarrow> bool" where
  "honest_pool pool \<longleftrightarrow> (\<forall>js. mset (map wr_job (pool js)) = mset js \<and> list_all honest_write (pool js))"

interpretation writer: range_writer write_job wx_file wx_err wx_n wr_job honest_write
  by unfold_locales (auto simp: write_job_def Let_def honest_write_def)

lemma covered_mset: "mset ws = mset vs \<Longrightarrow> covered ws = covered vs"
  by (drule mset_eq_setD) (simp add: covered_def)

lemma sum_job_lengths:
  assumes "mset (map wr_job ws) = mset js"
  shows "sum_list (map (\<lambda>r. length (snd (wr_job r))) ws) = sum_list (map (\<lambda>j. length (snd j)) js)"
proof -
  have "mset (map (\<lambda>j. length (snd j)) (map wr_job ws)) = mset (map (\<lambda>j. length (snd j)) js)"
    using assms by (simp only: mset_map)
  from arg_cong [OF this, of sum_mset] show ?thesis by (simp only: sum_mset_sum_list map_map comp_def)
qed

lemma write_rebuilds:
  assumes "honest_pool pool" "chunks_of chunk content (length content) js"
    "\<not> wx_err (fold write_job (pool js) \<lparr>wx_file = [], wx_n = 0, wx_err = False\<rparr>)"
  shows "wx_file (fold write_job (pool js) \<lparr>wx_file = [], wx_n = 0, wx_err = False\<rparr>) = content \<and>
    wx_n (fold write_job (pool js) \<lparr>wx_file = [], wx_n = 0, wx_err = False\<rparr>) = length content"
proof -
  let ?s = "fold write_job (pool js) \<lparr>wx_file = [], wx_n = 0, wx_err = False\<rparr>"
  have p: "mset (map wr_job (pool js)) = mset js" "list_all honest_write (pool js)" using assms(1) by (auto simp: honest_pool_def)
  have "set (map wr_job (pool js)) = set js" using p(1) by (rule mset_eq_setD)
  then have sl: "\<forall>r\<in>set (pool js). slice_of content (fst (wr_job r)) (snd (wr_job r))"
    using assms(2) by (auto simp: chunks_of_def)
  have "covered (map wr_job (pool js)) = {0..<length content}"
    using covered_mset [OF p(1)] assms(2) by (simp add: chunks_of_def)
  then have "wx_file ?s = content" by (intro writer.fold_rebuilds [OF p(2) sl assms(3)]) simp_all
  moreover have "wx_n ?s = length content"
    using writer.fold_agrees [OF p(2) sl assms(3), of "{}"] sum_job_lengths [OF p(1)] assms(2) by (simp add: chunks_of_def)
  ultimately show ?thesis ..
qed

text \<open>Writes without an error and a size that matches: the write is reported as a success.\<close>

lemma pool_no_err:
  assumes "list_all (\<lambda>r. \<not> wr_err r) ws" "\<not> wx_err s"
  shows "\<not> wx_err (fold write_job ws s)"
  using assms by (induction ws arbitrary: s) (simp_all add: write_job_def Let_def)

section \<open>The directories\<close>

lemma Join_nil: "Join (x # xs) sep = [] \<Longrightarrow> x = []"
  by (cases xs) auto

lemma Join_snoc:
  assumes "\<forall>x\<in>set xs. x \<noteq> []"
  shows "Join (xs @ [x]) [backslash] = next_cur (Join xs [backslash]) x"
  using assms
proof (induction xs "[backslash]" rule: Join.induct)
  case (3 x y xs)
  then show ?case using Join_nil [of y xs "[backslash]"] by (auto simp: next_cur_def split: if_splits)
qed (auto simp: next_cur_def)

definition all_dirs :: "('s \<Rightarrow> string \<Rightarrow> bool option) \<Rightarrow> 's \<Rightarrow> string list \<Rightarrow> nat \<Rightarrow> bool" where
  "all_dirs Stat s segs n \<longleftrightarrow> (\<forall>k\<in>{1..n}. Stat s (Join (take k segs) [backslash]) = Some True)"

lemma all_dirs_snoc:
  "all_dirs Stat s (segs @ [seg]) (Suc (length segs)) \<longleftrightarrow>
     all_dirs Stat s segs (length segs) \<and> Stat s (Join (segs @ [seg]) [backslash]) = Some True"
  by (auto simp: all_dirs_def atLeastAtMostSuc_conv)

text \<open>What the share promises: \<open>Mkdir\<close> makes the directory when it succeeds and never undoes one.\<close>

definition share_laws :: "('s \<Rightarrow> string \<Rightarrow> 's \<times> bool) \<Rightarrow> ('s \<Rightarrow> string \<Rightarrow> bool option) \<Rightarrow> bool" where
  "share_laws Mkdir Stat \<longleftrightarrow> (\<forall>s d. case Mkdir s d of (s', ok) \<Rightarrow>
     (ok \<longrightarrow> Stat s' d = Some True) \<and> (\<forall>p. Stat s p = Some True \<longrightarrow> Stat s' p = Some True))"

lemma share_lawsD:
  assumes "share_laws Mkdir Stat" "Mkdir s d = (s', ok)"
  shows "ok \<Longrightarrow> Stat s' d = Some True" "Stat s p = Some True \<Longrightarrow> Stat s' p = Some True"
proof -
  have "case Mkdir s d of (s', ok) \<Rightarrow>
      (ok \<longrightarrow> Stat s' d = Some True) \<and> (\<forall>p. Stat s p = Some True \<longrightarrow> Stat s' p = Some True)"
    by (rule assms(1) [unfolded share_laws_def, THEN spec, THEN spec])
  then show "ok \<Longrightarrow> Stat s' d = Some True" "Stat s p = Some True \<Longrightarrow> Stat s' p = Some True"
    using assms(2) by simp_all
qed

lemma mkdir_segs_spec:
  assumes laws: "share_laws Mkdir Stat"
    and "\<forall>x\<in>set pre. x \<noteq> []" "all_dirs Stat s pre (length pre)"
  shows "let all_segs = pre @ filter (\<lambda>seg. seg \<noteq> []) segs
    in case mkdir_segs Mkdir Stat (Join pre [backslash]) segs s of
         (s', Inr _) \<Rightarrow> all_dirs Stat s' all_segs (length all_segs)
       | (s', Inl d) \<Rightarrow> \<exists>n<length all_segs. d = Join (take (Suc n) all_segs) [backslash] \<and> Stat s' d \<noteq> Some True \<and>
           all_dirs Stat s' all_segs n"
  using assms(2,3)
proof (induction segs arbitrary: pre s)
  case (Cons seg segs)
  show ?case
  proof (cases "seg = []")
    case True
    then show ?thesis using Cons by simp
  next
    case False
    let ?cur = "Join (pre @ [seg]) [backslash]"
    obtain s1 ok where e: "Mkdir s ?cur = (s1, ok)" by fastforce
    have c: "next_cur (Join pre [backslash]) seg = ?cur" using Join_snoc [OF Cons.prems(1)] by simp
    have a: "all_dirs Stat s1 pre (length pre)" using Cons.prems(2) share_lawsD(2) [OF laws e] by (auto simp: all_dirs_def)
    show ?thesis
    proof (cases "\<not> ok \<and> Stat s1 ?cur \<noteq> Some True")
      case True
      then have "mkdir_segs Mkdir Stat (Join pre [backslash]) (seg # segs) s = (s1, Inl ?cur)" using False e c by simp
      moreover have "all_dirs Stat s1 (pre @ seg # filter (\<lambda>seg. seg \<noteq> []) segs) (length pre)"
        using a by (auto simp: all_dirs_def)
      ultimately show ?thesis using True False by (auto intro!: exI [of _ "length pre"])
    next
      case ok: False
      then have "Stat s1 ?cur = Some True" using share_lawsD(1) [OF laws e] by auto
      then have "all_dirs Stat s1 (pre @ [seg]) (length (pre @ [seg]))" using a by (simp add: all_dirs_snoc)
      moreover have "mkdir_segs Mkdir Stat (Join pre [backslash]) (seg # segs) s = mkdir_segs Mkdir Stat ?cur segs s1"
        using False e c ok by (auto simp: Let_def)
      ultimately show ?thesis using Cons.IH [of "pre @ [seg]" s1] Cons.prems(1) False by simp
    qed
  qed
qed (simp add: all_dirs_def)

section \<open>The loop\<close>

definition run_end :: "string list \<Rightarrow> string list \<Rightarrow> upload_run \<Rightarrow> bool" where
  "run_end before paths r \<longleftrightarrow> (\<exists>k. ur_written r = before @ take k paths \<and>
     (if ur_exit r = 0 then k = length paths \<and> ur_closed r else k < length paths \<and> ur_exit r = 1 \<and> \<not> ur_closed r))"

lemma run_end_Cons:
  assumes "run_end (before @ [p]) paths r"
  shows "run_end before (p # paths) r"
proof -
  obtain k where k: "ur_written r = (before @ [p]) @ take k paths"
    "if ur_exit r = 0 then k = length paths \<and> ur_closed r else k < length paths \<and> ur_exit r = 1 \<and> \<not> ur_closed r"
    using assms unfolding run_end_def by blast
  then show ?thesis unfolding run_end_def by (intro exI [of _ "Suc k"]) (simp split: if_splits)
qed

lemma run_end_stop:
  assumes "ur_exit r = 1" "\<not> ur_closed r"
  shows "run_end (ur_written r) (p # paths) r"
  using assms unfolding run_end_def by (intro exI [of _ 0]) simp

lemma upload_items_end:
  assumes "\<not> ur_closed r0"
  shows "run_end (ur_written r0) (map (\<lambda>it. win_path (full_path share_root (it_rel it))) its)
    (snd (upload_items Mkdir Stat put share_root its r0 s))"
  using assms
proof (induction its arbitrary: r0 s)
  case Nil
  then show ?case by (simp add: run_end_def)
next
  case (Cons it its)
  let ?full = "full_path share_root (it_rel it)"
  obtain s1 d where m: "make_parent Mkdir Stat ?full s = (s1, d)" by fastforce
  obtain s2 n e where w: "put (win_path ?full) it s1 = (s2, n, e)" by (rule prod_cases3)
  consider (nodir) x where "d = Inl x" | (failed) y where "d = Inr ()" "e = Some y" | (fine) "d = Inr ()" "e = None"
    by (cases d; cases e) auto
  then show ?case
  proof cases
    case nodir
    then have "upload_items Mkdir Stat put share_root (it # its) r0 s = (s1, r0\<lparr>ur_exit := 1\<rparr>)" using m by simp
    then show ?thesis using run_end_stop [of "r0\<lparr>ur_exit := 1\<rparr>"] Cons.prems by simp
  next
    case failed
    then have "upload_items Mkdir Stat put share_root (it # its) r0 s = (s2, r0\<lparr>ur_done := ur_done r0 + n, ur_exit := 1\<rparr>)"
      using m w by simp
    then show ?thesis using run_end_stop [of "r0\<lparr>ur_done := ur_done r0 + n, ur_exit := 1\<rparr>"] Cons.prems by simp
  next
    case fine
    let ?r = "r0\<lparr>ur_done := ur_done r0 + n, ur_written := ur_written r0 @ [win_path ?full]\<rparr>"
    have "upload_items Mkdir Stat put share_root (it # its) r0 s = upload_items Mkdir Stat put share_root its ?r s2"
      using m w fine by simp
    then show ?thesis using run_end_Cons [of "ur_written r0" "win_path ?full"] Cons.IH [of ?r s2] Cons.prems by simp
  qed
qed

section \<open>Properties\<close>

text \<open>
  \<open>writeOneFile\<close> with a positive chunk size always returns, however much each \<open>Read\<close> returns. When it reports no error, the file
  on the device is byte for byte the local file, its size is the expected one and so is the
  count, in whatever order the workers made the writes. And when no call fails and the device reports
  the length of what was written, it does succeed.
\<close>

theorem upload_exact:
  assumes "0 < chunk" "honest_pool pool" "\<And>f. stat f = None \<or> stat f = Some (length f)"
  shows "\<exists>remote n e. writeOneFile chunk sched pool closes stat (Some content) True expect = Some (Some remote, n, e) \<and>
    (e = None \<longrightarrow> remote = content \<and> n = length content \<and> expect = length content) \<and>
    ((\<forall>p. sched p \<noteq> None) \<and> (\<forall>js. list_all (\<lambda>r. \<not> wr_err r) (pool js)) \<and> closes \<and> stat content \<noteq> None \<and>
       expect = length content \<longrightarrow> e = None)"
proof -
  have "chunks_of chunk content 0 []" by (simp add: chunks_of_def)
  from feed_terminates [OF assms(1) this, of sched] obtain js ok pos where f: "feed chunk sched content 0 [] = Some (js, ok)"
    "chunks_of chunk content pos js" "ok \<longrightarrow> pos = length content" "(\<forall>p. sched p \<noteq> None) \<longrightarrow> ok" by blast
  let ?s = "fold write_job (pool js) \<lparr>wx_file = [], wx_n = 0, wx_err = False\<rparr>"
  have w: "wx_file ?s = content \<and> wx_n ?s = length content" if "ok" "\<not> wx_err ?s"
    using write_rebuilds [OF assms(2), of chunk content js] f(2,3) that by simp
  have ne: "\<not> wx_err ?s" if "\<forall>js. list_all (\<lambda>r. \<not> wr_err r) (pool js)"
    using pool_no_err that by simp
  obtain remote n e where r: "finish_write ok (pool js) closes stat expect = (remote, n, e)" by (rule prod_cases3)
  have "e = None \<longrightarrow> remote = content \<and> n = length content \<and> expect = length content"
    using r w assms(3) [of content] by (auto simp: finish_write_def Let_def split: if_splits option.splits)
  moreover have "e = None" if "ok" "\<not> wx_err ?s" "closes" "stat content \<noteq> None" "expect = length content"
    using r w [OF that(1,2)] that assms(3) [of content] by (auto simp: finish_write_def Let_def split: if_splits option.splits)
  ultimately show ?thesis using f(1,4) r ne by (auto simp: writeOneFile_def)
qed

theorem upload_exact_witness:
  "\<exists>n e. writeOneFile 2 (\<lambda>_. Some 2) (\<lambda>js. map (\<lambda>j. \<lparr>wr_job = j, wr_n = length (snd j), wr_err = False\<rparr>) (rev js)) True (\<lambda>f. Some (length f))
      (Some [1, 2, 3]) True 3 = Some (Some [1, 2, 3], n, e)"
proof -
  let ?p = "\<lambda>js. map (\<lambda>j. \<lparr>wr_job = j, wr_n = length (snd j), wr_err = False\<rparr>) (rev js)"
  have "honest_pool ?p" by (simp add: honest_pool_def honest_write_def list_all_iff comp_def)
  from upload_exact [of 2 ?p "\<lambda>f. Some (length f)" "\<lambda>_. Some 2" True "[1, 2, 3]" 3] this
  show ?thesis by (auto simp: list_all_iff)
qed

text \<open>
  \<open>UPLOAD_CHUNK=0\<close>: the buffer is empty, \<open>Read\<close> returns nothing and no error for ever, and \<open>writeOneFile\<close> never
  returns, for every local file, the empty one included.
\<close>

theorem upload_chunk_zero_diverges:
  "writeOneFile 0 sched pool closes stat (Some content) True expect = None"
  by (simp add: writeOneFile_def feed_zero)

text \<open>
  C30. \<open>mkdirP\<close>: when it reports success, every directory on the path exists, whether it was made or was there
  before. When it fails, it names the first directory that could not be made and is not one, and
  has made all the directories above it. The share's \<open>Mkdir\<close> must make the directory when it
  succeeds and never undo a directory.
\<close>

theorem mkdirP_makes_path:
  assumes "share_laws Mkdir Stat" "winDir \<noteq> ''.''"
  shows "let segs = filter (\<lambda>seg. seg \<noteq> []) (Split CHR ''/'' (ReplaceAll backslash CHR ''/'' winDir))
    in case mkdirP Mkdir Stat winDir s of
         (s', Inr _) \<Rightarrow> all_dirs Stat s' segs (length segs)
       | (s', Inl d) \<Rightarrow> \<exists>n<length segs. d = Join (take (Suc n) segs) [backslash] \<and> Stat s' d \<noteq> Some True \<and>
           all_dirs Stat s' segs n"
proof (cases "winDir = [] \<or> winDir = [backslash]")
  case True
  then have "filter (\<lambda>seg. seg \<noteq> []) (Split CHR ''/'' (ReplaceAll backslash CHR ''/'' winDir)) = []"
    by (auto simp: ReplaceAll_def)
  then show ?thesis using True by (auto simp: mkdirP_def all_dirs_def)
next
  case False
  then show ?thesis
    using mkdir_segs_spec [OF assms(1), where pre = "[]" and segs = "Split CHR ''/'' (ReplaceAll backslash CHR ''/'' winDir)"] assms(2)
    by (simp add: mkdirP_def all_dirs_def)
qed

theorem mkdirP_makes_path_witness:
  "let Mkdir = (\<lambda>s d. (if d \<in> s then (s, False) else (insert d s, True))); Stat = (\<lambda>s d. if d \<in> s then Some True else None)
   in case mkdirP Mkdir Stat [CHR ''a'', backslash, CHR ''b''] {} of (s', Inr _) \<Rightarrow> all_dirs Stat s' [''a'', ''b''] 2 | (s', Inl d) \<Rightarrow> False"
proof -
  let ?M = "\<lambda>s d :: string. (if d \<in> s then (s, False) else (insert d s, True))" and ?S = "\<lambda>s d :: string. if d \<in> s then Some True else None"
  have "share_laws ?M ?S" by (auto simp: share_laws_def)
  from mkdirP_makes_path [OF this, of "[CHR ''a'', backslash, CHR ''b'']" "{}"]
  show ?thesis by (simp add: mkdirP_def ReplaceAll_def backslash_def next_cur_def numeral_2_eq_2)
qed

text \<open>
  The loop over the files stops at the first failure and reports it: the exit status is 0 exactly when all the files
  were written and verified, in order, at their places on the device; otherwise it is 1 and those written are a proper prefix.
  The teardown that logs off and closes the tunnel runs in the first case only: after a failure the process
  exits with the device's single session still open.
\<close>

theorem upload_failure_leaves_session:
  "let all_paths = map (\<lambda>it. win_path (full_path share_root (it_rel it))) its;
       r = snd (upload_items Mkdir Stat put share_root its run_start s)
   in (if ur_exit r = 0 then ur_written r = all_paths \<and> ur_closed r
       else ur_exit r = 1 \<and> strict_prefix (ur_written r) all_paths \<and> \<not> ur_closed r)"
proof -
  let ?ps = "map (\<lambda>it. win_path (full_path share_root (it_rel it))) its"
  define r where "r = snd (upload_items Mkdir Stat put share_root its run_start s)"
  have "run_end [] ?ps r" using upload_items_end [of run_start] by (simp add: r_def run_start_def)
  then obtain k where k: "ur_written r = take k ?ps"
    "if ur_exit r = 0 then k = length ?ps \<and> ur_closed r else k < length ?ps \<and> ur_exit r = 1 \<and> \<not> ur_closed r"
    unfolding run_end_def by auto
  have "strict_prefix (take k ?ps) ?ps" if "k < length ?ps"
    using that arg_cong [of "take k ?ps" ?ps length] by (auto simp: strict_prefix_def take_is_prefix)
  then show ?thesis using k unfolding r_def [symmetric] Let_def by (auto split: if_splits)
qed

end
