(* ===== verification/Work_Pool.thy ===== *)
theory Work_Pool
  imports Main "HOL-Library.Multiset"
begin

text \<open>
  The worker pool that the download command (\<open>fetchFile\<close>) and the upload command (\<open>writeOneFile\<close>) build from
  goroutines: a feeder sends the jobs into a buffered channel and closes it, each worker takes
  jobs from the channel until it is closed and empty, and \<open>wg.Wait\<close> returns when all workers have
  returned. \<open>pool_step\<close> is one step of one goroutine, so every interleaving is a sequence of steps.

  \<^item> \<open>cap\<close> is the capacity of the channel: 256 in \<open>fetchFile\<close>, twice the number of workers in \<open>writeOneFile\<close>.
  \<^item> \<open>leaves j\<close> says that the worker returns after job \<open>j\<close>: in \<open>fetchFile\<close> after an error, in
    \<open>writeOneFile\<close> never.
\<close>

section \<open>The goroutines\<close>

datatype 'j worker = Idle | Busy 'j | Gone

record 'j pool =
  pl_feed :: "'j list"
  pl_chan :: "'j list"
  pl_workers :: "'j worker list"
  pl_done :: "'j list"

definition pool_start :: "nat \<Rightarrow> 'j list \<Rightarrow> 'j pool" where
  "pool_start workers js = \<lparr>pl_feed = js, pl_chan = [], pl_workers = replicate workers Idle, pl_done = []\<rparr>"

inductive pool_step :: "nat \<Rightarrow> ('j \<Rightarrow> bool) \<Rightarrow> 'j pool \<Rightarrow> 'j pool \<Rightarrow> bool" for cap leaves where
  pool_send: "pl_feed p = j # js \<Longrightarrow> length (pl_chan p) < cap \<Longrightarrow>
    pool_step cap leaves p (p\<lparr>pl_feed := js, pl_chan := pl_chan p @ [j]\<rparr>)"
| pool_take: "i < length (pl_workers p) \<Longrightarrow> pl_workers p ! i = Idle \<Longrightarrow> pl_chan p = j # q \<Longrightarrow>
    pool_step cap leaves p (p\<lparr>pl_chan := q, pl_workers := (pl_workers p)[i := Busy j]\<rparr>)"
| pool_finish: "i < length (pl_workers p) \<Longrightarrow> pl_workers p ! i = Busy j \<Longrightarrow>
    pool_step cap leaves p (p\<lparr>pl_workers := (pl_workers p)[i := if leaves j then Gone else Idle],
      pl_done := pl_done p @ [j]\<rparr>)"
| pool_exit: "i < length (pl_workers p) \<Longrightarrow> pl_workers p ! i = Idle \<Longrightarrow> pl_feed p = [] \<Longrightarrow> pl_chan p = [] \<Longrightarrow>
    pool_step cap leaves p (p\<lparr>pl_workers := (pl_workers p)[i := Gone]\<rparr>)"

inductive pool_run :: "nat \<Rightarrow> ('j \<Rightarrow> bool) \<Rightarrow> nat \<Rightarrow> 'j pool \<Rightarrow> 'j pool \<Rightarrow> bool" for cap leaves where
  pool_refl: "pool_run cap leaves 0 p p"
| pool_more: "pool_run cap leaves n p q \<Longrightarrow> pool_step cap leaves q r \<Longrightarrow> pool_run cap leaves (Suc n) p r"

text \<open>\<open>wg.Wait\<close> returns.\<close>

definition all_gone :: "'j pool \<Rightarrow> bool" where
  "all_gone p \<longleftrightarrow> list_all (\<lambda>w. w = Gone) (pl_workers p)"

section \<open>No job is lost or done twice\<close>

definition in_hand :: "'j worker \<Rightarrow> 'j multiset" where
  "in_hand w = (case w of Busy j \<Rightarrow> {#j#} | _ \<Rightarrow> {#})"

definition pool_jobs :: "'j pool \<Rightarrow> 'j multiset" where
  "pool_jobs p = mset (pl_feed p) + mset (pl_chan p) + sum_list (map in_hand (pl_workers p)) + mset (pl_done p)"

lemma sum_list_map_update:
  fixes f :: "'a \<Rightarrow> 'b :: comm_monoid_add"
  assumes "i < length xs"
  shows "sum_list (map f (xs[i := x])) + f (xs ! i) = sum_list (map f xs) + f x"
  using assms
proof (induction xs arbitrary: i)
  case (Cons a xs)
  show ?case
  proof (cases i)
    case (Suc k)
    then have "sum_list (map f (xs[k := x])) + f (xs ! k) = sum_list (map f xs) + f x"
      using Cons by simp
    then show ?thesis using Suc by (simp add: add.assoc)
  qed (simp add: ac_simps)
qed simp

lemma pool_step_jobs:
  assumes "pool_step cap leaves p q"
  shows "pool_jobs q = pool_jobs p"
  using assms
proof cases
  case (pool_take i j c)
  then show ?thesis using sum_list_map_update [of i "pl_workers p" in_hand "Busy j"]
    by (simp add: pool_jobs_def in_hand_def)
next
  case (pool_finish i j)
  then show ?thesis
    using sum_list_map_update [of i "pl_workers p" in_hand "if leaves j then Gone else Idle"]
    by (auto simp: pool_jobs_def in_hand_def)
next
  case (pool_exit i)
  then show ?thesis using sum_list_map_update [of i "pl_workers p" in_hand Gone]
    by (simp add: pool_jobs_def in_hand_def)
qed (simp add: pool_jobs_def)

text \<open>Each step is progress.\<close>

fun worker_weight :: "'j worker \<Rightarrow> nat" where
  "worker_weight Idle = 1"
| "worker_weight (Busy j) = 2"
| "worker_weight Gone = 0"

definition pool_weight :: "'j pool \<Rightarrow> nat" where
  "pool_weight p = 4 * length (pl_feed p) + 3 * length (pl_chan p) + sum_list (map worker_weight (pl_workers p))"

lemma pool_step_weight:
  assumes "pool_step cap leaves p q"
  shows "pool_weight q < pool_weight p"
  using assms
proof cases
  case (pool_take i j c)
  then show ?thesis using sum_list_map_update [of i "pl_workers p" worker_weight "Busy j"]
    by (simp add: pool_weight_def)
next
  case (pool_finish i j)
  then show ?thesis
    using sum_list_map_update [of i "pl_workers p" worker_weight "if leaves j then Gone else Idle"]
    by (auto simp: pool_weight_def split: if_splits)
next
  case (pool_exit i)
  then show ?thesis using sum_list_map_update [of i "pl_workers p" worker_weight Gone]
    by (simp add: pool_weight_def)
qed (simp add: pool_weight_def)

lemma pool_run_keeps:
  assumes "pool_run cap leaves n p q"
  shows "pool_jobs q = pool_jobs p \<and> n + pool_weight q \<le> pool_weight p \<and>
    length (pl_workers q) = length (pl_workers p)"
  using assms
proof induction
  case (pool_more n p q r)
  have "length (pl_workers r) = length (pl_workers q)"
    using pool_more.hyps(2) by cases simp_all
  then show ?case
    using pool_more.IH pool_step_jobs [OF pool_more.hyps(2)] pool_step_weight [OF pool_more.hyps(2)] by simp
qed simp

text \<open>While a worker is left and the channel can hold a job, some goroutine can go on.\<close>

lemma pool_progress:
  assumes "0 < cap" "\<not> all_gone p"
  shows "\<exists>q. pool_step cap leaves p q"
proof -
  obtain i where i: "i < length (pl_workers p)" "pl_workers p ! i \<noteq> Gone"
    using assms(2) by (auto simp: all_gone_def list_all_iff in_set_conv_nth)
  show ?thesis
  proof (cases "pl_workers p ! i")
    case (Busy j)
    then show ?thesis using pool_finish [of i p j cap leaves] i by blast
  next
    case Idle
    show ?thesis
    proof (cases "pl_chan p")
      case (Cons j q)
      then show ?thesis using pool_take [of i p j q cap leaves] i Idle by blast
    next
      case Nil
      then show ?thesis using pool_exit [of i p] pool_send [of p _ _ cap] i Idle assms(1)
        by (cases "pl_feed p") auto
    qed
  qed (use i in simp)
qed

text \<open>A worker that has returned either left after a job or found the channel closed and empty.\<close>

lemma pool_gone:
  assumes "pool_run cap leaves n p q" "p = pool_start workers js"
  shows "Gone \<in> set (pl_workers q) \<longrightarrow> (pl_feed q = [] \<and> pl_chan q = []) \<or> (\<exists>j\<in>set (pl_done q). leaves j)"
  using assms
proof induction
  case (pool_refl p)
  then show ?case by (auto simp: pool_start_def)
next
  case (pool_more n p q r)
  note IH = pool_more.IH [OF pool_more.prems]
  show ?case using pool_more.hyps(2)
  proof cases
    case (pool_finish i j)
    then show ?thesis using IH by (cases "leaves j") (auto dest!: set_update_subset_insert [THEN subsetD])
  qed (use IH in \<open>auto dest!: set_update_subset_insert [THEN subsetD]\<close>)
qed

lemma none_in_hand: "\<forall>w\<in>set ws. \<forall>j. w \<noteq> Busy j \<Longrightarrow> sum_list (map in_hand ws) = {#}"
  by (induction ws) (auto simp: in_hand_def split: worker.splits)

lemma pool_start_facts:
  "pool_jobs (pool_start workers js) = mset js" "pool_weight (pool_start workers js) = 4 * length js + workers"
  "length (pl_workers (pool_start workers js)) = workers"
  using none_in_hand [of "replicate workers Idle"]
  by (simp_all add: pool_start_def pool_jobs_def pool_weight_def sum_list_replicate)

lemma all_gone_in_hand: "all_gone p \<Longrightarrow> sum_list (map in_hand (pl_workers p)) = {#}"
  by (rule none_in_hand) (auto simp: all_gone_def list_all_iff)

section \<open>Properties\<close>

text \<open>
  C39. The worker pool of the transfer commands. With at least one worker and a channel that can hold a job,
  under every interleaving of the goroutines: the pool takes at most four steps per job and one
  per worker, so it cannot run for ever; as long as a worker is left some goroutine can go on, so
  \<open>wg.Wait\<close> returns; no job is done twice; and when \<open>wg.Wait\<close> returns every job has been done
  exactly once, unless a worker left after an error.
\<close>

theorem pool_completes:
  assumes "0 < workers" "0 < cap" "pool_run cap leaves n (pool_start workers js) p"
  shows "n \<le> 4 * length js + workers \<and>
    mset (pl_done p) \<subseteq># mset js \<and>
    (if all_gone p then mset (pl_done p) = mset js \<or> (\<exists>j\<in>set (pl_done p). leaves j)
     else \<exists>q. pool_step cap leaves p q)"
proof -
  have k: "pool_jobs p = mset js" "n + pool_weight p \<le> 4 * length js + workers" "length (pl_workers p) = workers"
    using pool_run_keeps [OF assms(3)] by (simp_all add: pool_start_facts)
  have "mset (pl_done p) = mset js" if "all_gone p" "\<not> (\<exists>j\<in>set (pl_done p). leaves j)"
  proof -
    have "Gone \<in> set (pl_workers p)"
      using that(1) k(3) assms(1) by (cases "pl_workers p") (auto simp: all_gone_def)
    then have "pl_feed p = [] \<and> pl_chan p = []" using pool_gone [OF assms(3) refl] that(2) by blast
    then show ?thesis using k(1) all_gone_in_hand [OF that(1)] by (simp add: pool_jobs_def)
  qed
  moreover have "mset (pl_done p) \<subseteq># mset js"
    using k(1) unfolding pool_jobs_def by (metis mset_subset_eq_add_right)
  ultimately show ?thesis using k(2) pool_progress [OF assms(2)] by auto
qed

theorem pool_completes_witness:
  "let p = pool_start 2 [7, 8 :: nat]; q = p\<lparr>pl_feed := [8], pl_chan := [7]\<rparr>
   in mset (pl_done q) \<subseteq># mset [7, 8] \<and> (\<exists>r. pool_step 4 (\<lambda>_. False) q r)"
proof -
  let ?p = "pool_start 2 [7, 8 :: nat]" and ?q = "(pool_start 2 [7, 8 :: nat])\<lparr>pl_feed := [8], pl_chan := [7]\<rparr>"
  have "pool_step 4 (\<lambda>_. False) ?p ?q"
    using pool_send [of ?p 7 "[8]" 4 "\<lambda>_. False"] by (simp add: pool_start_def)
  then have "pool_run 4 (\<lambda>_. False) (Suc 0) ?p ?q" by (rule pool_more [OF pool_refl])
  from pool_completes [OF _ _ this] show ?thesis
    by (simp add: Let_def all_gone_def pool_start_def numeral_2_eq_2)
qed

text \<open>
  Without a worker the feeder blocks at once. In \<open>writeOneFile\<close> the feeder is the caller, so
  \<open>UPLOAD_WORKERS=0\<close> hangs on the first file that is not empty.
\<close>

theorem pool_without_workers:
  assumes "pool_run 0 leaves n (pool_start 0 js) p"
  shows "p = pool_start 0 js"
  using assms
proof (induction n "pool_start 0 js" p)
  case (pool_more n q r)
  from pool_more.hyps(3) show ?case
    by cases (simp_all add: pool_more.hyps(2) pool_start_def)
qed simp

text \<open>
  In \<open>fetchFile\<close> the feeder is a goroutine of its own. When every worker leaves after an error while more
  jobs remain than the channel holds, the feeder blocks in its send and is never released: the pool is
  over, the feeder is not, and no later step changes that.
\<close>

lemma leaving_counts:
  assumes "pool_run cap (\<lambda>_. True) n p q" "p = pool_start workers js"
  shows "length (pl_done q) \<le> length (filter (\<lambda>w. w = Gone) (pl_workers q)) \<and> length (pl_chan q) \<le> cap"
  using assms
proof induction
  case (pool_refl p)
  then show ?case by (simp add: pool_start_def)
next
  case (pool_more n p q r)
  have cnt: "length (filter (\<lambda>w. w = Gone) ws) = sum_list (map (\<lambda>w. if w = Gone then 1 else 0) ws)" for ws :: "'a worker list"
    by (induction ws) simp_all
  note IH = pool_more.IH [OF pool_more.prems, unfolded cnt]
  note upd = sum_list_map_update [where f = "\<lambda>w :: 'a worker. if w = Gone then 1 else 0 :: nat"]
  show ?case using pool_more.hyps(2)
  proof cases
    case (pool_take i j c)
    then show ?thesis using IH upd [of i "pl_workers q" "Busy j"] by (simp add: cnt)
  next
    case (pool_finish i j)
    then show ?thesis using IH upd [of i "pl_workers q" Gone] by (simp add: cnt)
  next
    case (pool_exit i)
    then show ?thesis using IH upd [of i "pl_workers q" Gone] by (simp add: cnt)
  qed (use IH in \<open>simp add: cnt\<close>)
qed

theorem feeder_left_behind:
  assumes "pool_run cap (\<lambda>_. True) n (pool_start workers js) p" "workers + cap < length js"
  shows "pl_feed p \<noteq> []"
proof
  assume e: "pl_feed p = []"
  have k: "pool_jobs p = mset js" "length (pl_workers p) = workers"
    using pool_run_keeps [OF assms(1)] by (simp_all add: pool_start_facts)
  have c: "length (pl_done p) \<le> length (filter (\<lambda>w. w = Gone) (pl_workers p))" "length (pl_chan p) \<le> cap"
    using leaving_counts [OF assms(1) refl] by auto
  have h: "size (sum_list (map in_hand ws)) \<le> length (filter (\<lambda>w. w \<noteq> Gone) ws)" for ws :: "'a worker list"
    by (induction ws) (auto simp: in_hand_def split: worker.splits)
  have "length js = length (pl_chan p) + size (sum_list (map in_hand (pl_workers p))) + length (pl_done p)"
    using arg_cong [OF k(1), of size] e by (simp add: pool_jobs_def)
  also have "\<dots> \<le> cap + (length (filter (\<lambda>w. w \<noteq> Gone) (pl_workers p)) + length (filter (\<lambda>w. w = Gone) (pl_workers p)))"
    using c h [of "pl_workers p"] by simp
  also have "\<dots> = cap + workers"
    using sum_length_filter_compl [of "\<lambda>w. w = Gone" "pl_workers p"] k(2) by simp
  finally show False using assms(2) by simp
qed

end
