(* ===== verification/Transfers.thy ===== *)
theory Transfers
  imports Work_Pool Download_Facts Upload
begin

text \<open>
  The two transfers over the worker pool they run on: \<open>fetchFile\<close> of \<open>cmd/download/main.go\<close> and
  \<open>writeOneFile\<close> of \<open>cmd/upload/main.go\<close>, with the reads and writes made in the order in which some
  interleaving of the goroutines completes them. What \<open>Download_Facts\<close> and \<open>Upload\<close> assume of that order is
  proved here of every run of the pool.
\<close>

section \<open>Runs of the pool\<close>

lemma pool_run_trans:
  assumes "pool_run cap leaves m q r" "pool_run cap leaves n p q"
  shows "pool_run cap leaves (n + m) p r"
  using assms by induction (auto intro: pool_more)

lemma pool_finishes:
  assumes "0 < cap"
  shows "\<exists>n q. pool_run cap leaves n p q \<and> all_gone q"
proof (induction "pool_weight p" arbitrary: p rule: less_induct)
  case less
  show ?case
  proof (cases "all_gone p")
    case True
    then show ?thesis using pool_refl by blast
  next
    case False
    then obtain q where q: "pool_step cap leaves p q" using pool_progress [OF assms] by blast
    then obtain n r where "pool_run cap leaves n q r" "all_gone r"
      using less pool_step_weight [OF q] by blast
    then show ?thesis using pool_run_trans [OF _ pool_more [OF pool_refl q]] by blast
  qed
qed

lemma pool_no_leaving:
  assumes "0 < workers" "0 < cap" "pool_run cap leaves n (pool_start workers js) p" "all_gone p"
    and "\<forall>j\<in>set js. \<not> leaves j"
  shows "mset (pl_done p) = mset js"
proof -
  have k: "pool_jobs p = mset js" "length (pl_workers p) = workers"
    using pool_run_keeps [OF assms(3)] by (simp_all add: pool_start_facts)
  then have "set (pl_done p) \<subseteq> set js"
    unfolding pool_jobs_def by (metis mset_subset_eq_add_right set_mset_mono set_mset_mset)
  then have "\<not> (\<exists>j\<in>set (pl_done p). leaves j)" using assms(5) by blast
  moreover have "Gone \<in> set (pl_workers p)"
    using assms(1,4) k(2) by (cases "pl_workers p") (auto simp: all_gone_def)
  ultimately have "pl_feed p = [] \<and> pl_chan p = []" using pool_gone [OF assms(3) refl] by blast
  then show ?thesis using k(1) all_gone_in_hand [OF assms(4)] by (simp add: pool_jobs_def)
qed

lemma pool_done_distinct:
  assumes "pool_run cap leaves n (pool_start workers js) p" "distinct js"
  shows "distinct (pl_done p) \<and> set (pl_done p) \<subseteq> set js"
proof -
  have "mset (pl_done p) \<subseteq># mset js"
    using pool_run_keeps [OF assms(1)] pool_start_facts(1) [of workers js] unfolding pool_jobs_def
    by (metis mset_subset_eq_add_right)
  then obtain ms where "mset js = mset (pl_done p) + ms" 
    unfolding mset_subset_eq_exists_conv by blast
  then obtain xs where "mset js = mset (pl_done p @ xs)" by (metis ex_mset mset_append)
  then show ?thesis
    using assms(2) mset_eq_imp_distinct_iff [of js "pl_done p @ xs"] mset_eq_setD [of js "pl_done p @ xs"] by auto
qed

section \<open>Properties\<close>

text \<open>
  C36. A download over its worker pool, under every interleaving of the feeder and any positive number of
  workers. When the pool is over, \<open>fetchFile\<close> has either committed exactly the device's bytes under the
  destination name, or has left every path but the \<open>.part\<close> file as it was; and it does commit when the
  file opens, the watchdog stays quiet, the rename succeeds and every range arrives in full.
\<close>

theorem fetch_interleavings:
  assumes "0 < workers" "pool_run 256 (\<lambda>pos. rr_err (rd pos) \<or> rr_data (rd pos) \<noteq> [] \<and> rr_writeErr (rd pos)) n
      (pool_start workers (jobs (length remote))) p" "all_gone p"
    and "\<forall>pos\<in>set (jobs (length remote)). rr_off (rd pos) = pos \<and> honest_read remote (rd pos)"
  shows "case fetchFile lm dest opened (length remote) start ticks (map rd (pl_done p)) renames fs of
      (fs', Inr k) \<Rightarrow> k = length remote \<and> fs' = fs(dest \<mapsto> remote, part_path dest := None)
    | (fs', Inl e) \<Rightarrow> (\<forall>q. q \<noteq> part_path dest \<longrightarrow> fs' q = fs q) \<and>
        \<not> (opened \<and> renames \<and> watch lm start start 0 ticks = None \<and>
           (\<forall>pos\<in>set (jobs (length remote)). \<not> rr_err (rd pos) \<and> \<not> rr_writeErr (rd pos) \<and>
              length (rr_data (rd pos)) = range_len (length remote) pos))"
proof -
  let ?js = "jobs (length remote)" and ?reads = "map rd (pl_done p)"
  have dj: "distinct ?js" using job_offsets_ranges [of 0 "length remote"] by (simp add: jobs_def)
  have d: "distinct (pl_done p)" "set (pl_done p) \<subseteq> set ?js"
    using pool_done_distinct [OF assms(2) dj] by auto
  have off: "map rr_off ?reads = pl_done p"
    unfolding map_map using assms(4) d(2) by (intro map_idI) auto
  have "list_all (honest_read remote) ?reads" "distinct (map rr_off ?reads)"
    using assms(4) d off by (auto simp: list_all_iff)
  note exact = fetch_commits_exact [OF this, where lm = lm and dest = dest and opened = opened and start = start and ticks = ticks
      and renames = renames and fs = fs]
  have "list_all (\<lambda>r. \<not> rr_err r \<and> \<not> rr_writeErr r \<and> length (rr_data r) = range_len (length remote) (rr_off r)) ?reads \<and>
      rr_off ` set ?reads = set ?js"
    if clean: "\<forall>pos\<in>set ?js. \<not> rr_err (rd pos) \<and> \<not> rr_writeErr (rd pos) \<and>
        length (rr_data (rd pos)) = range_len (length remote) pos"
  proof -
    have "mset (pl_done p) = mset ?js"
      using pool_no_leaving [OF assms(1) _ assms(2,3)] clean by simp
    then have "set (pl_done p) = set ?js" by (rule mset_eq_setD)
    moreover have "rr_off ` set ?reads = set (pl_done p)" using arg_cong [OF off, of set] unfolding set_map .
    ultimately show ?thesis using clean assms(4) by (simp add: list_all_iff)
  qed
  then show ?thesis using exact by (auto split: prod.splits sum.splits)
qed

theorem fetch_interleavings_witness:
  "let rd = (\<lambda>pos. \<lparr>rr_off = pos, rr_data = [1, 2, 3], rr_err = False, rr_writeErr = False\<rparr>);
       p = \<lparr>pl_feed = [], pl_chan = [], pl_workers = [Gone], pl_done = [0]\<rparr>
   in case fetchFile \<lparr>deadStart = 25, stallGap = 90, hardCap = 90\<rparr> ''a'' True 3 0 [] (map rd (pl_done p)) True Map.empty of
        (fs', Inr k) \<Rightarrow> k = 3 \<and> fs' = Map.empty(''a'' \<mapsto> [1, 2, 3], part_path ''a'' := None)
      | (fs', Inl e) \<Rightarrow> False"
proof -
  define rd where "rd pos = \<lparr>rr_off = pos, rr_data = [1, 2, 3 :: byte], rr_err = False, rr_writeErr = False\<rparr>" for pos
  define leaves where "leaves = (\<lambda>pos. rr_err (rd pos) \<or> rr_data (rd pos) \<noteq> [] \<and> rr_writeErr (rd pos))"
  define p where "p = \<lparr>pl_feed = [], pl_chan = [], pl_workers = [Gone], pl_done = [0 :: nat]\<rparr>"
  have j: "jobs (length [1, 2, 3 :: byte]) = [0]" by (simp add: jobs_def job_offsets.simps readChunk_def)
  let ?p = "\<lambda>f c w d. \<lparr>pl_feed = f, pl_chan = c, pl_workers = [w], pl_done = d\<rparr>"
  have lv: "\<not> leaves 0" by (simp add: leaves_def rd_def)
  have "pool_step 256 leaves (?p [0] [] Idle []) (?p [] [0] Idle [])"
    "pool_step 256 leaves (?p [] [0] Idle []) (?p [] [] (Busy 0) [])"
    "pool_step 256 leaves (?p [] [] (Busy 0) []) (?p [] [] Idle [0])"
    "pool_step 256 leaves (?p [] [] Idle [0]) (?p [] [] Gone [0])"
    using pool_send [of "?p [0] [] Idle []" 0 "[]" 256 leaves] pool_take [of 0 "?p [] [0] Idle []" 0 "[]" 256 leaves]
      pool_finish [of 0 "?p [] [] (Busy 0) []" 0 256 leaves] pool_exit [of 0 "?p [] [] Idle [0]"] lv by simp_all
  then have "pool_run 256 leaves (Suc (Suc (Suc (Suc 0)))) (?p [0] [] Idle []) (?p [] [] Gone [0])"
    by (intro pool_more [OF pool_more [OF pool_more [OF pool_more [OF pool_refl]]]])
  then have run: "pool_run 256 leaves 4 (pool_start 1 (jobs (length [1, 2, 3 :: byte]))) p"
    unfolding j by (simp add: pool_start_def p_def eval_nat_numeral)
  have "all_gone p" by (simp add: p_def all_gone_def)
  from fetch_interleavings [OF _ run [unfolded leaves_def] this, where lm = "\<lparr>deadStart = 25, stallGap = 90, hardCap = 90\<rparr>" and dest = "''a''"
      and opened = True and start = 0 and ticks = "[]" and renames = True and fs = Map.empty]
  show ?thesis
    unfolding j by (simp add: rd_def p_def honest_read_def range_len_def readChunk_def fetchFile_def fetch_job_def WriteAt_def j [simplified])
qed

text \<open>
  C37. An upload over its worker pool, with a positive chunk size and any positive number of workers. The
  feeder ends and the pool can finish; and in whatever interleaving it does, \<open>writeOneFile\<close> returns,
  the device's file is byte for byte the local one when no error is reported, and no error is reported when
  no call fails.
\<close>

theorem upload_interleavings:
  assumes "0 < chunk" "0 < workers" "\<forall>j. wr_job (res j) = j \<and> honest_write (res j)"
    and "\<forall>f. stat f = None \<or> stat f = Some (length f)"
  shows "\<exists>js ok. feed chunk sched content 0 [] = Some (js, ok) \<and>
    (\<exists>n p. pool_run (workers * 2) (\<lambda>_. False) n (pool_start workers js) p \<and> all_gone p) \<and>
    (\<forall>n p. pool_run (workers * 2) (\<lambda>_. False) n (pool_start workers js) p \<and> all_gone p \<longrightarrow>
      (\<exists>remote k e. writeOneFile chunk sched (\<lambda>_. map res (pl_done p)) closes stat (Some content) True expect
           = Some (Some remote, k, e) \<and>
         (e = None \<longrightarrow> remote = content \<and> k = length content \<and> expect = length content) \<and>
         ((\<forall>q. sched q \<noteq> None) \<and> (\<forall>j. \<not> wr_err (res j)) \<and> closes \<and> stat content \<noteq> None \<and>
            expect = length content \<longrightarrow> e = None)))"
proof -
  have "chunks_of chunk content 0 []" by (simp add: chunks_of_def)
  from feed_terminates [OF assms(1) this, of sched] obtain js ok where f: "feed chunk sched content 0 [] = Some (js, ok)" by blast
  have run: "\<exists>remote k e. writeOneFile chunk sched (\<lambda>_. map res (pl_done p)) closes stat (Some content) True expect
           = Some (Some remote, k, e) \<and>
         (e = None \<longrightarrow> remote = content \<and> k = length content \<and> expect = length content) \<and>
         ((\<forall>q. sched q \<noteq> None) \<and> (\<forall>j. \<not> wr_err (res j)) \<and> closes \<and> stat content \<noteq> None \<and>
            expect = length content \<longrightarrow> e = None)"
    if p: "pool_run (workers * 2) (\<lambda>_. False) n (pool_start workers js) p" "all_gone p" for n p
  proof -
    define pool where "pool = (\<lambda>ks. map res (if ks = js then pl_done p else ks))"
    have "mset (pl_done p) = mset js" using pool_no_leaving [OF assms(2) _ p] assms(2) by simp
    moreover have "map wr_job (pool ks) = (if ks = js then pl_done p else ks)" for ks
    proof -
      have "(wr_job \<circ> res) j = j" for j using assms(3) unfolding comp_apply by blast
      then show ?thesis unfolding pool_def map_map by (intro map_idI)
    qed
    ultimately have h: "honest_pool pool"
      using assms(3) by (auto simp: honest_pool_def pool_def list_all_iff)
    have same: "writeOneFile chunk sched pool closes stat (Some content) True expect =
        writeOneFile chunk sched (\<lambda>_. map res (pl_done p)) closes stat (Some content) True expect"
      using f by (simp add: writeOneFile_def pool_def)
    have ne: "\<forall>ks. list_all (\<lambda>r. \<not> wr_err r) (pool ks)" if "\<forall>j. \<not> wr_err (res j)"
      unfolding pool_def list_all_iff set_map using that by blast
    from upload_exact [OF assms(1) h, of stat sched closes content expect] assms(4)
    obtain remote k e where "writeOneFile chunk sched pool closes stat (Some content) True expect = Some (Some remote, k, e)"
      "e = None \<longrightarrow> remote = content \<and> k = length content \<and> expect = length content"
      "(\<forall>q. sched q \<noteq> None) \<and> (\<forall>js. list_all (\<lambda>r. \<not> wr_err r) (pool js)) \<and> closes \<and> stat content \<noteq> None \<and>
         expect = length content \<longrightarrow> e = None"
      by blast
    then show ?thesis using ne unfolding same by (intro exI [of _ remote] exI [of _ k] exI [of _ e]) blast
  qed
  moreover have "\<exists>n p. pool_run (workers * 2) (\<lambda>_. False) n (pool_start workers js) p \<and> all_gone p"
    using pool_finishes [of "workers * 2"] assms(2) by simp
  ultimately show ?thesis using f by blast
qed

theorem upload_interleavings_witness:
  "\<exists>n p. pool_run 4 (\<lambda>_. False) n (pool_start 2 (fst (the (feed 2 (\<lambda>_. Some 2) [1, 2, 3] 0 [])))) p \<and> all_gone p \<and>
     writeOneFile 2 (\<lambda>_. Some 2) (\<lambda>_. map (\<lambda>j. \<lparr>wr_job = j, wr_n = length (snd j), wr_err = False\<rparr>) (pl_done p))
       True (\<lambda>f. Some (length f)) (Some [1, 2, 3]) True 3 = Some (Some [1, 2, 3], 3, None)"
proof -
  let ?res = "\<lambda>j. \<lparr>wr_job = j, wr_n = length (snd j), wr_err = False\<rparr>"
  have "\<forall>j. wr_job (?res j) = j \<and> honest_write (?res j)" by (simp add: honest_write_def)
  from upload_interleavings [OF _ _ this, of 2 2 "\<lambda>f. Some (length f)" "\<lambda>_. Some 2" "[1, 2, 3]" True 3]
  obtain js ok n p where f: "feed 2 (\<lambda>_. Some 2) [1, 2, 3] 0 [] = Some (js, ok)"
    and p: "pool_run 4 (\<lambda>_. False) n (pool_start 2 js) p" "all_gone p"
    and r: "\<exists>remote k e. writeOneFile 2 (\<lambda>_. Some 2) (\<lambda>_. map ?res (pl_done p)) True (\<lambda>f. Some (length f)) (Some [1, 2, 3]) True 3
          = Some (Some remote, k, e) \<and> (e = None \<longrightarrow> remote = [1, 2, 3] \<and> k = 3) \<and> e = None"
    by auto
  then show ?thesis by (intro exI [of _ n] exI [of _ p]) auto
qed

end
