(* ===== verification/Upload_Main.thy ===== *)
theory Upload_Main
  imports Upload Config
begin

text \<open>
  \<open>main\<close> of \<open>cmd/upload/main.go\<close>: arguments, the list of files, the configuration, one dial, the channel to port
  445, the SMB session and the mount, the loop over the files, and what is still open when the
  process ends. \<open>os.Exit\<close> runs no deferred function.

  \<^item> \<open>up_world\<close> holds what \<open>main\<close> gets from outside: \<open>os.Stat\<close> with the walk of a directory, whether \<open>cli.Resolve\<close>
    succeeds (theory \<open>Config\<close>), whether \<open>seestar.Dial\<close> does (theory \<open>Connect\<close>), what opening the channel, the SMB dial and
    \<open>Mount\<close> return for a share and user, and how long the graceful teardown takes.
  \<^item> \<open>put\<close> is \<open>writeOneFile\<close> with the chunk size and the number of workers.
\<close>

section \<open>Connecting\<close>

datatype up_setup = UpOpenErr | UpSmbErr | UpMountErr | UpMounted

record up_world =
  uw_env :: env
  uw_stat :: "string \<Rightarrow> local_stat"
  uw_resolves :: bool
  uw_dials :: bool
  uw_setup :: "string \<Rightarrow> string \<Rightarrow> up_setup"
  uw_teardown :: "int option"

text \<open>What the process holds: the dials made, the tunnel and the SMB session.\<close>

definition up_start :: conn_trace where
  "up_start = \<lparr>ct_dials = 0, ct_sleeps = [], ct_tunnel = False, ct_session = False\<rparr>"

definition tun_Close :: "conn_trace \<Rightarrow> conn_trace" where "tun_Close t = t\<lparr>ct_tunnel := False\<rparr>"
definition sess_Logoff :: "conn_trace \<Rightarrow> conn_trace" where "sess_Logoff t = t\<lparr>ct_session := False\<rparr>"

definition up_connect :: "up_world \<Rightarrow> conn_trace \<times> bool" where
  "up_connect w =
     (let share = EnvOr (uw_env w) ''SHARE'' ''EMMC Images'';
          smbUser = EnvOr (uw_env w) ''SMB_USER'' ''Guest'';
          t = up_start\<lparr>ct_dials := 1\<rparr>
      in if \<not> uw_dials w then (t, False)
         else
           let t = t\<lparr>ct_tunnel := True\<rparr>
           in case uw_setup w share smbUser of
                UpOpenErr \<Rightarrow> (tun_Close t, False)
              | UpSmbErr \<Rightarrow> (tun_Close t, False)
              | UpMountErr \<Rightarrow> (tun_Close (sess_Logoff (t\<lparr>ct_session := True\<rparr>)), False)
              | UpMounted \<Rightarrow> (t\<lparr>ct_session := True\<rparr>, True))"

section \<open>The command\<close>

record up_end =
  ue_exit :: nat
  ue_conn :: conn_trace
  ue_run :: upload_run

definition upload_main ::
  "up_world \<Rightarrow> ('s \<Rightarrow> string \<Rightarrow> 's \<times> bool) \<Rightarrow> ('s \<Rightarrow> string \<Rightarrow> bool option) \<Rightarrow>
     (int \<Rightarrow> int \<Rightarrow> string \<Rightarrow> item \<Rightarrow> 's \<Rightarrow> 's \<times> nat \<times> upload_err option) \<Rightarrow> string list \<Rightarrow> 's \<Rightarrow> 's \<times> up_end" where
  "upload_main w Mkdir Stat put argv s =
     (case argv of
        [localPath, dest] \<Rightarrow>
          (case collect_items localPath (relPath dest) (uw_stat w localPath) of
             None \<Rightarrow> (s, \<lparr>ue_exit = 1, ue_conn = up_start, ue_run = run_start\<rparr>)
           | Some its \<Rightarrow>
               if \<not> uw_resolves w then (s, \<lparr>ue_exit = 1, ue_conn = up_start, ue_run = run_start\<rparr>)
               else
                 let share_root = EnvOr (uw_env w) ''ROOT'' ''MyWorks'';
                     (t, ok) = up_connect w
                 in if \<not> ok then (s, \<lparr>ue_exit = 1, ue_conn = t, ue_run = run_start\<rparr>)
                    else
                      let chunk = EnvIntOr (uw_env w) ''UPLOAD_CHUNK'' 8192;
                          workers = EnvIntOr (uw_env w) ''UPLOAD_WORKERS'' 16;
                          (s, r) = upload_items Mkdir Stat (put chunk workers) share_root its run_start s
                      in (s, \<lparr>ue_exit = ur_exit r,
                              ue_conn = (if ur_closed r then fst (closer (uw_teardown w) t) else t), ue_run = r\<rparr>))
      | _ \<Rightarrow> (s, \<lparr>ue_exit = 2, ue_conn = up_start, ue_run = run_start\<rparr>))"

lemma up_connect_facts:
  "snd (up_connect w) \<longleftrightarrow> uw_dials w \<and>
     uw_setup w (EnvOr (uw_env w) ''SHARE'' ''EMMC Images'') (EnvOr (uw_env w) ''SMB_USER'' ''Guest'') = UpMounted"
  "ct_dials (fst (up_connect w)) = 1"
  "ct_tunnel (fst (up_connect w)) = snd (up_connect w)" "ct_session (fst (up_connect w)) = snd (up_connect w)"
  by (auto simp: up_connect_def Let_def up_start_def tun_Close_def sess_Logoff_def split: up_setup.splits)

lemma closer_tunnel: "\<not> ct_tunnel (fst (closer g t)) \<and> ct_dials (fst (closer g t)) = ct_dials t"
  by (auto simp: closer_def split: option.splits)

definition ready_to_upload :: "up_world \<Rightarrow> string list \<Rightarrow> bool" where
  "ready_to_upload w argv \<longleftrightarrow> (\<exists>l d. argv = [l, d] \<and> collect_items l (relPath d) (uw_stat w l) \<noteq> None) \<and>
     uw_resolves w \<and> snd (up_connect w)"

definition dest_paths :: "up_world \<Rightarrow> string list \<Rightarrow> string list" where
  "dest_paths w argv = map (\<lambda>it. win_path (full_path (EnvOr (uw_env w) ''ROOT'' ''MyWorks'') (it_rel it)))
     (the (collect_items (argv ! 0) (relPath (argv ! 1)) (uw_stat w (argv ! 0))))"

text \<open>
  C38. The upload command as a whole. It ends with status 0 exactly when it got as far as the mounted share and wrote
  every file to its place, in order; the tunnel is then closed. Before the arguments, the local
  files and the configuration are in order nothing is dialled; a failure while connecting leaves neither tunnel nor session. The
  one way to end with the tunnel and the device's single session still open is a file that fails: the
  status is then 1 and a proper prefix of the files was written.
\<close>

theorem upload_main_outcome:
  "let (s', e) = upload_main w Mkdir Stat put argv s; paths = dest_paths w argv
   in (ue_exit e = 0 \<longleftrightarrow> ready_to_upload w argv \<and> ur_written (ue_run e) = paths) \<and>
     (if ready_to_upload w argv then
        ue_exit e \<in> {0, 1} \<and> (ct_tunnel (ue_conn e) \<longleftrightarrow> ue_exit e = 1) \<and>
        (ue_exit e = 1 \<longrightarrow> ct_session (ue_conn e) \<and> strict_prefix (ur_written (ue_run e)) paths)
      else
        ue_exit e \<in> {1, 2} \<and> \<not> ct_tunnel (ue_conn e) \<and> \<not> ct_session (ue_conn e) \<and> ur_written (ue_run e) = [] \<and> s' = s)"
proof (cases "ready_to_upload w argv")
  case True
  then obtain l d its where a: "argv = [l, d]" "collect_items l (relPath d) (uw_stat w l) = Some its"
    and c: "uw_resolves w" "snd (up_connect w)" unfolding ready_to_upload_def by auto
  obtain t where t: "up_connect w = (t, True)" using c(2) by (cases "up_connect w") auto
  have o: "ct_tunnel t" "ct_session t" using up_connect_facts(3,4) [of w] t by simp_all
  let ?root = "EnvOr (uw_env w) ''ROOT'' ''MyWorks''"
  define put' where "put' = put (EnvIntOr (uw_env w) ''UPLOAD_CHUNK'' 8192) (EnvIntOr (uw_env w) ''UPLOAD_WORKERS'' 16)"
  define r where "r = snd (upload_items Mkdir Stat put' ?root its run_start s)"
  have e: "snd (upload_main w Mkdir Stat put argv s) = \<lparr>ue_exit = ur_exit r,
      ue_conn = (if ur_closed r then fst (closer (uw_teardown w) t) else t), ue_run = r\<rparr>"
    by (simp add: upload_main_def a c t Let_def r_def put'_def split: prod.splits)
  have dp: "dest_paths w argv = map (\<lambda>it. win_path (full_path ?root (it_rel it))) its"
    by (simp add: dest_paths_def a)
  have "if ur_exit r = 0 then ur_written r = dest_paths w argv \<and> ur_closed r
      else ur_exit r = 1 \<and> strict_prefix (ur_written r) (dest_paths w argv) \<and> \<not> ur_closed r"
    using upload_failure_leaves_session [of ?root its Mkdir Stat put' s] unfolding Let_def r_def dp .
  then show ?thesis using True o closer_tunnel e
    by (cases "upload_main w Mkdir Stat put argv s") (auto split: if_splits)
next
  case False
  have n: "ur_written run_start = []" by (simp add: run_start_def)
  have u: "\<not> ct_tunnel up_start" "\<not> ct_session up_start" by (simp_all add: up_start_def)
  have b: "upload_main w Mkdir Stat put argv s = (s, \<lparr>ue_exit = k, ue_conn = c, ue_run = run_start\<rparr>) \<Longrightarrow>
      k \<in> {1, 2} \<Longrightarrow> \<not> ct_tunnel c \<Longrightarrow> \<not> ct_session c \<Longrightarrow> ?thesis" for k c
    using False n by auto
  consider (args) "\<nexists>l d. argv = [l, d]" | (early) l d where "argv = [l, d]"
      "collect_items l (relPath d) (uw_stat w l) = None \<or> \<not> uw_resolves w"
    | (conn) l d its where "argv = [l, d]" "collect_items l (relPath d) (uw_stat w l) = Some its" "uw_resolves w" "\<not> snd (up_connect w)"
    using False unfolding ready_to_upload_def by (metis option.exhaust)
  then show ?thesis
  proof cases
    case args
    then show ?thesis by (intro b [of 2 up_start]) (auto simp: upload_main_def u split: list.splits)
  next
    case early
    then show ?thesis by (intro b [of 1 up_start]) (auto simp: upload_main_def u split: option.splits)
  next
    case conn
    obtain t where t: "up_connect w = (t, False)" using conn(4) by (cases "up_connect w") auto
    then have "\<not> ct_tunnel t" "\<not> ct_session t" using up_connect_facts(3,4) [of w] by simp_all
    then show ?thesis using conn t by (intro b [of 1 t]) (simp_all add: upload_main_def Let_def)
  qed
qed

theorem upload_main_outcome_witness:
  "let w = \<lparr>uw_env = (\<lambda>_. []), uw_stat = (\<lambda>_. IsFile 3), uw_resolves = True, uw_dials = True,
         uw_setup = (\<lambda>_ _. UpMounted), uw_teardown = None\<rparr>;
       e = snd (upload_main w (\<lambda>s d. (s, True)) (\<lambda>s d. Some True) (\<lambda>chunk workers p it s. (s, 0, Some CreateErr)) [''a'', ''b''] ())
   in ready_to_upload w [''a'', ''b''] \<and> ue_exit e \<in> {0, 1} \<and> (ct_tunnel (ue_conn e) \<longleftrightarrow> ue_exit e = 1)"
proof -
  let ?w = "\<lparr>uw_env = (\<lambda>_. []), uw_stat = (\<lambda>_. IsFile 3), uw_resolves = True, uw_dials = True,
    uw_setup = (\<lambda>_ _. UpMounted), uw_teardown = None\<rparr>"
  have "ready_to_upload ?w [''a'', ''b'']"
    by (simp add: ready_to_upload_def up_connect_facts(1) collect_items_def)
  then show ?thesis
    using upload_main_outcome [of ?w "\<lambda>s d. (s, True)" "\<lambda>s d. Some True" "\<lambda>chunk workers p it s. (s, 0, Some CreateErr)" "[''a'', ''b'']" "()"]
    by (auto simp: Let_def split: prod.splits)
qed

end
