(* ===== verification/Proxy.thy ===== *)
theory Proxy
  imports Go_Json
begin

text \<open>
  The proxy command, \<open>cmd/proxy/main.go\<close>: the parsing of the port mappings, the forwarder that carries one mapped
  port for one client at a time, the error reply, and the start-up.

  \<^item> A forwarder is shared by its read loop and by one \<open>serve\<close> per accepted connection; its mutex makes every
    access atomic, so a run is a sequence of steps (\<open>fwd_step\<close>). Connections are numbered as they are accepted.
  \<^item> The device's stream, the listeners and the dialler are outside the model: what they return is the step's argument.
\<close>

section \<open>Port mappings\<close>

record mapping =
  m_local :: int
  m_device :: int

datatype set_err = WantLocalDevice string | BadLocalPort string | BadDevicePort string

definition port_ok :: "int \<Rightarrow> bool" where
  "port_ok n \<longleftrightarrow> 1 \<le> n \<and> n \<le> 65535"

definition parse_port :: "string \<Rightarrow> int option" where
  "parse_port s = (case Atoi (TrimSpace s) of None \<Rightarrow> None | Some n \<Rightarrow> if n < 1 \<or> n > 65535 then None else Some n)"

definition mappings_Set :: "string \<Rightarrow> mapping list \<Rightarrow> set_err + mapping list" where
  "mappings_Set v m =
     (case Cut v CHR '':'' of
        (l, d, ok) \<Rightarrow>
          if \<not> ok then Inl (WantLocalDevice v)
          else case parse_port l of
                 None \<Rightarrow> Inl (BadLocalPort v)
               | Some lp \<Rightarrow>
                   (case parse_port d of
                      None \<Rightarrow> Inl (BadDevicePort v)
                    | Some dp \<Rightarrow> Inr (m @ [\<lparr>m_local = lp, m_device = dp\<rparr>])))"

definition print_mapping :: "mapping \<Rightarrow> string" where
  "print_mapping x = itoa (nat (m_local x)) @ '':'' @ itoa (nat (m_device x))"

fun parse_flags :: "string list \<Rightarrow> mapping list \<Rightarrow> set_err + mapping list" where
  "parse_flags [] m = Inr m"
| "parse_flags (v # vs) m = (case mappings_Set v m of Inl e \<Rightarrow> Inl e | Inr m \<Rightarrow> parse_flags vs m)"

definition default_maps :: "mapping list \<Rightarrow> mapping list" where
  "default_maps maps = (if maps = [] then [\<lparr>m_local = 4700, m_device = 4700\<rparr>] else maps)"

section \<open>The error reply\<close>

definition errBusy :: string where "errBusy = ''another client is connected''"

definition crlf :: string where "crlf = [CHR 0x0D, CHR 0x0A]"

definition replyError :: "int \<Rightarrow> string \<Rightarrow> string" where
  "replyError port err =
     (if port \<noteq> 4700 then ''proxy: '' @ err @ crlf
      else ''{'' @ json_string ''jsonrpc'' @ '':'' @ json_string ''2.0'' @ '','' @ json_string ''error'' @ '':{'' @
           json_string ''code'' @ '':-32000,'' @ json_string ''message'' @ '':'' @ json_string (''proxy: '' @ err) @ ''},'' @
           json_string ''id'' @ '':null}'' @ crlf)"

section \<open>The forwarder\<close>

text \<open>
  \<open>fw_sent c\<close> is what was written to connection \<open>c\<close>, \<open>fw_toDevice\<close> what was written to the stream with its sender. \<open>fw_stream\<close> is all the
  device's output, and \<open>fw_since c\<close> how much of it there was when \<open>c\<close> attached.
\<close>

record fwd =
  fw_device :: int
  fw_client :: "nat option"
  fw_reading :: bool
  fw_copying :: "nat list"
  fw_closed :: "nat list"
  fw_sent :: "nat \<Rightarrow> bytes"
  fw_replies :: "(nat \<times> string) list"
  fw_toDevice :: "(nat \<times> bytes) list"
  fw_stream :: bytes
  fw_since :: "nat \<Rightarrow> nat"
  fw_accepted :: nat

definition fwd_start :: "int \<Rightarrow> fwd" where
  "fwd_start port = \<lparr>fw_device = port, fw_client = None, fw_reading = True, fw_copying = [], fw_closed = [],
     fw_sent = \<lambda>_. [], fw_replies = [], fw_toDevice = [], fw_stream = [], fw_since = \<lambda>_. 0, fw_accepted = 0\<rparr>"

text \<open>One round of \<open>readLoop\<close> on the bytes and the error of the stream's \<open>Read\<close>.\<close>

definition readLoop_round :: "bytes \<Rightarrow> bool \<Rightarrow> fwd \<Rightarrow> fwd" where
  "readLoop_round data err f =
     (let f = f\<lparr>fw_stream := fw_stream f @ data\<rparr>;
          f = (if data \<noteq> [] then
                 (case fw_client f of
                    None \<Rightarrow> f
                  | Some c \<Rightarrow> f\<lparr>fw_sent := (fw_sent f)(c := fw_sent f c @ data)\<rparr>)
               else f)
      in if err then
           (case fw_client f of
              None \<Rightarrow> f
            | Some c \<Rightarrow> f\<lparr>fw_closed := c # fw_closed f, fw_client := None\<rparr>)\<lparr>fw_reading := False\<rparr>
         else f)"

text \<open>\<open>serve\<close> on a freshly accepted connection, up to the copying.\<close>

definition serve_enter :: "fwd \<Rightarrow> fwd" where
  "serve_enter f =
     (let c = fw_accepted f; f = f\<lparr>fw_accepted := Suc c\<rparr>
      in if fw_client f \<noteq> None
         then f\<lparr>fw_replies := fw_replies f @ [(c, replyError (fw_device f) errBusy)], fw_closed := c # fw_closed f\<rparr>
         else f\<lparr>fw_client := Some c, fw_copying := c # fw_copying f, fw_since := (fw_since f)(c := length (fw_stream f))\<rparr>)"

definition serve_copy :: "nat \<Rightarrow> bytes \<Rightarrow> fwd \<Rightarrow> fwd" where
  "serve_copy c data f = f\<lparr>fw_toDevice := fw_toDevice f @ [(c, data)]\<rparr>"

text \<open>The end of \<open>serve\<close>, after the copying.\<close>

definition serve_leave :: "nat \<Rightarrow> fwd \<Rightarrow> fwd" where
  "serve_leave c f =
     (let f = f\<lparr>fw_copying := removeAll c (fw_copying f)\<rparr>;
          f = (if fw_client f = Some c then f\<lparr>fw_client := None\<rparr> else f)
      in f\<lparr>fw_closed := c # fw_closed f\<rparr>)"

inductive fwd_step :: "fwd \<Rightarrow> fwd \<Rightarrow> bool" where
  device: "fw_reading f \<Longrightarrow> fwd_step f (readLoop_round data err f)"
| accept: "fwd_step f (serve_enter f)"
| copy: "c \<in> set (fw_copying f) \<Longrightarrow> fwd_step f (serve_copy c data f)"
| leave: "c \<in> set (fw_copying f) \<Longrightarrow> fwd_step f (serve_leave c f)"

inductive_cases fwd_stepE: "fwd_step f f'"

inductive fwd_reachable :: "int \<Rightarrow> fwd \<Rightarrow> bool" for port where
  start: "fwd_reachable port (fwd_start port)"
| step: "fwd_reachable port f \<Longrightarrow> fwd_step f f' \<Longrightarrow> fwd_reachable port f'"

section \<open>Start-up\<close>

text \<open>Binding: the listeners opened, and whether all were; the earlier ones are closed on a failure.\<close>

fun bind_all :: "(int \<Rightarrow> bool) \<Rightarrow> mapping list \<Rightarrow> mapping list \<Rightarrow> mapping list \<times> bool" where
  "bind_all Listen lns [] = (lns, True)"
| "bind_all Listen lns (m # ms) = (if Listen (m_local m) then bind_all Listen (lns @ [m]) ms else ([], False))"

fun open_channels :: "(int \<Rightarrow> bool) \<Rightarrow> mapping list \<Rightarrow> fwd list \<Rightarrow> fwd list option" where
  "open_channels OpenChannel [] fwds = Some fwds"
| "open_channels OpenChannel (m # ms) fwds =
     (if OpenChannel (m_device m) then open_channels OpenChannel ms (fwds @ [fwd_start (m_device m)]) else None)"

datatype proxy_end = UsageErr set_err | ConfigErr | ListenErr | ProxyDialErr | ChannelOpenErr | Serving "fwd list"

record proxy_run =
  px_end :: proxy_end
  px_listening :: "mapping list"
  px_dialled :: "int option"
  px_tunnel :: bool

definition proxy_main :: "string list \<Rightarrow> bool \<Rightarrow> (int \<Rightarrow> bool) \<Rightarrow> (int \<Rightarrow> bool) \<Rightarrow> (int \<Rightarrow> bool) \<Rightarrow> proxy_run" where
  "proxy_main args resolves Listen DialTo OpenChannel =
     (case parse_flags args [] of
        Inl e \<Rightarrow> \<lparr>px_end = UsageErr e, px_listening = [], px_dialled = None, px_tunnel = False\<rparr>
      | Inr maps0 \<Rightarrow>
          let maps = default_maps maps0; (lns, ok) = bind_all Listen [] maps; p = m_device (hd maps)
          in if \<not> resolves then \<lparr>px_end = ConfigErr, px_listening = [], px_dialled = None, px_tunnel = False\<rparr>
             else if \<not> ok then \<lparr>px_end = ListenErr, px_listening = lns, px_dialled = None, px_tunnel = False\<rparr>
             else if \<not> DialTo p then \<lparr>px_end = ProxyDialErr, px_listening = lns, px_dialled = Some p, px_tunnel = False\<rparr>
             else case open_channels OpenChannel (tl maps) [fwd_start p] of
                    None \<Rightarrow> \<lparr>px_end = ChannelOpenErr, px_listening = lns, px_dialled = Some p, px_tunnel = False\<rparr>
                  | Some fwds \<Rightarrow> \<lparr>px_end = Serving fwds, px_listening = lns, px_dialled = Some p, px_tunnel = True\<rparr>)"

section \<open>The invariant of a forwarder\<close>

definition client_ok :: "fwd \<Rightarrow> nat \<Rightarrow> bool" where
  "client_ok f c \<longleftrightarrow> c \<in> set (fw_copying f) \<and> c \<notin> set (fw_closed f) \<and> fw_since f c \<le> length (fw_stream f) \<and>
     fw_sent f c = drop (fw_since f c) (fw_stream f)"

definition ids_ok :: "fwd \<Rightarrow> bool" where
  "ids_ok f \<longleftrightarrow> set (fw_copying f) \<subseteq> {..<fw_accepted f} \<and> set (fw_closed f) \<subseteq> {..<fw_accepted f} \<and>
     fst ` set (fw_replies f) \<subseteq> {..<fw_accepted f} \<and> fst ` set (fw_toDevice f) \<subseteq> {..<fw_accepted f} \<and>
     (\<forall>c\<ge>fw_accepted f. fw_sent f c = [])"

definition rejects_ok :: "int \<Rightarrow> fwd \<Rightarrow> bool" where
  "rejects_ok port f \<longleftrightarrow> fw_device f = port \<and> (\<forall>(c, r) \<in> set (fw_replies f). r = replyError port errBusy \<and> c \<in> set (fw_closed f) \<and>
     c \<notin> set (fw_copying f) \<and> fw_sent f c = [] \<and> c \<notin> fst ` set (fw_toDevice f))"

definition segments_ok :: "fwd \<Rightarrow> bool" where
  "segments_ok f \<longleftrightarrow> (\<forall>c. \<exists>j. fw_sent f c = take j (drop (fw_since f c) (fw_stream f)))"

definition fwd_inv :: "int \<Rightarrow> fwd \<Rightarrow> bool" where
  "fwd_inv port f \<longleftrightarrow> ids_ok f \<and> (\<forall>c. fw_client f = Some c \<longrightarrow> client_ok f c) \<and>
     (fw_reading f \<longrightarrow> (\<forall>c\<in>set (fw_copying f). fw_client f = Some c)) \<and> rejects_ok port f \<and> segments_ok f"

lemma fwd_invI:
  assumes "ids_ok f" "\<And>c. fw_client f = Some c \<Longrightarrow> client_ok f c"
    "\<And>c. fw_reading f \<Longrightarrow> c \<in> set (fw_copying f) \<Longrightarrow> fw_client f = Some c" "rejects_ok port f" "segments_ok f"
  shows "fwd_inv port f"
  using assms by (simp add: fwd_inv_def)

lemma fwd_invD:
  assumes "fwd_inv port f"
  shows "ids_ok f" "fw_client f = Some c \<Longrightarrow> client_ok f c"
    "fw_reading f \<Longrightarrow> c \<in> set (fw_copying f) \<Longrightarrow> fw_client f = Some c" "rejects_ok port f" "segments_ok f"
  using assms by (simp_all add: fwd_inv_def)

lemma segment_keeps:
  assumes "segments_ok f" "fw_stream f' = fw_stream f @ d" "fw_since f' = fw_since f" "fw_sent f' = fw_sent f"
  shows "segments_ok f'"
  unfolding segments_ok_def
proof
  fix c
  obtain j where "fw_sent f c = take j (drop (fw_since f c) (fw_stream f))" using assms(1) by (auto simp: segments_ok_def)
  then have "fw_sent f' c = take (min j (length (fw_stream f) - fw_since f c)) (drop (fw_since f' c) (fw_stream f'))"
    using assms(2-4) by (cases "j \<le> length (fw_stream f) - fw_since f c") (auto simp: min_def)
  then show "\<exists>j. fw_sent f' c = take j (drop (fw_since f' c) (fw_stream f'))" ..
qed

lemma round_quiet: "readLoop_round data False f =
    (case fw_client f of
       None \<Rightarrow> f\<lparr>fw_stream := fw_stream f @ data\<rparr>
     | Some c \<Rightarrow> f\<lparr>fw_stream := fw_stream f @ data, fw_sent := (fw_sent f)(c := fw_sent f c @ data)\<rparr>)"
  by (auto simp: readLoop_round_def Let_def split: option.splits)

lemma round_quiet_inv:
  assumes inv: "fwd_inv port f" and r: "fw_reading f"
  shows "fwd_inv port (readLoop_round data False f)"
proof (cases "fw_client f")
  case None
  have "fwd_inv port (f\<lparr>fw_stream := fw_stream f @ data\<rparr>)"
  proof (rule fwd_invI)
    show "segments_ok (f\<lparr>fw_stream := fw_stream f @ data\<rparr>)" by (rule segment_keeps [OF fwd_invD(5) [OF inv]]) simp_all
  qed (use fwd_invD [OF inv] None r in \<open>auto simp: ids_ok_def rejects_ok_def\<close>)
  then show ?thesis using None by (simp add: round_quiet)
next
  case (Some c)
  let ?f = "f\<lparr>fw_stream := fw_stream f @ data, fw_sent := (fw_sent f)(c := fw_sent f c @ data)\<rparr>"
  have ok: "client_ok f c" by (rule fwd_invD(2) [OF inv Some])
  have "fwd_inv port ?f"
  proof (rule fwd_invI)
    show "segments_ok ?f" unfolding segments_ok_def
    proof
      fix x
      show "\<exists>j. fw_sent ?f x = take j (drop (fw_since ?f x) (fw_stream ?f))"
      proof (cases "x = c")
        case True
        have "fw_sent ?f c = take (length (fw_stream ?f)) (drop (fw_since ?f c) (fw_stream ?f))" using ok by (simp add: client_ok_def)
        then show ?thesis using True by blast
      next
        case False
        have "segments_ok (f\<lparr>fw_stream := fw_stream f @ data\<rparr>)" by (rule segment_keeps [OF fwd_invD(5) [OF inv]]) simp_all
        then show ?thesis using False by (auto simp: segments_ok_def)
      qed
    qed
    show "ids_ok ?f" using fwd_invD(1) [OF inv] ok by (auto simp: ids_ok_def client_ok_def)
    show "rejects_ok port ?f" using fwd_invD(4) [OF inv] ok by (auto simp: rejects_ok_def client_ok_def)
  qed (use fwd_invD(2,3) [OF inv] Some r ok in \<open>auto simp: client_ok_def\<close>)
  then show ?thesis using Some by (simp add: round_quiet)
qed

lemma round_err: "readLoop_round data True f =
    (let g = readLoop_round data False f
     in case fw_client g of None \<Rightarrow> g\<lparr>fw_reading := False\<rparr>
        | Some c \<Rightarrow> g\<lparr>fw_closed := c # fw_closed g, fw_client := None, fw_reading := False\<rparr>)"
  by (simp add: readLoop_round_def Let_def split: option.splits)

lemma stop_reading_inv:
  assumes inv: "fwd_inv port g"
  shows "fwd_inv port (case fw_client g of None \<Rightarrow> g\<lparr>fw_reading := False\<rparr>
        | Some c \<Rightarrow> g\<lparr>fw_closed := c # fw_closed g, fw_client := None, fw_reading := False\<rparr>)"
proof (cases "fw_client g")
  case None
  then show ?thesis using inv by (simp add: fwd_inv_def ids_ok_def rejects_ok_def segments_ok_def)
next
  case (Some c)
  have ok: "client_ok g c" by (rule fwd_invD(2) [OF inv Some])
  have "fwd_inv port (g\<lparr>fw_closed := c # fw_closed g, fw_client := None, fw_reading := False\<rparr>)"
  proof (rule fwd_invI)
    show "ids_ok (g\<lparr>fw_closed := c # fw_closed g, fw_client := None, fw_reading := False\<rparr>)"
      using fwd_invD(1) [OF inv] ok by (auto simp: ids_ok_def client_ok_def)
    show "rejects_ok port (g\<lparr>fw_closed := c # fw_closed g, fw_client := None, fw_reading := False\<rparr>)"
      using fwd_invD(4) [OF inv] by (auto simp: rejects_ok_def)
  qed (use fwd_invD(5) [OF inv] in \<open>auto simp: segments_ok_def\<close>)
  then show ?thesis using Some by simp
qed

lemma readLoop_inv:
  assumes "fwd_inv port f" "fw_reading f"
  shows "fwd_inv port (readLoop_round data err f)"
  using round_quiet_inv [OF assms] stop_reading_inv [OF round_quiet_inv [OF assms]]
  by (cases err) (simp_all add: round_err Let_def)

lemma serve_enter_inv:
  assumes inv: "fwd_inv port f"
  shows "fwd_inv port (serve_enter f)"
proof -
  let ?n = "fw_accepted f"
  have fresh: "fw_sent f ?n = []" "?n \<notin> set (fw_copying f)" "?n \<notin> set (fw_closed f)"
    "?n \<notin> fst ` set (fw_replies f)" "?n \<notin> fst ` set (fw_toDevice f)"
    using fwd_invD(1) [OF inv] by (auto simp: ids_ok_def)
  have new: "(?n, r) \<notin> set (fw_replies f)" for r
    using fresh(4) by (metis fst_conv image_eqI)
  have ids: "ids_ok (serve_enter f)"
    using fwd_invD(1) [OF inv] by (auto simp: ids_ok_def serve_enter_def Let_def less_Suc_eq)
  show ?thesis
  proof (cases "fw_client f")
    case None
    then have e: "serve_enter f = f\<lparr>fw_accepted := Suc ?n, fw_client := Some ?n, fw_copying := ?n # fw_copying f,
        fw_since := (fw_since f)(?n := length (fw_stream f))\<rparr>" by (simp add: serve_enter_def Let_def)
    show ?thesis
    proof (rule fwd_invI)
      show "segments_ok (serve_enter f)"
        using fwd_invD(5) [OF inv] fresh(1) unfolding e by (auto simp: segments_ok_def)
      show "rejects_ok port (serve_enter f)"
        using fwd_invD(4) [OF inv] new unfolding e by (auto simp: rejects_ok_def)
      show "fw_client (serve_enter f) = Some c" if "fw_reading (serve_enter f)" "c \<in> set (fw_copying (serve_enter f))" for c
        using that fwd_invD(3) [OF inv, of c] None unfolding e by auto
    qed (use ids fresh e in \<open>auto simp: client_ok_def\<close>)
  next
    case (Some c)
    then have e: "serve_enter f = f\<lparr>fw_accepted := Suc ?n,
        fw_replies := fw_replies f @ [(?n, replyError (fw_device f) errBusy)], fw_closed := ?n # fw_closed f\<rparr>"
      by (simp add: serve_enter_def Let_def)
    have ok: "client_ok f c" "c \<noteq> ?n" using fwd_invD(2) [OF inv Some] fresh(2) by (auto simp: client_ok_def)
    show ?thesis
    proof (rule fwd_invI)
      show "rejects_ok port (serve_enter f)"
        using fwd_invD(4) [OF inv] fresh unfolding e by (auto simp: rejects_ok_def)
    qed (use ids fwd_invD(3,5) [OF inv] Some ok e in \<open>auto simp: client_ok_def segments_ok_def\<close>)
  qed
qed

lemma serve_copy_inv:
  assumes inv: "fwd_inv port f" and c: "c \<in> set (fw_copying f)"
  shows "fwd_inv port (serve_copy c data f)"
proof (rule fwd_invI)
  show "ids_ok (serve_copy c data f)" using fwd_invD(1) [OF inv] c by (auto simp: ids_ok_def serve_copy_def)
  show "rejects_ok port (serve_copy c data f)" using fwd_invD(4) [OF inv] c by (auto simp: rejects_ok_def serve_copy_def)
qed (use fwd_invD(2,3,5) [OF inv] in \<open>auto simp: client_ok_def segments_ok_def serve_copy_def\<close>)

lemma serve_leave_inv:
  assumes inv: "fwd_inv port f" and c: "c \<in> set (fw_copying f)"
  shows "fwd_inv port (serve_leave c f)"
proof (rule fwd_invI)
  show "ids_ok (serve_leave c f)" using fwd_invD(1) [OF inv] c by (auto simp: ids_ok_def serve_leave_def Let_def)
  show "rejects_ok port (serve_leave c f)" using fwd_invD(4) [OF inv] by (auto simp: rejects_ok_def serve_leave_def Let_def)
  show "client_ok (serve_leave c f) x" if "fw_client (serve_leave c f) = Some x" for x
    using that fwd_invD(2) [OF inv, of x] by (auto simp: client_ok_def serve_leave_def Let_def split: if_splits)
  show "fw_client (serve_leave c f) = Some x" if "fw_reading (serve_leave c f)" "x \<in> set (fw_copying (serve_leave c f))" for x
    using that fwd_invD(3) [OF inv, of x] fwd_invD(3) [OF inv _ c] by (auto simp: serve_leave_def Let_def split: if_splits)
  show "segments_ok (serve_leave c f)" using fwd_invD(5) [OF inv] by (simp add: segments_ok_def serve_leave_def Let_def)
qed

lemma fwd_step_inv: "fwd_step f f' \<Longrightarrow> fwd_inv port f \<Longrightarrow> fwd_inv port f'"
  by (induction rule: fwd_step.induct) (auto intro: readLoop_inv serve_enter_inv serve_copy_inv serve_leave_inv)

lemma fwd_start_inv: "fwd_inv port (fwd_start port)"
  by (simp add: fwd_inv_def ids_ok_def rejects_ok_def segments_ok_def fwd_start_def)

lemma fwd_reachable_inv: "fwd_reachable port f \<Longrightarrow> fwd_inv port f"
  by (induction rule: fwd_reachable.induct) (auto intro: fwd_start_inv fwd_step_inv)

section \<open>Start-up\<close>

lemma bind_all_spec:
  "bind_all Listen lns ms = (if \<forall>m\<in>set ms. Listen (m_local m) then (lns @ ms, True) else ([], False))"
  by (induction Listen lns ms rule: bind_all.induct) auto

lemma open_channels_spec:
  "open_channels OpenChannel ms fwds =
     (if \<forall>m\<in>set ms. OpenChannel (m_device m) then Some (fwds @ map (\<lambda>m. fwd_start (m_device m)) ms) else None)"
  by (induction OpenChannel ms fwds rule: open_channels.induct) auto

lemma parse_port_itoa: "port_ok n \<Longrightarrow> parse_port (itoa (nat n)) = Some n"
proof -
  assume n: "port_ok n"
  then have "nat n < 2 ^ 63" by (simp add: port_ok_def nat_less_iff)
  then show ?thesis using n by (auto simp: parse_port_def TrimSpace_id isSpace_itoa Atoi_itoa port_ok_def)
qed

lemma itoa_colon: "CHR '':'' \<notin> set (itoa n)"
  using itoa_digits [of "CHR '':''" n] by auto

lemma mappings_Set_ok: "mappings_Set v m = Inr m' \<Longrightarrow> \<exists>x. m' = m @ [x] \<and> port_ok (m_local x) \<and> port_ok (m_device x)"
  by (auto simp: mappings_Set_def parse_port_def port_ok_def split: if_splits option.splits prod.splits)

lemma parse_flags_ok:
  "parse_flags vs m = Inr m' \<Longrightarrow> \<forall>x\<in>set m. port_ok (m_local x) \<and> port_ok (m_device x) \<Longrightarrow>
     \<forall>x\<in>set m'. port_ok (m_local x) \<and> port_ok (m_device x)"
proof (induction vs m rule: parse_flags.induct)
  case (2 v vs m)
  obtain m1 where m1: "mappings_Set v m = Inr m1" "parse_flags vs m1 = Inr m'" using 2(2) by (auto split: sum.splits)
  have "\<forall>x\<in>set m1. port_ok (m_local x) \<and> port_ok (m_device x)" using mappings_Set_ok [OF m1(1)] 2(3) by auto
  then show ?case using 2(1) [OF m1] by simp
qed simp

section \<open>Properties\<close>

text \<open>
  C31. One client at a time, and each one sees the stream from where it joined. In every reachable state of a
  forwarder: what was written to a connection is a contiguous piece of the device's output that starts exactly
  where the output stood when the connection was attached, so nothing from before is delivered
  and nothing is skipped; for the attached client it reaches to the newest byte. While the device's
  stream is up, only the attached client can write to the device. A rejected connection has got the
  busy reply for its port and nothing else, is closed, and has never reached the device.
\<close>

theorem proxy_one_client:
  assumes "fwd_reachable port f"
  shows "(\<forall>c. \<exists>j. fw_sent f c = take j (drop (fw_since f c) (fw_stream f))) \<and>
    (\<forall>c. fw_client f = Some c \<longrightarrow> c \<notin> set (fw_closed f) \<and> fw_sent f c = drop (fw_since f c) (fw_stream f)) \<and>
    (fw_reading f \<longrightarrow> set (fw_copying f) = set_option (fw_client f)) \<and>
    (\<forall>(c, r) \<in> set (fw_replies f). r = replyError port errBusy \<and> c \<in> set (fw_closed f) \<and> fw_sent f c = [] \<and>
       c \<notin> fst ` set (fw_toDevice f))"
proof -
  note inv = fwd_reachable_inv [OF assms]
  have one: "fw_reading f \<longrightarrow> set (fw_copying f) = set_option (fw_client f)"
  proof (intro impI equalityI subsetI)
    fix x
    assume "fw_reading f" "x \<in> set (fw_copying f)"
    then show "x \<in> set_option (fw_client f)" by (simp add: fwd_invD(3) [OF inv])
  next
    fix x
    assume "x \<in> set_option (fw_client f)"
    then show "x \<in> set (fw_copying f)" using fwd_invD(2) [OF inv, of x] by (simp add: client_ok_def)
  qed
  have rej: "\<forall>(c, r) \<in> set (fw_replies f). r = replyError port errBusy \<and> c \<in> set (fw_closed f) \<and> fw_sent f c = [] \<and>
       c \<notin> fst ` set (fw_toDevice f)"
    using fwd_invD(4) [OF inv] by (auto simp only: rejects_ok_def)
  have cl: "\<forall>c. fw_client f = Some c \<longrightarrow> c \<notin> set (fw_closed f) \<and> fw_sent f c = drop (fw_since f c) (fw_stream f)"
    using inv by (simp add: fwd_inv_def client_ok_def)
  show ?thesis by (rule conjI [OF fwd_invD(5) [OF inv, unfolded segments_ok_def] conjI [OF cl conjI [OF one rej]]])
qed

theorem proxy_one_client_witness:
  "fwd_reachable 4700 (serve_enter (readLoop_round [1, 2] False (serve_enter (fwd_start 4700)))) \<and>
   fw_sent (serve_enter (readLoop_round [1, 2] False (serve_enter (fwd_start 4700)))) 0 = [1, 2]"
proof -
  let ?f = "serve_enter (readLoop_round [1, 2] False (serve_enter (fwd_start 4700)))"
  have "fwd_reachable 4700 (serve_enter (fwd_start 4700))" by (rule fwd_reachable.step [OF fwd_reachable.start fwd_step.accept])
  moreover have "fw_reading (serve_enter (fwd_start 4700))" by (simp add: serve_enter_def fwd_start_def)
  ultimately have r: "fwd_reachable 4700 ?f" using fwd_reachable.step [OF fwd_reachable.step fwd_step.accept] fwd_step.device by blast
  have c: "fw_client ?f = Some 0" "drop (fw_since ?f 0) (fw_stream ?f) = [1, 2]"
    by (simp_all add: serve_enter_def readLoop_round_def fwd_start_def Let_def)
  from proxy_one_client [OF r, THEN conjunct2, THEN conjunct1, rule_format, OF c(1)] c(2) r show ?thesis by simp
qed

text \<open>
  C33. Port mappings: every mapping with both ports in 1 to 65535 is accepted in the form it is written in, and
  gives back the same mapping, appended to those before it; and whatever is accepted has both its ports
  in that range.
\<close>

theorem mapping_roundtrip:
  "(port_ok (m_local x) \<and> port_ok (m_device x) \<longrightarrow> mappings_Set (print_mapping x) m = Inr (m @ [x])) \<and>
   (mappings_Set v m = Inr m' \<longrightarrow> (\<exists>y. m' = m @ [y] \<and> port_ok (m_local y) \<and> port_ok (m_device y)))"
proof -
  have "mappings_Set (print_mapping x) m = Inr (m @ [x])" if "port_ok (m_local x)" "port_ok (m_device x)"
    using that parse_port_itoa Cut_first [OF itoa_colon] by (simp add: mappings_Set_def print_mapping_def)
  then show ?thesis using mappings_Set_ok by blast
qed

theorem mapping_roundtrip_witness:
  "mappings_Set (print_mapping \<lparr>m_local = 8080, m_device = 80\<rparr>) [] = Inr [\<lparr>m_local = 8080, m_device = 80\<rparr>]"
  using mapping_roundtrip [of "\<lparr>m_local = 8080, m_device = 80\<rparr>" "[]"] by (simp add: port_ok_def)

text \<open>
  C32. Start-up: the device is dialled only after every local port is bound, at the first mapping's device port, and a failure
  at any stage leaves no tunnel. The proxy serves exactly when the flags parse, the configuration
  resolves, every port binds, the dial succeeds and every further channel opens; it then has one
  forwarder per mapping, in order, on valid ports.
\<close>

theorem proxy_start_up:
  "(px_dialled (proxy_main args resolves Listen DialTo OpenChannel) \<noteq> None \<longrightarrow>
      (\<exists>maps. parse_flags args [] = Inr maps \<and> px_listening (proxy_main args resolves Listen DialTo OpenChannel) = default_maps maps \<and>
        (\<forall>m\<in>set (default_maps maps). Listen (m_local m) \<and> port_ok (m_local m) \<and> port_ok (m_device m)))) \<and>
   (px_tunnel (proxy_main args resolves Listen DialTo OpenChannel) \<longleftrightarrow>
      (\<exists>fwds. px_end (proxy_main args resolves Listen DialTo OpenChannel) = Serving fwds)) \<and>
   (\<forall>fwds. px_end (proxy_main args resolves Listen DialTo OpenChannel) = Serving fwds \<longleftrightarrow>
      (\<exists>maps. parse_flags args [] = Inr maps \<and> resolves \<and> (\<forall>m\<in>set (default_maps maps). Listen (m_local m)) \<and>
        DialTo (m_device (hd (default_maps maps))) \<and> (\<forall>m\<in>set (tl (default_maps maps)). OpenChannel (m_device m)) \<and>
        fwds = map (\<lambda>m. fwd_start (m_device m)) (default_maps maps)))"
proof (cases "parse_flags args []")
  case (Inl e)
  then show ?thesis by (simp add: proxy_main_def)
next
  case (Inr maps)
  have ports: "\<forall>m\<in>set (default_maps maps). port_ok (m_local m) \<and> port_ok (m_device m)"
    using parse_flags_ok [OF Inr] by (auto simp: default_maps_def port_ok_def)
  obtain x xs where d: "default_maps maps = x # xs" by (cases maps) (auto simp: default_maps_def)
  show ?thesis using ports
    by (auto simp: proxy_main_def Inr d bind_all_spec open_channels_spec Let_def split: if_splits)
qed

theorem proxy_start_up_witness:
  "px_end (proxy_main [] True (\<lambda>_. True) (\<lambda>_. True) (\<lambda>_. False)) = Serving [fwd_start 4700] \<and>
   px_tunnel (proxy_main [] True (\<lambda>_. True) (\<lambda>_. True) (\<lambda>_. False)) \<and>
   px_dialled (proxy_main [] True (\<lambda>_. True) (\<lambda>_. True) (\<lambda>_. False)) = Some 4700"
proof -
  let ?r = "proxy_main [] True (\<lambda>_. True) (\<lambda>_. True) (\<lambda>_. False)"
  note P = proxy_start_up [of "[]" True "\<lambda>_. True" "\<lambda>_. True" "\<lambda>_. False"]
  have "px_end ?r = Serving [fwd_start 4700]"
    using P [THEN conjunct2, THEN conjunct2] by (simp add: default_maps_def)
  moreover from this have "px_tunnel ?r" using P [THEN conjunct2, THEN conjunct1] by simp
  moreover have "px_dialled ?r = Some 4700" by (simp add: proxy_main_def default_maps_def)
  ultimately show ?thesis by simp
qed

end
