(* ===== verification/Channel_Stream.thy ===== *)
theory Channel_Stream
  imports Tunnel_Inbound Smb_Conn
begin

text \<open>
  The extra channels. Every command talks to the device through a channel of its own (\<open>OpenChannel\<close> of
  \<open>kalay/tunnelconn.go\<close>); the download and upload commands put the buffered \<open>tunConn\<close> on top of it.

  \<^item> \<open>parsed pay t\<close>: the messages of the device's stream \<open>pay\<close> that the pump has routed so far.
  \<^item> \<open>ch_run\<close>: the life of one channel, from its opening, under everything else that happens to the tunnel.
  \<^item> \<open>smb_run\<close>: the same with a \<open>tunConn\<close> whose pump reads the channel and whose \<open>Read\<close> is called by the SMB client.
\<close>

section \<open>What a consumption routes\<close>

definition parsed :: "(nat \<Rightarrow> bytes) \<Rightarrow> Tunnel \<Rightarrow> PTunMsg list" where
  "parsed pay t = (if pumpStarted t then fst (demux (consumed_bytes pay t)) else [])"

lemma parsed_same: "in_same t u \<Longrightarrow> parsed pay u = parsed pay t"
  by (simp add: parsed_def in_same_def consumed_bytes_def)

text \<open>The state in which the pump drains: the stream's position is known, nothing is routed twice.\<close>

lemma start_ready:
  assumes inv: "in_inv pay rd t" and st: "pumpStarted (pump_start now t)"
  defines "s \<equiv> pump_start now t"
  shows "rx_inv (frames (recv s)) (consumed_upto (recv s)) pay (unat (base (recv s))) (unat (pumpNext s)) (consumed_bytes pay s)"
    and "unat (base (recv s)) < unat (pumpNext s) \<or> frames (recv s) (pumpNext s) \<noteq> None"
    and "pbuf s = snd (demux (consumed_bytes pay s))" "parsed pay t = fst (demux (consumed_bytes pay s))"
    and "ctrlIdx s = 1" "chans s = chans t"
proof -
  have "rx_inv (frames (recv s)) (consumed_upto (recv s)) pay (unat (base (recv s))) (unat (pumpNext s)) (consumed_bytes pay s) \<and>
    (unat (base (recv s)) < unat (pumpNext s) \<or> frames (recv s) (pumpNext s) \<noteq> None) \<and>
    pbuf s = snd (demux (consumed_bytes pay s)) \<and> parsed pay t = fst (demux (consumed_bytes pay s)) \<and> ctrlIdx s = 1"
  proof (cases "pumpStarted t")
    case True
    then have "s = t" by (simp add: s_def pump_start_def)
    then show ?thesis using inv True by (simp add: in_inv_def parsed_def)
  next
    case False
    note inv' = inv [unfolded in_inv_def, simplified False]
    have bs: "baseSet (recv t)" using st False by (auto simp: pump_start_def Started_def split: if_splits)
    then have s: "s = t\<lparr>pumpNext := base (recv t), pumpStarted := True, lastAdvance := now\<rparr>"
      using False by (simp add: s_def pump_start_def Started_def Base_def)
    have "rx_inv (frames (recv t)) None pay (unat (base (recv t))) (unat (base (recv t))) []"
      using inv' unsigned_less [of "base (recv t)", where ?'a = nat]
      by (auto simp: rx_inv_def reasm_inv_def word_le_nat_alt)
    moreover have "consumed_upto (recv t) = None" using inv' by (simp add: consumed_upto_def)
    ultimately show ?thesis
      using inv' bs False by (simp add: s consumed_bytes_def demux_nil parsed_def)
  qed
  then show "rx_inv (frames (recv s)) (consumed_upto (recv s)) pay (unat (base (recv s))) (unat (pumpNext s)) (consumed_bytes pay s)"
    and "unat (base (recv s)) < unat (pumpNext s) \<or> frames (recv s) (pumpNext s) \<noteq> None"
    and "pbuf s = snd (demux (consumed_bytes pay s))" "parsed pay t = fst (demux (consumed_bytes pay s))" "ctrlIdx s = 1"
    by blast+
  show "chans s = chans t" by (simp add: s_def pump_start_def)
qed

text \<open>A consumption appends the newly completed messages, and each open channel gets its share of them.\<close>

lemma consume_routes:
  assumes inv: "in_inv pay rd t" and i: "i \<noteq> 1"
  shows "\<exists>ms. parsed pay (pump_consume now t) = parsed pay t @ ms \<and>
    chans (pump_consume now t) i = map_option (\<lambda>b. b @ chan_data i ms) (chans t i)"
proof (cases "pumpStarted (pump_start now t)")
  case True
  let ?s = "pump_start now t" let ?u = "pump_stall now (pump_demux now (pump_drain now ?s))"
  let ?c = "consumed_bytes pay ?s" and ?b = "unat (base (recv ?s))"
  note r = start_ready [OF inv True]
  obtain r' nx new where d: "drain (recv ?s) (pumpNext ?s) [] = (r', nx, new)" by (metis prod_cases3)
  note f = pump_drain_fields [OF d, of now]
  let ?ms = "fst (demux (snd (demux ?c) @ new))"
  have "?c @ new = concat (map pay [?b..<unat nx])"
    using rx_drain [OF r(1) [unfolded consumed_bytes_def], of r' nx new] d r(2) by (simp add: consumed_bytes_def)
  then have "consumed_bytes pay ?u = ?c @ new"
    using f drain_keeps [OF d] by (simp add: consumed_bytes_def pump_demux_eq)
  then have "parsed pay ?u = parsed pay t @ ?ms"
    using f True r(4) demux_append [of ?c new] by (simp add: parsed_def pump_demux_eq)
  moreover have "chans ?u i = map_option (\<lambda>b. b @ chan_data i ?ms) (chans t i)"
    using f r(3,5,6) i by (simp add: pump_demux_eq routes_chans)
  ultimately show ?thesis using True by (auto simp: pump_consume_def)
next
  case False
  then have "pump_consume now t = t" by (auto simp: pump_consume_def pump_start_def Let_def)
  then show ?thesis by (cases "chans t i") (auto intro!: exI [of _ "[]"])
qed

section \<open>One channel\<close>

text \<open>
  What happens around a channel: frames of the device's stream arrive in any order and number, the pump consumes, the control
  channel is read, and every other step that leaves the channel's buffer alone.
\<close>

inductive around :: "(nat \<Rightarrow> bytes) \<Rightarrow> tun_cfg \<Rightarrow> byte \<Rightarrow> Tunnel \<Rightarrow> Tunnel \<Rightarrow> bool" for pay c i where
  ar_frame: "genuine pay f \<Longrightarrow> around pay c i t (inbound1 now f t)"
| ar_consume: "around pay c i t (pump_consume now t)"
| ar_other: "quiet_step c t u \<Longrightarrow> chans u i = chans t i \<Longrightarrow> around pay c i t u"
| ar_ctrl_read: "Read n t = (u, Returns bs) \<Longrightarrow> around pay c i t u"

text \<open>
  \<open>ch_run pay c i m rd t\<close>: channel \<open>i\<close> was opened when \<open>m\<close> messages had been routed, its reader has been given \<open>rd\<close> since, and
  it is still registered.
\<close>

inductive ch_run :: "(nat \<Rightarrow> bytes) \<Rightarrow> tun_cfg \<Rightarrow> byte \<Rightarrow> nat \<Rightarrow> bytes \<Rightarrow> Tunnel \<Rightarrow> bool" for pay c i m where
  ch_open: "in_run pay c rd0 t \<Longrightarrow> tun_inv t \<Longrightarrow> OpenChannel_start port t = (u, Inr pv) \<Longrightarrow> lastIdx u = i \<Longrightarrow>
    m = length (parsed pay t) \<Longrightarrow> ch_run pay c i m [] u"
| ch_around: "ch_run pay c i m rd t \<Longrightarrow> around pay c i t u \<Longrightarrow> ch_run pay c i m rd u"
| ch_read: "ch_run pay c i m rd t \<Longrightarrow> chanConn_Read i n t = (u, Returns bs) \<Longrightarrow> ch_run pay c i m (rd @ bs) u"

definition ch_inv :: "(nat \<Rightarrow> bytes) \<Rightarrow> byte \<Rightarrow> nat \<Rightarrow> bytes \<Rightarrow> Tunnel \<Rightarrow> bool" where
  "ch_inv pay i m rd t \<longleftrightarrow> i \<noteq> 1 \<and> (\<exists>rd0. in_inv pay rd0 t) \<and> m \<le> length (parsed pay t) \<and>
     (\<exists>b. chans t i = Some b \<and> rd @ b = chan_data i (drop m (parsed pay t)))"

lemma ch_inv_same:
  "ch_inv pay i m rd t \<Longrightarrow> in_inv pay rd1 u \<Longrightarrow> parsed pay u = parsed pay t \<Longrightarrow> chans u i = chans t i \<Longrightarrow> ch_inv pay i m rd u"
  by (auto simp: ch_inv_def)

lemma inbound1_keeps: "pumpStarted (inbound1 now f t) = pumpStarted t" "pumpNext (inbound1 now f t) = pumpNext t"
    "chans (inbound1 now f t) = chans t"
  by (simp_all add: inbound1_def)

lemma in_inv_base_stable:
  assumes "in_inv pay rd t" "pumpStarted t"
  shows "base (recv (inbound1 now f t)) = base (recv t)"
proof (cases "rp_Type f = 0x02 \<and> snd (Add (recv t) (rp_Seq f) (rp_Payload f))")
  case True
  let ?n = "unat (pumpNext t)"
  have bn: "unat (base (recv t)) < ?n" and bs: "baseSet (recv t)"
    and rx: "rx_inv (frames (recv t)) (consumed_upto (recv t)) pay (unat (base (recv t))) ?n (consumed_bytes pay t)"
    using assms by (auto simp: in_inv_def)
  have "consumed_upto (recv t) = Some (word_of_nat (?n - 1))" using rx bn by (simp add: rx_inv_def)
  then have "\<not> rp_Seq f \<le> word_of_nat (?n - 1)"
    using True by (auto simp: Add_new_iff consumed_upto_def split: if_splits)
  then have "base (recv t) \<le> rp_Seq f" using rx_inv_pred [OF rx] bn by (simp add: word_le_nat_alt)
  then show ?thesis using True Add_bounds(2) [of "recv t"] bs by (simp add: inbound1_def min_def)
next
  case False
  then show ?thesis by (auto simp: inbound1_def Add_def Let_def)
qed

lemma parsed_inbound1: "in_inv pay rd t \<Longrightarrow> parsed pay (inbound1 now f t) = parsed pay t"
  using in_inv_base_stable [of pay rd t now f] by (simp add: parsed_def inbound1_keeps consumed_bytes_def)

lemma ch_inv_open:
  assumes "in_inv pay rd0 t" "tun_inv t" "OpenChannel_start port t = (u, Inr pv)" "lastIdx u = i"
  shows "ch_inv pay i (length (parsed pay t)) [] u"
proof -
  have p: "pendingV t = None" using assms(3) by (auto simp: OpenChannel_start_def split: if_splits)
  have u: "u = fst (OpenChannel_start port t)" using assms(3) by simp
  have "chan_idx (alloc_idx (nextIdx t))"
    using assms(2) by (intro chan_idx_alloc) (simp add: tun_inv_def aux_inv_def)
  then have "i \<noteq> 1" using assms(4) u OpenChannel_start_eq [OF p] by (auto simp: chan_idx_def word_le_nat_alt)
  moreover have "chans u i = Some []" using assms(4) u OpenChannel_start_eq [OF p] by simp
  moreover have s: "in_same t u" using quiet_in_same [OF qs_OpenChannel [of _ t port]] u by simp
  ultimately show ?thesis
    using in_inv_in_same [OF assms(1) s] parsed_same [OF s] by (auto simp: ch_inv_def)
qed

lemma ch_inv_around: "around pay c i t u \<Longrightarrow> ch_inv pay i m rd t \<Longrightarrow> ch_inv pay i m rd u"
proof (induction rule: around.induct)
  case (ar_frame f t now)
  then obtain rd0 where "in_inv pay rd0 t" by (auto simp: ch_inv_def)
  with ar_frame show ?case
    by (blast intro: ch_inv_same in_inv_inbound1 parsed_inbound1 fun_cong [OF inbound1_keeps(3)])
next
  case (ar_consume t now)
  then obtain rd0 b where t: "in_inv pay rd0 t" "i \<noteq> 1" "m \<le> length (parsed pay t)" "chans t i = Some b"
    "rd @ b = chan_data i (drop m (parsed pay t))" by (auto simp: ch_inv_def)
  obtain ms where "parsed pay (pump_consume now t) = parsed pay t @ ms"
    "chans (pump_consume now t) i = Some (b @ chan_data i ms)"
    using consume_routes [OF t(1,2), of now] t(4) by auto
  with t in_inv_consume [OF t(1), of now] show ?case by (auto simp: ch_inv_def)
next
  case (ar_other t u)
  then obtain rd0 where "in_inv pay rd0 t" by (auto simp: ch_inv_def)
  with ar_other show ?case by (blast intro: ch_inv_same in_inv_in_same quiet_in_same parsed_same)
next
  case (ar_ctrl_read n t u bs)
  then obtain rd0 where "in_inv pay rd0 t" by (auto simp: ch_inv_def)
  moreover have "parsed pay u = parsed pay t" "chans u i = chans t i"
    using ar_ctrl_read(1) by (auto simp: Read_def parsed_def consumed_bytes_def split: if_splits option.splits)
  ultimately show ?case using ar_ctrl_read by (blast intro: ch_inv_same in_inv_Read)
qed

lemma ch_run_inv: "ch_run pay c i m rd t \<Longrightarrow> ch_inv pay i m rd t"
proof (induction rule: ch_run.induct)
  case (ch_open rd0 t port u pv)
  then show ?case using ch_inv_open in_run_inv by blast
next
  case (ch_around rd t u)
  then show ?case using ch_inv_around by blast
next
  case (ch_read rd t n u bs)
  then obtain rd0 where "in_inv pay rd0 t" by (auto simp: ch_inv_def)
  moreover have s: "in_same t u" using quiet_in_same [OF qs_chanConn_Read [of _ t i n]] ch_read(2) by simp
  moreover obtain b where "chans t i = Some b" "chans u i = Some (drop n b)" "bs = take n b"
    using ch_read(2) by (auto simp: chanConn_Read_def split: option.splits if_splits)
  ultimately show ?case
    using ch_read in_inv_in_same [OF _ s] parsed_same [OF s] by (auto simp: ch_inv_def)
qed

section \<open>Closing\<close>

lemma tclosed_frame [simp]: "tclosed (pump_frame c now t) = tclosed t"
  by (induction c now t rule: pump_frame.induct) (subst pump_frame.simps, simp add: frame_step_def Let_def)

lemma tclosed_fold [simp]: "tclosed (fold (\<lambda>cb t. sendReliable now t ty b (devConn t) cb) ps t) = tclosed t" for t :: Tunnel
  by (induction ps arbitrary: t) simp_all

lemma quiet_closed: "quiet_step c t u \<Longrightarrow> tclosed t \<Longrightarrow> tclosed u"
  by (induction rule: quiet_step.induct)
    (auto simp: pump_keepalive_def pump_open_def pump_ctrl_def pump_accum_def fail_def closeT_def set_rerr_def pump_exit_def
      OpenChannel_start_def OpenChannel_finish_def SendTunnelCtrl_def dropChan_def chanConn_Read_def writeChan_def
      Close_def Let_def split: option.splits prod.splits open_outcome.splits)

lemma consume_closed [simp]: "tclosed (pump_consume now t) = tclosed t"
  by (auto simp: pump_consume_def pump_start_def pump_stall_def pump_demux_eq pump_drain_def Let_def split: prod.splits)

lemma around_closed: "around pay c i t u \<Longrightarrow> tclosed t \<Longrightarrow> tclosed u"
  by (induction rule: around.induct)
    (auto simp: inbound1_def Read_def quiet_closed split: if_splits option.splits)

section \<open>The SMB client's connection\<close>

text \<open>
  \<open>smb_run pay c i m t es tc\<close>: a \<open>tunConn\<close> was put on the channel when it was new; \<open>es\<close> is what has happened to the
  connection since. Its pump reads the channel with a buffer of 65536 bytes.
\<close>

inductive smb_run :: "(nat \<Rightarrow> bytes) \<Rightarrow> tun_cfg \<Rightarrow> byte \<Rightarrow> nat \<Rightarrow> Tunnel \<Rightarrow> tc_event list \<Rightarrow> tunConn \<Rightarrow> bool" for pay c i m where
  smb_start: "ch_run pay c i m [] t \<Longrightarrow> smb_run pay c i m t [] newTunConn"
| smb_around: "smb_run pay c i m t es tc \<Longrightarrow> around pay c i t u \<Longrightarrow> smb_run pay c i m u es tc"
| smb_pump: "smb_run pay c i m t es tc \<Longrightarrow> tc_rerr tc = None \<Longrightarrow> chanConn_Read i 65536 t = (u, Returns bs) \<Longrightarrow>
    smb_run pay c i m u (es @ [Pumped bs None]) (tc_pump bs None tc)"
| smb_pump_fails: "smb_run pay c i m t es tc \<Longrightarrow> tc_rerr tc = None \<Longrightarrow> chanConn_Read i 65536 t = (u, Fails e) \<Longrightarrow>
    smb_run pay c i m u (es @ [Pumped [] (Some msg)]) (tc_pump [] (Some msg) tc)"
| smb_read: "smb_run pay c i m t es tc \<Longrightarrow> tc_read now n tc = Some (tc', r) \<Longrightarrow> smb_run pay c i m t (es @ [ReadReturns r]) tc'"
| smb_deadline: "smb_run pay c i m t es tc \<Longrightarrow> smb_run pay c i m t (es @ [DeadlineSet d]) (SetReadDeadline d tc)"

lemma smb_run_parts:
  "smb_run pay c i m t es tc \<Longrightarrow> ch_run pay c i m (pumped_bytes es) t \<and> tc_run es tc \<and> (pump_error es \<noteq> None \<longrightarrow> tclosed t)"
proof (induction rule: smb_run.induct)
  case (smb_start t)
  then show ?case by (simp add: tc_run.start)
next
  case (smb_around t es tc u)
  then show ?case by (blast intro: ch_around around_closed)
next
  case (smb_pump t es tc u bs)
  have "tclosed u = tclosed t"
    using smb_pump.hyps(3) by (auto simp: chanConn_Read_def split: option.splits if_splits)
  moreover have "tc_run (es @ [Pumped bs None]) (tc_pump bs None tc)"
    using smb_pump by (blast intro: tc_run.more tc_step.pump)
  ultimately show ?case using smb_pump ch_read [of pay c i m "pumped_bytes es" t 65536 u bs] by (auto split: option.splits)
next
  case (smb_pump_fails t es tc u e msg)
  then obtain b where "chans t i = Some b" using ch_run_inv by (fastforce simp: ch_inv_def)
  then have "u = t \<and> tclosed t"
    using smb_pump_fails.hyps(3) by (auto simp: chanConn_Read_def split: if_splits)
  moreover have "tc_run (es @ [Pumped [] (Some msg)]) (tc_pump [] (Some msg) tc)"
    using smb_pump_fails by (blast intro: tc_run.more tc_step.pump)
  ultimately show ?case using smb_pump_fails by simp
next
  case (smb_read t es tc now n tc' r)
  then have "tc_run (es @ [ReadReturns r]) tc'" by (blast intro: tc_run.more tc_step.read)
  then show ?case using smb_read by (auto split: option.splits)
next
  case (smb_deadline t es tc d)
  then have "tc_run (es @ [DeadlineSet d]) (SetReadDeadline d tc)" by (blast intro: tc_run.more tc_step.set)
  then show ?case using smb_deadline by (auto split: option.splits)
qed

section \<open>Properties\<close>


text \<open>A channel to port 445, a frame with three bytes for it, and a client that reads two of them.\<close>

definition demo_opened :: Tunnel where
  "demo_opened = fst (OpenChannel_start 445 (pump_init 2 newTunnel))"

definition demo_fed :: Tunnel where
  "demo_fed = pump_consume 5 (inbound1 4 (rdt_pkt 2 0 [2, 2, 3, 0, 65, 66, 67]) demo_opened)"

lemma demo_opened_run: "ch_run (\<lambda>k. [2, 2, 3, 0, 65, 66, 67]) demo_cfg 2 0 [] demo_opened"
proof (rule ch_open)
  show "in_run (\<lambda>k. [2, 2, 3, 0, 65, 66, 67]) demo_cfg [] (pump_init 2 newTunnel)"
    by (rule in_start) (simp_all add: pump_init_def newTunnel_def)
  show "tun_inv (pump_init 2 newTunnel)" by (rule tun_inv_pump_init [OF fresh_newTunnel])
  show "OpenChannel_start 445 (pump_init 2 newTunnel) = (demo_opened, Inr 0)"
    by (simp add: demo_opened_def OpenChannel_start_def Let_def pump_init_def newTunnel_def)
qed (simp_all add: demo_opened_def OpenChannel_start_def Let_def pump_init_def newTunnel_def parsed_def)

lemma demo_fed_run: "smb_run (\<lambda>k. [2, 2, 3, 0, 65, 66, 67]) demo_cfg 2 0 demo_fed [] newTunConn"
proof -
  have "genuine (\<lambda>k. [2, 2, 3, 0, 65, 66, 67]) (rdt_pkt 2 0 [2, 2, 3, 0, 65, 66, 67])"
    by (simp add: genuine_def rdt_pkt_def)
  from smb_around [OF smb_around [OF smb_start [OF demo_opened_run] ar_frame [OF this]] ar_consume]
  show ?thesis by (simp add: demo_fed_def)
qed

lemma demo_fed_fields: "pumpStarted demo_fed" "pumpNext demo_fed = 1" "base (recv demo_fed) = 0"
proof -
  let ?t = "inbound1 4 (rdt_pkt 2 0 [2, 2, 3, 0, 65, 66, 67]) demo_opened" let ?s = "pump_start 5 ?t"
  have t: "recv ?t = fst (Add NewReassembler 0 [2, 2, 3, 0, 65, 66, 67])" "\<not> pumpStarted ?t"
    by (simp_all add: inbound1_def rdt_pkt_def demo_opened_def OpenChannel_start_def Let_def pump_init_def newTunnel_def
        initGoBackN_def)
  then have s: "frames (recv ?s) = [0 \<mapsto> [2, 2, 3, 0, 65, 66, 67]]" "base (recv ?s) = 0" "pumpNext ?s = 0" "pumpStarted ?s"
    by (simp_all add: pump_start_def Started_def Base_def Add_def NewReassembler_def Let_def)
  obtain r where r: "Take (recv ?s) 0 = (r, Some [2, 2, 3, 0, 65, 66, 67])"
    "drain (recv ?s) 0 [] = drain r 1 [2, 2, 3, 0, 65, 66, 67]"
    using drain_step [of "recv ?s" 0 "[2, 2, 3, 0, 65, 66, 67]" "[]"] s(1) by auto
  then have "Take r 1 = (r, None)" using Take_frames [of "recv ?s" 0] s(1) by (intro Take_missing) simp
  then have d: "drain (recv ?s) (pumpNext ?s) [] = (r, 1, [2, 2, 3, 0, 65, 66, 67])"
    using r(2) s(3) by (simp add: drain.simps [of r])
  show "pumpStarted demo_fed" "pumpNext demo_fed = 1" "base (recv demo_fed) = 0"
    using pump_drain_fields [OF d, of 5] s drain_keeps [OF d]
    by (simp_all add: demo_fed_def pump_consume_def Let_def pump_demux_eq)
qed


end
