(* ===== verification/Smb_Pair.thy ===== *)
theory Smb_Pair
  imports Tunnel_Pair Channel_Stream
begin

text \<open>
  The whole path of the commands' data: a peer that writes on a channel, its go-back-N sender and its pump, the
  network, the reassembler and the pump of the receiving tunnel, the channel that a command opened, the buffered \<open>tunConn\<close>
  on it, and the client that reads from that. \<open>smb_flow\<close> composes \<open>flow\<close> of \<open>Tunnel_Pair\<close> with \<open>smb_run\<close> of \<open>Channel_Stream\<close>.
\<close>

text \<open>
  The channel is opened at some point of a run of the pair. The peer has not used the channel's number before, and the
  receiver, if it has started, did so at the first frame.
\<close>

inductive smb_flow :: "tun_cfg \<Rightarrow> nat \<Rightarrow> byte \<Rightarrow> Tunnel \<Rightarrow> (byte \<times> bytes) list \<Rightarrow> Tunnel \<Rightarrow> tc_event list \<Rightarrow> tunConn \<Rightarrow> bool"
  for c b i where
  sf_open: "flow c b A ws B rd \<Longrightarrow> tun_inv B \<Longrightarrow> list_all good_write ws \<Longrightarrow> (pumpStarted B \<Longrightarrow> unat (base (recv B)) = b) \<Longrightarrow>
    OpenChannel_start port B = (B', Inr pv) \<Longrightarrow> lastIdx B' = i \<Longrightarrow> (\<And>w. w \<in> set ws \<Longrightarrow> fst w \<noteq> i) \<Longrightarrow>
    smb_flow c b i A ws B' [] newTunConn"
| sf_send: "smb_flow c b i A ws B es tc \<Longrightarrow> roomy A \<Longrightarrow> sender_step c A vs A' \<Longrightarrow> smb_flow c b i A' (ws @ vs) B es tc"
| sf_inbound: "smb_flow c b i A ws B es tc \<Longrightarrow> (n, p) \<in> set (wire A) \<or> rp_Type p \<noteq> 0x02 \<Longrightarrow>
    smb_flow c b i A ws (inbound1 now p B) es tc"
| sf_consume: "smb_flow c b i A ws B es tc \<Longrightarrow> smb_flow c b i A ws (pump_consume now B) es tc"
| sf_other: "smb_flow c b i A ws B es tc \<Longrightarrow> quiet_step c B B' \<Longrightarrow> chans B' i = chans B i \<Longrightarrow> smb_flow c b i A ws B' es tc"
| sf_ctrl_read: "smb_flow c b i A ws B es tc \<Longrightarrow> Read k B = (B', Returns bs) \<Longrightarrow> smb_flow c b i A ws B' es tc"
| sf_pump: "smb_flow c b i A ws B es tc \<Longrightarrow> tc_rerr tc = None \<Longrightarrow> chanConn_Read i 65536 B = (B', Returns bs) \<Longrightarrow>
    smb_flow c b i A ws B' (es @ [Pumped bs None]) (tc_pump bs None tc)"
| sf_pump_fails: "smb_flow c b i A ws B es tc \<Longrightarrow> tc_rerr tc = None \<Longrightarrow> chanConn_Read i 65536 B = (B', Fails e) \<Longrightarrow>
    smb_flow c b i A ws B' (es @ [Pumped [] (Some msg)]) (tc_pump [] (Some msg) tc)"
| sf_read: "smb_flow c b i A ws B es tc \<Longrightarrow> tc_read now k tc = Some (tc', r) \<Longrightarrow> smb_flow c b i A ws B (es @ [ReadReturns r]) tc'"
| sf_deadline: "smb_flow c b i A ws B es tc \<Longrightarrow> smb_flow c b i A ws B (es @ [DeadlineSet d]) (SetReadDeadline d tc)"

text \<open>\<open>m\<close> messages had been routed when the channel was opened; none of them is for it.\<close>

definition smb_inv :: "tun_cfg \<Rightarrow> nat \<Rightarrow> byte \<Rightarrow> bytes list \<Rightarrow> nat \<Rightarrow> Tunnel \<Rightarrow> (byte \<times> bytes) list \<Rightarrow> Tunnel \<Rightarrow> tc_event list \<Rightarrow>
    tunConn \<Rightarrow> bool" where
  "smb_inv c b i H m A ws B es tc \<longleftrightarrow> pair_inv b H A ws B \<and> m \<le> length ws \<and> (\<forall>w\<in>set (take m ws). fst w \<noteq> i) \<and>
     (\<forall>H'. prefix H H' \<longrightarrow> smb_run (hist_pay H' b) c i m B es tc)"

lemma smb_inv_open:
  assumes fl: "flow c b A ws B rd" "cfg_ok c" and "tun_inv B" "list_all good_write ws"
    and st: "pumpStarted B \<Longrightarrow> unat (base (recv B)) = b"
    and op: "OpenChannel_start port B = (B', Inr pv)" "lastIdx B' = i" and ws: "\<And>w. w \<in> set ws \<Longrightarrow> fst w \<noteq> i"
  shows "\<exists>H m. smb_inv c b i H m A ws B' [] newTunConn"
proof -
  obtain H where H: "pair_inv b H A ws B" "\<And>H'. prefix H H' \<Longrightarrow> in_run (hist_pay H' b) c rd B"
    using flow_has_inv [OF fl] by (auto simp: flow_inv_def)
  let ?m = "length (parsed (hist_pay H b) B)"
  have inv: "in_inv (hist_pay H' b) rd B" if "prefix H H'" for H' using H(2) [OF that] by (rule in_run_inv)
  have same: "parsed (hist_pay H' b) B = parsed (hist_pay H b) B" if "prefix H H'" for H'
    using consumed_take [OF H(1) inv [OF that] _ st that refl] consumed_take [OF H(1) inv _ st _ refl, of H]
    by (simp add: parsed_def)
  have "prefix (parsed (hist_pay H b) B) (map chunk_msg ws)"
    using routed_writes(1) [OF H(1) inv _ st assms(4)] by (simp add: parsed_def)
  then have "?m \<le> length ws" by (auto dest: prefix_length_le)
  moreover have "smb_run (hist_pay H' b) c i ?m B' [] newTunConn" if "prefix H H'" for H'
    by (rule smb_start, rule ch_open [OF H(2) [OF that] assms(3) op]) (simp add: same [OF that])
  moreover have "pair_inv b H A ws B'"
    using pair_same [OF H(1) quiet_in_same [OF qs_OpenChannel [of c B port]]] op(1) by simp
  moreover have "\<forall>w\<in>set (take ?m ws). fst w \<noteq> i" using ws by (auto dest: in_set_takeD)
  ultimately show ?thesis unfolding smb_inv_def by blast
qed

lemma smb_inv_in: "smb_inv c b i H m A ws B es tc \<Longrightarrow> \<exists>rd. in_inv (hist_pay H b) rd B"
  using smb_run_parts ch_run_inv unfolding smb_inv_def ch_inv_def by blast

lemma smb_inv_around:
  assumes "smb_inv c b i H m A ws B es tc" "pair_inv b H A ws B'" "\<And>H'. prefix H H' \<Longrightarrow> around (hist_pay H' b) c i B B'"
  shows "smb_inv c b i H m A ws B' es tc"
  using assms smb_around unfolding smb_inv_def by blast

lemma smb_inv_client:
  assumes "smb_inv c b i H m A ws B es tc" "in_same B B'"
    and "\<And>pay. smb_run pay c i m B es tc \<Longrightarrow> smb_run pay c i m B' es' tc'"
  shows "smb_inv c b i H m A ws B' es' tc'"
  using assms pair_same unfolding smb_inv_def by blast

lemma in_same_chan_read: "chanConn_Read i n B = (B', r) \<Longrightarrow> in_same B B'"
  using quiet_in_same [OF qs_chanConn_Read [of _ B i n]] by simp

lemma smb_flow_inv: "smb_flow c b i A ws B es tc \<Longrightarrow> cfg_ok c \<Longrightarrow> \<exists>H m. smb_inv c b i H m A ws B es tc"
proof (induction rule: smb_flow.induct)
  case (sf_open A ws B rd port B' pv)
  then show ?case by (intro smb_inv_open) auto
next
  case (sf_send A ws B es tc vs A')
  then obtain H m where H: "smb_inv c b i H m A ws B es tc" by blast
  then obtain ps where "pair_inv b (H @ ps) A' (ws @ vs) B" using pair_send sf_send unfolding smb_inv_def by blast
  then have "smb_inv c b i (H @ ps) m A' (ws @ vs) B es tc"
    using H append_prefixD [of H ps] by (auto simp: smb_inv_def)
  then show ?case by blast
next
  case (sf_inbound A ws B es tc n p now)
  then obtain H m where H: "smb_inv c b i H m A ws B es tc" by blast
  then have "pair_inv b H A ws B" by (simp add: smb_inv_def)
  note p = pair_inbound [OF this sf_inbound(2)]
  from smb_inv_around [OF H p(1) ar_frame [OF p(2)]] show ?case by blast
next
  case (sf_consume A ws B es tc now)
  then obtain H m where H: "smb_inv c b i H m A ws B es tc" by blast
  then have "pair_inv b H A ws (pump_consume now B)" using smb_inv_in [OF H] pair_consume by (auto simp: smb_inv_def)
  from smb_inv_around [OF H this ar_consume] show ?case by blast
next
  case (sf_other A ws B es tc B')
  then obtain H m where H: "smb_inv c b i H m A ws B es tc" by blast
  then have "pair_inv b H A ws B'" using pair_same quiet_in_same [OF sf_other(2)] by (auto simp: smb_inv_def)
  from smb_inv_around [OF H this ar_other [OF sf_other(2,3)]] show ?case by blast
next
  case (sf_ctrl_read A ws B es tc k B' bs)
  then obtain H m where H: "smb_inv c b i H m A ws B es tc" by blast
  then have "pair_inv b H A ws B'" using pair_Read sf_ctrl_read(2) by (auto simp: smb_inv_def)
  from smb_inv_around [OF H this ar_ctrl_read [OF sf_ctrl_read(2)]] show ?case by blast
next
  case (sf_pump A ws B es tc B' bs)
  then show ?case by (blast intro: smb_inv_client in_same_chan_read smb_pump)
next
  case (sf_pump_fails A ws B es tc B' e msg)
  then show ?case by (blast intro: smb_inv_client in_same_chan_read smb_pump_fails)
next
  case (sf_read A ws B es tc now k tc' r)
  have "in_same B B" by (simp add: in_same_def)
  with sf_read show ?case by (blast intro: smb_inv_client smb_read)
next
  case (sf_deadline A ws B es tc d)
  have "in_same B B" by (simp add: in_same_def)
  with sf_deadline show ?case by (blast intro: smb_inv_client smb_deadline)
qed

section \<open>Properties\<close>


text \<open>The peer writes two bytes on channel 2, in two frames; the second arrives before the first, and twice.\<close>

definition peer_written :: Tunnel where
  "peer_written = fst (writeChan False 2 [65, 66] (pump_init 2 newTunnel))"

definition peer_tx :: Tunnel where
  "peer_tx = pump_frame split_cfg 3 (pump_accum split_cfg peer_written)"

definition peer_rx :: Tunnel where
  "peer_rx = fold (inbound1 4) (map (\<lambda>j. snd (wire peer_tx ! j)) [1, 0, 1]) demo_opened"

lemma peer_sent:
  "map (\<lambda>q. (rp_Type (snd q), rp_Seq (snd q), rp_Payload (snd q))) (wire peer_tx) = [(2, 0, [2, 2, 2, 0]), (2, 1, [65, 66])]"
  "backlog peer_tx = []" "txSeq peer_tx = 2"
  by code_simp+

lemma peer_wire:
  "length (wire peer_tx) = 2"
  "rp_Type (snd (wire peer_tx ! 0)) = 2" "rp_Seq (snd (wire peer_tx ! 0)) = 0" "rp_Payload (snd (wire peer_tx ! 0)) = [2, 2, 2, 0]"
  "rp_Type (snd (wire peer_tx ! Suc 0)) = 2" "rp_Seq (snd (wire peer_tx ! Suc 0)) = 1"
  "rp_Payload (snd (wire peer_tx ! Suc 0)) = [65, 66]"
  using peer_sent(1) by (auto simp: map_eq_Cons_conv)

lemma demo_opened_fields: "recv demo_opened = NewReassembler" "\<not> pumpStarted demo_opened" "lastIdx demo_opened = 2"
    "OpenChannel_start 445 (pump_init 2 newTunnel) = (demo_opened, Inr 0)"
  by (simp_all add: demo_opened_def OpenChannel_start_def Let_def pump_init_def newTunnel_def initGoBackN_def)

lemma peer_rx_fields:
  "frames (recv peer_rx) = [1 \<mapsto> [65, 66], 0 \<mapsto> [2, 2, 2, 0]]" "base (recv peer_rx) = 0" "baseSet (recv peer_rx)" "\<not> pumpStarted peer_rx"
  by (simp_all add: peer_rx_def inbound1_def peer_wire demo_opened_fields Add_def NewReassembler_def Let_def)

lemma peer_flow: "smb_flow split_cfg 0 2 peer_tx [(2, [65, 66])] (pump_consume 5 peer_rx) [] newTunConn"
proof -
  let ?t = "pump_init 2 newTunnel"
  have inv: "tun_inv ?t" by (rule tun_inv_pump_init [OF fresh_newTunnel])
  have 0: "flow split_cfg 0 ?t [] ?t []"
    by (rule fl_start [OF inv])
      (simp_all add: pump_init_def newTunnel_def initGoBackN_def backlog_def queued_bytes_def idle_def)
  have "smb_flow split_cfg 0 2 ?t [] demo_opened [] newTunConn"
    by (rule sf_open [OF 0 inv _ _ demo_opened_fields(4,3)])
      (simp_all add: pump_init_def newTunnel_def)
  moreover have w: "writeChan False 2 [65, 66] ?t = (peer_written, Returns 2)"
    by (simp add: peer_written_def writeChan_def pump_init_def newTunnel_def initGoBackN_def)
  moreover have r: "roomy ?t" "roomy peer_written" "roomy (pump_accum split_cfg peer_written)"
    by (simp_all add: roomy_def peer_written_def writeChan_def pump_init_def newTunnel_def initGoBackN_def)
  ultimately have "smb_flow split_cfg 0 2 peer_written [(2, [65, 66])] demo_opened [] newTunConn"
    using sf_send [OF _ r(1) sd_write [OF w]] by fastforce
  from sf_send [OF sf_send [OF this r(2) sd_accum] r(3) sd_frame [of _ _ 3]]
  have tx: "smb_flow split_cfg 0 2 peer_tx [(2, [65, 66])] demo_opened [] newTunConn" by (simp add: peer_tx_def)
  have p: "(fst (wire peer_tx ! j), snd (wire peer_tx ! j)) \<in> set (wire peer_tx)" if "j < 2" for j
    using that peer_wire(1) by simp
  show ?thesis
    using sf_consume [OF sf_inbound [OF sf_inbound [OF sf_inbound [OF tx disjI1 [OF p [of 1]]] disjI1 [OF p [of 0]]]
      disjI1 [OF p [of 1]]], of 5 4 4 4]
    by (simp add: peer_rx_def)
qed


end
