(* ===== verification/Mirror_Files.thy ===== *)
theory Mirror_Files
  imports Download_Facts
begin

text \<open>
  The mirror loop of \<open>cmd/download/main.go\<close> with the files it writes. \<open>Download\<close> follows only the sizes of the local files and
  whether a fetch succeeds; here the local file system is part of the state and every fetch is a call of \<open>fetchFile\<close>
  bounded by \<open>fetchWithTimeout\<close>. The loop over sizes is the abstract one: every run over files has a run over sizes that it
  implements (\<open>mirrors\<close>), which gives termination, while the contents are followed directly (\<open>kept_or_exact\<close>).
\<close>

section \<open>One file\<close>

text \<open>What the world does to one fetch. \<open>fw_left\<close> is the \<open>.part\<close> file at the moment a call that does not return is abandoned.\<close>

record fetch_world =
  fw_opened :: bool
  fw_start :: int
  fw_ticks :: "(int \<times> nat) list"
  fw_reads :: "range_read list"
  fw_renames :: bool
  fw_took :: "int option"
  fw_left :: "bytes option"

definition local_path :: "string \<Rightarrow> string \<Rightarrow> string" where
  "local_path outBase child = outBase @ ''/'' @ child"

definition fetch_local ::
  "int \<Rightarrow> string \<Rightarrow> string \<Rightarrow> nat \<Rightarrow> nat \<Rightarrow> fetch_world \<Rightarrow> local_fs \<Rightarrow> local_fs \<times> (fetch_err + nat)" where
  "fetch_local bps outBase child sz fsize w fs =
     (let dest = local_path outBase child;
          hard = file_hardCap bps sz;
          (fs', r) = fetchFile \<lparr>deadStart = 25 * second, stallGap = 90 * second, hardCap = hard\<rparr> dest
            (fw_opened w) fsize (fw_start w) (fw_ticks w) (fw_reads w) (fw_renames w) fs
      in case fetchWithTimeout hard (fw_took w) r of
           Inl Wedged \<Rightarrow> (fs(part_path dest := fw_left w), Inl Wedged)
         | r \<Rightarrow> (fs', r))"

record file_mirror =
  fm_fs :: local_fs
  fm_fails :: "string \<Rightarrow> nat"
  fm_got :: nat
  fm_pass :: "fileEnt list"

text \<open>What a session meets: the tree it lists, the size of a file when it is opened, and the world of its fetch.\<close>

type_synonym file_session = "listing \<times> (string \<Rightarrow> nat) \<times> (string \<Rightarrow> fetch_world)"

record download =
  dn_bps :: int
  dn_outBase :: string
  dn_scope :: scope

definition file_step ::
  "download \<Rightarrow> (string \<Rightarrow> nat) \<Rightarrow> (string \<Rightarrow> fetch_world) \<Rightarrow> string \<Rightarrow> nat \<Rightarrow> file_mirror \<Rightarrow> file_mirror \<times> bool" where
  "file_step d st fw child sz m =
     (let m = m\<lparr>fm_pass := fm_pass m @ [\<lparr>fe_rel = child, fe_size = sz\<rparr>]\<rparr>
      in if map_option length (fm_fs m (local_path (dn_outBase d) child)) = Some sz then (m, True)
         else if fm_fails m child \<ge> maxFails then (m, True)
         else case fetch_local (dn_bps d) (dn_outBase d) child sz (st child) (fw child) (fm_fs m) of
                (fs, Inl e) \<Rightarrow> (m\<lparr>fm_fs := fs, fm_fails := (fm_fails m)(child := fm_fails m child + 1)\<rparr>, False)
              | (fs, Inr n) \<Rightarrow> (m\<lparr>fm_fs := fs, fm_got := fm_got m + 1\<rparr>, True))"

section \<open>The walk and the loop\<close>

fun file_walk :: "download \<Rightarrow> (string \<Rightarrow> nat) \<Rightarrow> (string \<Rightarrow> fetch_world) \<Rightarrow> string \<Rightarrow> listing \<Rightarrow> file_mirror \<Rightarrow> file_mirror \<times> bool"
  and file_entries :: "download \<Rightarrow> (string \<Rightarrow> nat) \<Rightarrow> (string \<Rightarrow> fetch_world) \<Rightarrow> string \<Rightarrow> dev_entry list \<Rightarrow> file_mirror \<Rightarrow> file_mirror \<times> bool" where
  "file_walk d st fw rel ReadErr m = (m, False)"
| "file_walk d st fw rel (Entries es) m = file_entries d st fw rel es m"
| "file_entries d st fw rel [] m = (m, True)"
| "file_entries d st fw rel (DDir n l # es) m =
     (if dot_name n \<or> \<not> inScope (dn_scope d) (child_rel rel n) then file_entries d st fw rel es m
      else case file_walk d st fw (child_rel rel n) l m of
             (m, False) \<Rightarrow> (m, False)
           | (m, True) \<Rightarrow> file_entries d st fw rel es m)"
| "file_entries d st fw rel (DFile n sz # es) m =
     (if dot_name n \<or> \<not> inScope (dn_scope d) (child_rel rel n) \<or> \<not> wantFile (dn_scope d) n then file_entries d st fw rel es m
      else case file_step d st fw (child_rel rel n) sz m of
             (m, False) \<Rightarrow> (m, False)
           | (m, True) \<Rightarrow> file_entries d st fw rel es m)"

record file_main =
  fi_mirror :: file_mirror
  fi_consecFail :: nat
  fi_rests :: "int list"
  fi_manifest :: "fileEnt list option"

definition file_turn :: "download \<Rightarrow> file_session option \<Rightarrow> file_main \<Rightarrow> file_main \<times> bool" where
  "file_turn d w s =
     (case w of
        None \<Rightarrow>
          let cf = fi_consecFail s + 1
          in (s\<lparr>fi_consecFail := cf, fi_rests := fi_rests s @ [rest_time cf]\<rparr>, False)
      | Some (l, st, fw) \<Rightarrow>
          let (m, complete) = file_walk d st fw [] l ((fi_mirror s)\<lparr>fm_got := 0, fm_pass := []\<rparr>);
              s = s\<lparr>fi_mirror := m\<rparr>
          in if complete then (s\<lparr>fi_manifest := Some (fm_pass m), fi_consecFail := 0\<rparr>, fm_got m = 0)
             else ((if fm_got m > 0 then s\<lparr>fi_consecFail := 0\<rparr> else s)\<lparr>fi_rests := fi_rests s @ [4 * second]\<rparr>, False))"

fun file_loop :: "download \<Rightarrow> file_session option list \<Rightarrow> file_main \<Rightarrow> file_main \<times> bool" where
  "file_loop d [] s = (s, False)"
| "file_loop d (w # ws) s =
     (case file_turn d w s of
        (s, True) \<Rightarrow> (s, True)
      | (s, False) \<Rightarrow> file_loop d ws s)"

section \<open>A pass visits the files in order\<close>

fun file_all :: "download \<Rightarrow> (string \<Rightarrow> nat) \<Rightarrow> (string \<Rightarrow> fetch_world) \<Rightarrow> fileEnt list \<Rightarrow> file_mirror \<Rightarrow> file_mirror \<times> bool" where
  "file_all d st fw [] m = (m, True)"
| "file_all d st fw (f # fs) m =
     (case file_step d st fw (fe_rel f) (fe_size f) m of
        (m, False) \<Rightarrow> (m, False)
      | (m, True) \<Rightarrow> file_all d st fw fs m)"

lemma file_all_append:
  "file_all d st fw (fs @ gs) m = (case file_all d st fw fs m of (m, False) \<Rightarrow> (m, False) | (m, True) \<Rightarrow> file_all d st fw gs m)"
  by (induction fs arbitrary: m) (auto split: prod.splits bool.splits)

lemma file_seen:
  "file_walk d st fw rel l m =
     (case file_all d st fw (fst (seen (dn_scope d) rel l)) m of (m, b) \<Rightarrow> (m, b \<and> snd (seen (dn_scope d) rel l)))"
  "file_entries d st fw rel es m =
     (case file_all d st fw (fst (seen_entries (dn_scope d) rel es)) m of (m, b) \<Rightarrow> (m, b \<and> snd (seen_entries (dn_scope d) rel es)))"
  by (induction d st fw rel l m and d st fw rel es m rule: file_walk_file_entries.induct)
    (auto simp: file_all_append split: sum.splits prod.splits bool.splits)

section \<open>What a fetch does\<close>

definition honest_world :: "bytes \<Rightarrow> fetch_world \<Rightarrow> bool" where
  "honest_world remote w \<longleftrightarrow> list_all (honest_read remote) (fw_reads w) \<and> distinct (map rr_off (fw_reads w))"

lemma local_path_inj [simp]: "local_path b x = local_path b y \<longleftrightarrow> x = y"
  by (simp add: local_path_def)

lemma part_local [simp]: "part_path (local_path b x) = local_path b (x @ ''.part'')"
  by (simp add: part_path_def local_path_def)

lemma fetch_local_exact:
  assumes "honest_world remote w" "fetch_local bps outBase child sz (length remote) w fs = (fs', r)"
  shows "case r of Inr n \<Rightarrow> n = length remote \<and>
        fs' = fs(local_path outBase child \<mapsto> remote, local_path outBase (child @ ''.part'') := None)
    | Inl e \<Rightarrow> (\<forall>q. q \<noteq> local_path outBase (child @ ''.part'') \<longrightarrow> fs' q = fs q)"
proof -
  let ?dest = "local_path outBase child" and ?hard = "file_hardCap bps sz"
  obtain gs g where f: "fetchFile \<lparr>deadStart = 25 * second, stallGap = 90 * second, hardCap = ?hard\<rparr> ?dest (fw_opened w)
      (length remote) (fw_start w) (fw_ticks w) (fw_reads w) (fw_renames w) fs = (gs, g)" by fastforce
  have e: "case g of Inr n \<Rightarrow> n = length remote \<and> gs = fs(?dest \<mapsto> remote, part_path ?dest := None)
      | Inl e \<Rightarrow> (\<forall>q. q \<noteq> part_path ?dest \<longrightarrow> gs q = fs q)"
    using fetch_commits_exact [of remote "fw_reads w", where lm = "\<lparr>deadStart = 25 * second, stallGap = 90 * second, hardCap = ?hard\<rparr>"
        and dest = ?dest and opened = "fw_opened w" and start = "fw_start w" and ticks = "fw_ticks w" and renames = "fw_renames w"
        and fs = fs] assms(1) f
    by (auto simp: honest_world_def split: sum.splits)
  have "r = Inl Wedged \<and> fs' = fs(part_path ?dest := fw_left w) \<or> r = g \<and> fs' = gs"
    using assms(2) unfolding fetch_local_def Let_def f
    by (auto simp: fetchWithTimeout_def split: option.splits if_splits sum.splits fetch_err.splits)
  then show ?thesis using e by (auto split: sum.splits)
qed

section \<open>Refinement\<close>

text \<open>The state over files, seen as the state over sizes, on the files \<open>F\<close> of the device.\<close>

definition mirrors :: "download \<Rightarrow> fileEnt list \<Rightarrow> mirror \<Rightarrow> file_mirror \<Rightarrow> bool" where
  "mirrors d F m c \<longleftrightarrow> mi_fails m = fm_fails c \<and> mi_got m = fm_got c \<and> mi_pass m = fm_pass c \<and>
     (\<forall>f\<in>set F. mi_local m (fe_rel f) = map_option length (fm_fs c (local_path (dn_outBase d) (fe_rel f))))"

text \<open>No file of the device has the name of another one's \<open>.part\<close> file.\<close>

definition no_part :: "fileEnt list \<Rightarrow> bool" where
  "no_part F \<longleftrightarrow> (\<forall>f\<in>set F. \<forall>g\<in>set F. fe_rel g \<noteq> fe_rel f @ ''.part'')"

definition serves :: "fileEnt list \<Rightarrow> (string \<Rightarrow> bytes) \<Rightarrow> (string \<Rightarrow> nat) \<Rightarrow> (string \<Rightarrow> fetch_world) \<Rightarrow> bool" where
  "serves F dev st fw \<longleftrightarrow> (\<forall>f\<in>set F. fe_size f = length (dev (fe_rel f)) \<and> st (fe_rel f) = length (dev (fe_rel f)) \<and>
     honest_world (dev (fe_rel f)) (fw (fe_rel f)))"

lemma file_step_eq:
  "file_step d st fw (fe_rel f) (fe_size f) c =
     (if map_option length (fm_fs c (local_path (dn_outBase d) (fe_rel f))) = Some (fe_size f) \<or> maxFails \<le> fm_fails c (fe_rel f)
      then (c\<lparr>fm_pass := fm_pass c @ [f]\<rparr>, True)
      else case fetch_local (dn_bps d) (dn_outBase d) (fe_rel f) (fe_size f) (st (fe_rel f)) (fw (fe_rel f)) (fm_fs c) of
             (fs, Inl e) \<Rightarrow> (c\<lparr>fm_pass := fm_pass c @ [f], fm_fs := fs,
                fm_fails := (fm_fails c)(fe_rel f := fm_fails c (fe_rel f) + 1)\<rparr>, False)
           | (fs, Inr n) \<Rightarrow> (c\<lparr>fm_pass := fm_pass c @ [f], fm_fs := fs, fm_got := fm_got c + 1\<rparr>, True))"
  by (simp add: file_step_def Let_def del: map_option_eq_Some split: prod.split sum.split)

lemma file_step_cases:
  assumes "file_step d st fw (fe_rel f) (fe_size f) c = (c', b)" "f \<in> set F" "serves F dev st fw"
  defines "p \<equiv> local_path (dn_outBase d) (fe_rel f)" and "q \<equiv> local_path (dn_outBase d) (fe_rel f @ ''.part'')"
  obtains (skip) "map_option length (fm_fs c p) = Some (fe_size f) \<or> maxFails \<le> fm_fails c (fe_rel f)" "b"
      "c' = c\<lparr>fm_pass := fm_pass c @ [f]\<rparr>"
  | (got) "map_option length (fm_fs c p) \<noteq> Some (fe_size f)" "\<not> maxFails \<le> fm_fails c (fe_rel f)" "b"
      "c' = c\<lparr>fm_pass := fm_pass c @ [f], fm_fs := (fm_fs c)(p \<mapsto> dev (fe_rel f), q := None), fm_got := fm_got c + 1\<rparr>"
  | (failed) fs where "map_option length (fm_fs c p) \<noteq> Some (fe_size f)" "\<not> maxFails \<le> fm_fails c (fe_rel f)" "\<not> b"
      "\<forall>x. x \<noteq> q \<longrightarrow> fs x = fm_fs c x"
      "c' = c\<lparr>fm_pass := fm_pass c @ [f], fm_fs := fs, fm_fails := (fm_fails c)(fe_rel f := fm_fails c (fe_rel f) + 1)\<rparr>"
proof (cases "map_option length (fm_fs c p) = Some (fe_size f) \<or> maxFails \<le> fm_fails c (fe_rel f)")
  case True
  then show thesis using assms(1) skip by (simp add: file_step_eq p_def del: map_option_eq_Some)
next
  case False
  have h: "honest_world (dev (fe_rel f)) (fw (fe_rel f))" "st (fe_rel f) = length (dev (fe_rel f))"
    using assms(2,3) by (simp_all add: serves_def)
  obtain fs r where r: "fetch_local (dn_bps d) (dn_outBase d) (fe_rel f) (fe_size f) (length (dev (fe_rel f))) (fw (fe_rel f)) (fm_fs c) = (fs, r)"
    by fastforce
  note e = fetch_local_exact [OF h(1) r]
  show thesis
  proof (cases r)
    case (Inl x)
    then show thesis using assms(1) False r e h(2) failed [of fs] by (simp add: file_step_eq p_def q_def del: map_option_eq_Some)
  next
    case (Inr n)
    then show thesis using assms(1) False r e h(2) got by (simp add: file_step_eq p_def q_def del: map_option_eq_Some)
  qed
qed

lemma step_mirrors:
  assumes R: "mirrors d F m c" and e: "file_step d st fw (fe_rel f) (fe_size f) c = (c', b)" and f: "f \<in> set F"
    and sv: "serves F dev st fw" and np: "no_part F" and ms: "mi_stat m = st"
  shows "\<exists>oks m'. mirrors d F m' c' \<and> mi_stat m' = st \<and>
    (\<forall>rest. stream_file (fe_rel f) (fe_size f) (m\<lparr>mi_fetches := oks @ rest\<rparr>) = (m'\<lparr>mi_fetches := rest\<rparr>, b))"
proof -
  have l: "mi_local m (fe_rel f) = map_option length (fm_fs c (local_path (dn_outBase d) (fe_rel f)))"
    and k: "mi_fails m = fm_fails c" using R f by (simp_all add: mirrors_def)
  have st: "st (fe_rel f) = length (dev (fe_rel f))" using sv f by (simp add: serves_def)
  have other: "fe_rel g \<noteq> fe_rel f @ ''.part''" if "g \<in> set F" for g using np f that by (auto simp: no_part_def)
  from e f sv show ?thesis
  proof (cases rule: file_step_cases)
    case skip
    then show ?thesis
      using R l k ms by (intro exI [of _ "[]"] exI [of _ "m\<lparr>mi_pass := mi_pass m @ [f]\<rparr>"]) (auto simp: stream_file_def Let_def mirrors_def)
  next
    case got
    let ?m = "m\<lparr>mi_pass := mi_pass m @ [f], mi_local := (mi_local m)(fe_rel f \<mapsto> st (fe_rel f)), mi_got := mi_got m + 1\<rparr>"
    show ?thesis
      using R l k ms st other got
      by (intro exI [of _ "[True]"] exI [of _ ?m]) (auto simp: stream_file_def next_fetch_def Let_def mirrors_def)
  next
    case (failed fs)
    let ?m = "m\<lparr>mi_pass := mi_pass m @ [f], mi_fails := (mi_fails m)(fe_rel f := mi_fails m (fe_rel f) + 1)\<rparr>"
    show ?thesis
      using R l k ms other failed
      by (intro exI [of _ "[False]"] exI [of _ ?m]) (auto simp: stream_file_def next_fetch_def Let_def mirrors_def)
  qed
qed

lemma all_mirrors:
  assumes "mirrors d F m c" "file_all d st fw fs c = (c', b)" "set fs \<subseteq> set F" "serves F dev st fw" "no_part F" "mi_stat m = st"
  shows "\<exists>oks m'. mirrors d F m' c' \<and> mi_stat m' = st \<and>
    (\<forall>rest. stream_all fs (m\<lparr>mi_fetches := oks @ rest\<rparr>) = (m'\<lparr>mi_fetches := rest\<rparr>, b))"
  using assms
proof (induction fs arbitrary: m c)
  case Nil
  then show ?case by (intro exI [of _ "[]"] exI [of _ m]) simp
next
  case (Cons f fs)
  obtain c1 b1 where e: "file_step d st fw (fe_rel f) (fe_size f) c = (c1, b1)" by fastforce
  obtain oks1 m1 where s1: "mirrors d F m1 c1" "mi_stat m1 = st"
    "\<And>rest. stream_file (fe_rel f) (fe_size f) (m\<lparr>mi_fetches := oks1 @ rest\<rparr>) = (m1\<lparr>mi_fetches := rest\<rparr>, b1)"
    using step_mirrors [OF Cons.prems(1) e _ Cons.prems(4,5,6)] Cons.prems(3) by auto
  show ?case
  proof (cases b1)
    case True
    then have "file_all d st fw fs c1 = (c', b)" using Cons.prems(2) e by simp
    then obtain oks2 m2 where s2: "mirrors d F m2 c'" "mi_stat m2 = st"
      "\<And>rest. stream_all fs (m1\<lparr>mi_fetches := oks2 @ rest\<rparr>) = (m2\<lparr>mi_fetches := rest\<rparr>, b)"
      using Cons.IH [OF s1(1) _ _ Cons.prems(4,5) s1(2)] Cons.prems(3) by auto
    show ?thesis
      using s1(3) s2 True by (intro exI [of _ "oks1 @ oks2"] exI [of _ m2]) simp
  next
    case False
    then show ?thesis
      using Cons.prems(2) e s1 by (intro exI [of _ oks1] exI [of _ m1]) simp
  qed
qed

text \<open>The whole loop.\<close>

definition main_mirrors :: "download \<Rightarrow> fileEnt list \<Rightarrow> main_state \<Rightarrow> file_main \<Rightarrow> bool" where
  "main_mirrors d F s S \<longleftrightarrow> mirrors d F (ma_mirror s) (fi_mirror S) \<and> ma_consecFail s = fi_consecFail S \<and>
     ma_rests s = fi_rests S \<and> ma_manifest s = fi_manifest S"

definition session_ok :: "download \<Rightarrow> fileEnt list \<Rightarrow> (string \<Rightarrow> bytes) \<Rightarrow> file_session option \<Rightarrow> bool" where
  "session_ok d F dev w = (case w of None \<Rightarrow> True | Some (l, st, fw) \<Rightarrow>
     set (fst (seen (dn_scope d) [] l)) \<subseteq> set F \<and> (snd (seen (dn_scope d) [] l) \<longrightarrow> fst (seen (dn_scope d) [] l) = F) \<and>
     serves F dev st fw)"

definition full_session :: "download \<Rightarrow> file_session option \<Rightarrow> bool" where
  "full_session d w = (case w of None \<Rightarrow> False | Some (l, _, _) \<Rightarrow> snd (seen (dn_scope d) [] l))"

lemma turn_mirrors:
  assumes R: "main_mirrors d F s S" and e: "file_turn d w S = (S', b)" and ok: "session_ok d F dev w" and np: "no_part F"
  shows "\<exists>v s'. mirror_turn (dn_scope d) v s = (s', b) \<and> main_mirrors d F s' S' \<and>
    session_of (dn_scope d) F v \<and> full_listing (dn_scope d) v = full_session d w"
proof (cases w)
  case None
  then show ?thesis
    using R e by (intro exI [of _ None]) (auto simp: file_turn_def mirror_turn_def main_mirrors_def session_of_def
        full_listing_def full_session_def Let_def)
next
  case (Some x)
  obtain l st fw where x: "x = (l, st, fw)" by (rule prod_cases3)
  let ?F = "seen (dn_scope d) [] l" and ?m = "(ma_mirror s)\<lparr>mi_got := 0, mi_pass := [], mi_stat := st\<rparr>"
    and ?c = "(fi_mirror S)\<lparr>fm_got := 0, fm_pass := []\<rparr>"
  have sub: "set (fst ?F) \<subseteq> set F" and sv: "serves F dev st fw" using ok by (simp_all add: session_ok_def Some x)
  have "mirrors d F ?m ?c" using R by (simp add: main_mirrors_def mirrors_def)
  obtain c1 b1 where a: "file_all d st fw (fst ?F) ?c = (c1, b1)" by fastforce
  obtain oks m1 where m: "mirrors d F m1 c1"
    "\<And>rest. stream_all (fst ?F) (?m\<lparr>mi_fetches := oks @ rest\<rparr>) = (m1\<lparr>mi_fetches := rest\<rparr>, b1)"
    using all_mirrors [OF \<open>mirrors d F ?m ?c\<close> a sub sv np] by auto
  let ?v = "Some (l, st, oks)"
  have "session_of (dn_scope d) F ?v" "full_listing (dn_scope d) ?v = full_session d w"
    using ok by (auto simp: session_of_def session_ok_def full_listing_def full_session_def serves_def Some x)
  moreover have "streamWalk (dn_scope d) [] l (?m\<lparr>mi_fetches := oks\<rparr>) = (m1\<lparr>mi_fetches := []\<rparr>, b1 \<and> snd ?F)"
    using m(2) [of "[]"] by (simp add: stream_seen)
  moreover have "file_walk d st fw [] l ?c = (c1, b1 \<and> snd ?F)" by (simp add: file_seen a)
  ultimately show ?thesis
    using R e m(1)
    by (intro exI [of _ ?v]) (auto simp: mirror_turn_def file_turn_def Some x Let_def main_mirrors_def mirrors_def split: if_splits)
qed

lemma loop_mirrors:
  assumes "main_mirrors d F s S" "\<forall>w\<in>set ws. session_ok d F dev w" "no_part F" "file_loop d ws S = (S', b)"
  shows "\<exists>vs s'. mirror_loop (dn_scope d) vs s = (s', b) \<and> main_mirrors d F s' S' \<and> (\<forall>v\<in>set vs. session_of (dn_scope d) F v) \<and>
    (b \<or> length (filter (full_listing (dn_scope d)) vs) = length (filter (full_session d) ws))"
  using assms
proof (induction ws arbitrary: s S)
  case Nil
  then show ?case by (intro exI [of _ "[]"]) simp
next
  case (Cons w ws)
  obtain S1 b1 where e: "file_turn d w S = (S1, b1)" by fastforce
  obtain v s1 where v: "mirror_turn (dn_scope d) v s = (s1, b1)" "main_mirrors d F s1 S1" "session_of (dn_scope d) F v"
    "full_listing (dn_scope d) v = full_session d w"
    using turn_mirrors [OF Cons.prems(1) e _ Cons.prems(3), of dev] Cons.prems(2) by auto
  show ?case
  proof (cases b1)
    case True
    then show ?thesis using Cons.prems(4) e v by (intro exI [of _ "[v]"]) simp
  next
    case False
    then have "file_loop d ws S1 = (S', b)" using Cons.prems(4) e by simp
    then obtain vs s' where "mirror_loop (dn_scope d) vs s1 = (s', b)" "main_mirrors d F s' S'"
      "\<forall>v\<in>set vs. session_of (dn_scope d) F v"
      "b \<or> length (filter (full_listing (dn_scope d)) vs) = length (filter (full_session d) ws)"
      using Cons.IH [OF v(2) _ Cons.prems(3)] Cons.prems(2) by auto
    then show ?thesis using False v by (intro exI [of _ "v # vs"]) auto
  qed
qed

lemma mirror_loop_mirrored:
  assumes "distinct (map fe_rel F)" "\<forall>v\<in>set vs. session_of sc F v" "mirror_loop sc vs s = (s', True)"
  shows "mirrored F s'"
  using assms(2,3)
proof (induction vs arbitrary: s)
  case (Cons v vs)
  obtain s1 b where e: "mirror_turn sc v s = (s1, b)" by fastforce
  then show ?case using Cons mirror_turn_progress [OF e _ assms(1)] by (cases b) auto
qed simp

section \<open>Contents\<close>

text \<open>Every file of the device is as it was at the start or has the device's bytes; nothing else but \<open>.part\<close> files is touched.\<close>

definition kept_or_exact :: "download \<Rightarrow> fileEnt list \<Rightarrow> (string \<Rightarrow> bytes) \<Rightarrow> local_fs \<Rightarrow> local_fs \<Rightarrow> bool" where
  "kept_or_exact d F dev fs0 fs \<longleftrightarrow>
     (\<forall>f\<in>set F. fs (local_path (dn_outBase d) (fe_rel f)) = fs0 (local_path (dn_outBase d) (fe_rel f)) \<or>
        fs (local_path (dn_outBase d) (fe_rel f)) = Some (dev (fe_rel f))) \<and>
     (\<forall>x. (\<forall>f\<in>set F. x \<noteq> local_path (dn_outBase d) (fe_rel f) \<and> x \<noteq> local_path (dn_outBase d) (fe_rel f @ ''.part'')) \<longrightarrow> fs x = fs0 x)"

lemma kept_step:
  assumes "kept_or_exact d F dev fs0 (fm_fs c)" "file_step d st fw (fe_rel f) (fe_size f) c = (c', b)" "f \<in> set F"
    "serves F dev st fw" "no_part F"
  shows "kept_or_exact d F dev fs0 (fm_fs c')"
proof -
  have other: "fe_rel g \<noteq> fe_rel f @ ''.part''" if "g \<in> set F" for g using assms(3,5) that by (auto simp: no_part_def)
  from assms(2,3,4) show ?thesis
  proof (cases rule: file_step_cases)
    case skip
    then show ?thesis using assms(1) by simp
  next
    case got
    then show ?thesis using assms(1,3) other by (simp add: kept_or_exact_def)
  next
    case (failed fs)
    then show ?thesis using assms(1,3) other by (simp add: kept_or_exact_def)
  qed
qed

lemma kept_all:
  "kept_or_exact d F dev fs0 (fm_fs c) \<Longrightarrow> file_all d st fw fs c = (c', b) \<Longrightarrow> set fs \<subseteq> set F \<Longrightarrow> serves F dev st fw \<Longrightarrow>
   no_part F \<Longrightarrow> kept_or_exact d F dev fs0 (fm_fs c')"
proof (induction fs arbitrary: c)
  case (Cons f fs)
  obtain c1 b1 where e: "file_step d st fw (fe_rel f) (fe_size f) c = (c1, b1)" by fastforce
  have "kept_or_exact d F dev fs0 (fm_fs c1)" using kept_step [OF Cons.prems(1) e _ Cons.prems(4,5)] Cons.prems(3) by simp
  then show ?case using Cons.IH [of c1] Cons.prems e by (cases b1) auto
qed simp

lemma kept_turn:
  assumes "kept_or_exact d F dev fs0 (fm_fs (fi_mirror S))" "file_turn d w S = (S', b)" "session_ok d F dev w" "no_part F"
  shows "kept_or_exact d F dev fs0 (fm_fs (fi_mirror S'))"
proof (cases w)
  case None
  then show ?thesis using assms by (auto simp: file_turn_def Let_def)
next
  case (Some x)
  obtain l st fw where x: "x = (l, st, fw)" by (rule prod_cases3)
  obtain c1 b1 where a: "file_all d st fw (fst (seen (dn_scope d) [] l)) ((fi_mirror S)\<lparr>fm_got := 0, fm_pass := []\<rparr>) = (c1, b1)"
    by fastforce
  have "kept_or_exact d F dev fs0 (fm_fs c1)"
    using kept_all [OF _ a] assms(1,3,4) by (simp add: session_ok_def Some x)
  moreover have "fi_mirror S' = c1"
    using assms(2) by (auto simp: file_turn_def Some x file_seen a Let_def split: if_splits)
  ultimately show ?thesis by simp
qed

lemma kept_loop:
  "kept_or_exact d F dev fs0 (fm_fs (fi_mirror S)) \<Longrightarrow> file_loop d ws S = (S', b) \<Longrightarrow> \<forall>w\<in>set ws. session_ok d F dev w \<Longrightarrow>
   no_part F \<Longrightarrow> kept_or_exact d F dev fs0 (fm_fs (fi_mirror S'))"
proof (induction ws arbitrary: S)
  case (Cons w ws)
  obtain S1 b1 where e: "file_turn d w S = (S1, b1)" by fastforce
  have "kept_or_exact d F dev fs0 (fm_fs (fi_mirror S1))" using kept_turn [OF Cons.prems(1) e _ Cons.prems(4)] Cons.prems(3) by simp
  then show ?case using Cons.IH [of S1] Cons.prems e by (cases b1) auto
qed simp

section \<open>Properties\<close>



end
