(* ===== verification/Upload_Files.thy ===== *)
theory Upload_Files
  imports Upload_Main
begin

text \<open>
  The upload command of \<open>cmd/upload/main.go\<close> with the files it reads and writes. In \<open>Upload_Main\<close> the write of one file is a
  parameter; here it is \<open>writeOneFile\<close> on the bytes of the local disk, and its result is stored in the share. What comes
  out is that status 0 means a true copy of every file.

  \<^item> The share is a parameter: \<open>files\<close> looks up the files of its state and \<open>store\<close> puts one there; \<open>share_keeps\<close> is what is used of it.
  \<^item> \<open>put_world\<close> is what the calls of one \<open>writeOneFile\<close> return: the sizes of the reads, the writes of the pool, the close, the \<open>Stat\<close>
    afterwards and the creation of the remote file.
\<close>

record put_world =
  pw_sched :: "nat \<Rightarrow> nat option"
  pw_pool :: "job list \<Rightarrow> write_res list"
  pw_closes :: bool
  pw_stat :: "bytes \<Rightarrow> nat option"
  pw_creates :: bool

definition put_file ::
  "(string \<Rightarrow> bytes option) \<Rightarrow> (string \<Rightarrow> put_world) \<Rightarrow> (string \<Rightarrow> bytes \<Rightarrow> 's \<Rightarrow> 's) \<Rightarrow> int \<Rightarrow> string \<Rightarrow> item \<Rightarrow> 's \<Rightarrow>
     ('s \<times> nat \<times> upload_err option) option" where
  "put_file disk pw store chunk p it s =
     (case writeOneFile (nat chunk) (pw_sched (pw p)) (pw_pool (pw p)) (pw_closes (pw p)) (pw_stat (pw p)) (disk (it_local it))
             (pw_creates (pw p)) (it_size it) of
        None \<Rightarrow> None
      | Some (None, n, e) \<Rightarrow> Some (s, n, e)
      | Some (Some f, n, e) \<Rightarrow> Some (store p f s, n, e))"

definition share_keeps ::
  "('s \<Rightarrow> string \<Rightarrow> 's \<times> bool) \<Rightarrow> ('s \<Rightarrow> string \<rightharpoonup> bytes) \<Rightarrow> (string \<Rightarrow> bytes \<Rightarrow> 's \<Rightarrow> 's) \<Rightarrow> bool" where
  "share_keeps Mkdir files store \<longleftrightarrow> (\<forall>s d. files (fst (Mkdir s d)) = files s) \<and> (\<forall>p f s. files (store p f s) = (files s)(p \<mapsto> f))"

definition honest_put :: "put_world \<Rightarrow> bool" where
  "honest_put w \<longleftrightarrow> honest_pool (pw_pool w) \<and> (\<forall>f. pw_stat w f = None \<or> pw_stat w f = Some (length f))"

section \<open>One file\<close>

lemma put_file_exact:
  assumes "0 < chunk" "honest_put (pw p)" "share_keeps Mkdir files store"
  obtains s' n e where "put_file disk pw store chunk p it s = Some (s', n, e)" "\<And>q. q \<noteq> p \<Longrightarrow> files s' q = files s q"
    "e = None \<Longrightarrow> files s' p = disk (it_local it) \<and> disk (it_local it) \<noteq> None"
proof -
  let ?w = "pw p"
  have st: "files (store p f s) = (files s)(p \<mapsto> f)" for f using assms(3) by (simp add: share_keeps_def)
  show thesis
  proof (cases "\<exists>content. disk (it_local it) = Some content \<and> pw_creates ?w")
    case True
    then obtain content where c: "disk (it_local it) = Some content" "pw_creates ?w" by blast
    obtain remote n e where "writeOneFile (nat chunk) (pw_sched ?w) (pw_pool ?w) (pw_closes ?w) (pw_stat ?w) (Some content) True (it_size it) =
        Some (Some remote, n, e)" "e = None \<longrightarrow> remote = content"
      using upload_exact [of "nat chunk" "pw_pool ?w" "pw_stat ?w" "pw_sched ?w" "pw_closes ?w" content "it_size it"] assms(1,2)
      by (auto simp: honest_put_def)
    then show thesis using c st by (intro that [of "store p remote s" n e]) (auto simp: put_file_def)
  next
    case False
    then obtain e where "writeOneFile (nat chunk) (pw_sched ?w) (pw_pool ?w) (pw_closes ?w) (pw_stat ?w) (disk (it_local it))
        (pw_creates ?w) (it_size it) = Some (None, 0, Some e)"
      by (cases "disk (it_local it)") (auto simp: writeOneFile_def)
    then show thesis by (intro that [of s 0 "Some e"]) (auto simp: put_file_def)
  qed
qed

lemma mkdir_segs_files:
  "share_keeps Mkdir files store \<Longrightarrow> files (fst (mkdir_segs Mkdir Stat cur segs s)) = files s"
proof (induction segs arbitrary: cur s)
  case (Cons seg segs)
  obtain s1 ok where m: "Mkdir s (next_cur cur seg) = (s1, ok)" by fastforce
  then have "files s1 = files s" using Cons.prems by (metis fst_conv share_keeps_def)
  then show ?case using Cons m by (auto simp: Let_def)
qed simp

lemma make_parent_files: "share_keeps Mkdir files store \<Longrightarrow> files (fst (make_parent Mkdir Stat full s)) = files s"
  by (simp add: make_parent_def mkdirP_def mkdir_segs_files Let_def)

section \<open>All files\<close>

definition dest :: "string \<Rightarrow> item \<Rightarrow> string" where
  "dest share_root it = win_path (full_path share_root (it_rel it))"

text \<open>\<open>copied\<close>: the files of the share after the first \<open>k\<close> items were written; a further one may be half written.\<close>

definition copied :: "(string \<Rightarrow> bytes option) \<Rightarrow> string \<Rightarrow> item list \<Rightarrow> nat \<Rightarrow> (string \<rightharpoonup> bytes) \<Rightarrow> (string \<rightharpoonup> bytes) \<Rightarrow> bool" where
  "copied disk share_root its k old new \<longleftrightarrow>
     (\<forall>it\<in>set (take k its). new (dest share_root it) = disk (it_local it) \<and> disk (it_local it) \<noteq> None) \<and>
     (\<forall>q. q \<notin> dest share_root ` set (take (Suc k) its) \<longrightarrow> new q = old q)"

lemma copied_Cons:
  assumes "copied disk share_root its k mid new" "dest share_root it \<notin> dest share_root ` set its"
    and "mid (dest share_root it) = disk (it_local it)" "disk (it_local it) \<noteq> None" "\<And>q. q \<noteq> dest share_root it \<Longrightarrow> mid q = old q"
  shows "copied disk share_root (it # its) (Suc k) old new"
proof -
  have "dest share_root it \<notin> dest share_root ` set (take (Suc k) its)" using assms(2) by (auto dest: in_set_takeD)
  then have "new (dest share_root it) = mid (dest share_root it)" using assms(1) by (simp add: copied_def)
  then show ?thesis using assms by (auto simp: copied_def)
qed

lemma upload_items_copied:
  assumes "share_keeps Mkdir files store" "0 < chunk" "\<And>p. honest_put (pw p)" "distinct (map (dest share_root) its)"
    and "upload_items Mkdir Stat (\<lambda>p it s. the (put_file disk pw store chunk p it s)) share_root its r s = (s', r')"
  shows "\<exists>k. ur_written r' = ur_written r @ map (dest share_root) (take k its) \<and> k \<le> length its \<and>
    copied disk share_root its k (files s) (files s') \<and> (ur_exit r' = 0 \<longrightarrow> k = length its)"
  using assms(4,5)
proof (induction its arbitrary: r s)
  case Nil
  then show ?case by (auto simp: copied_def)
next
  case (Cons it its)
  let ?put = "\<lambda>p it s. the (put_file disk pw store chunk p it s)" and ?p = "dest share_root it"
  obtain s1 m where m: "make_parent Mkdir Stat (full_path share_root (it_rel it)) s = (s1, m)" by fastforce
  have f1: "files s1 = files s" using make_parent_files [OF assms(1)] m by (metis fst_conv)
  obtain s2 n e where p: "put_file disk pw store chunk ?p it s1 = Some (s2, n, e)" "\<And>q. q \<noteq> ?p \<Longrightarrow> files s2 q = files s1 q"
    "e = None \<Longrightarrow> files s2 ?p = disk (it_local it) \<and> disk (it_local it) \<noteq> None"
    by (rule put_file_exact [where pw = pw and p = ?p and it = it and s = s1 and disk = disk, OF assms(2) assms(3) assms(1)]) blast
  show ?case
  proof (cases "m = Inr () \<and> e = None")
    case True
    let ?r = "r\<lparr>ur_done := ur_done r + n, ur_written := ur_written r @ [?p]\<rparr>"
    have "upload_items Mkdir Stat ?put share_root its ?r s2 = (s', r')"
      using Cons.prems(2) m p(1) True by (simp add: dest_def)
    from Cons.IH [OF _ this] Cons.prems(1) obtain k where k: "ur_written r' = ur_written r @ map (dest share_root) (it # take k its)"
      "k \<le> length its" "copied disk share_root its k (files s2) (files s')" "ur_exit r' = 0 \<longrightarrow> k = length its" by auto
    have "copied disk share_root (it # its) (Suc k) (files s) (files s')"
      using p(2,3) f1 True Cons.prems(1) by (intro copied_Cons [OF k(3)]) auto
    then show ?thesis using k by (intro exI [of _ "Suc k"]) auto
  next
    case False
    then have "ur_written r' = ur_written r" "ur_exit r' = 1" "s' = s1 \<or> s' = s2"
      using Cons.prems(2) m p(1) by (cases m; cases e; auto simp: dest_def Let_def)+
    then show ?thesis using p(2) f1 by (intro exI [of _ 0]) (auto simp: copied_def)
  qed
qed

section \<open>Properties\<close>



end
